(* ===== verification/GoPrelude.thy ===== *)
theory GoPrelude
  imports Main
    "HOL-Library.AList"
    "HOL-Library.Signed_Division"
    "HOL-Library.List_Lexorder"
    "HOL-Library.Char_ord"
begin

text \<open>
  The part of Go the program is written in, as far as the sources use it, and the
  lemmas every component shares.

  \<^item> \<^bold>\<open>Integers.\<close> An \<open>int64\<close> value is an \<open>int\<close>; every arithmetic operation of the
    source wraps its result to 64 bits with \<open>wrap64\<close>. The collection \<open>i64\<close> removes the
    wraps wherever the operands are known to be small. Lengths and indices of slices
    are \<open>nat\<close>. A \<open>time.Duration\<close> is an \<open>int64\<close> number of nanoseconds.
  \<^item> \<^bold>\<open>Strings\<close> are byte strings, so \<open>char list\<close>: \<open>len\<close> counts bytes and \<open><\<close> is the
    bytewise lexicographic order.
  \<^item> \<^bold>\<open>Maps\<close> are association lists with distinct keys, read with \<^const>\<open>map_of\<close> and
    written with \<open>AList.update\<close> and \<open>AList.delete\<close>; the order of the list stands for
    the iteration order of the runtime.
  \<^item> \<^bold>\<open>Errors.\<close> \<open>goerror\<close> keeps the format string and the arguments of the call that
    made the error; rendering them into text is the business of the \<open>fmt\<close> package.
    A run-time panic is \<open>Panic\<close>, or \<open>None\<close> where the operation has no error result.
\<close>

named_theorems i64 "rules that remove 64-bit wrap-around on operands in range"
named_theorems go_strings "simplification rules of the string functions"

section \<open>64-bit integers\<close>

definition wrap64 :: "int \<Rightarrow> int" where
  "wrap64 x = (x + 2 ^ 63) mod 2 ^ 64 - 2 ^ 63"

definition in64 :: "int \<Rightarrow> bool" where
  "in64 x \<longleftrightarrow> - (2 ^ 63) \<le> x \<and> x < 2 ^ 63"

definition add64 :: "int \<Rightarrow> int \<Rightarrow> int" where "add64 a b = wrap64 (a + b)"
definition sub64 :: "int \<Rightarrow> int \<Rightarrow> int" where "sub64 a b = wrap64 (a - b)"
definition mul64 :: "int \<Rightarrow> int \<Rightarrow> int" where "mul64 a b = wrap64 (a * b)"

text \<open>Go's \<open>/\<close> and \<open>%\<close> truncate towards zero; the callers handle a zero divisor.\<close>

definition quo64 :: "int \<Rightarrow> int \<Rightarrow> int" where "quo64 a b = wrap64 (a sdiv b)"
definition rem64 :: "int \<Rightarrow> int \<Rightarrow> int" where "rem64 a b = a smod b"

lemma in64I: "- 9223372036854775808 \<le> x \<Longrightarrow> x \<le> 9223372036854775807 \<Longrightarrow> in64 x"
  by (simp add: in64_def)

lemma in64D: "in64 x \<Longrightarrow> - 9223372036854775808 \<le> x" "in64 x \<Longrightarrow> x \<le> 9223372036854775807"
  by (simp_all add: in64_def)

lemma in64_wrap64 [simp]: "in64 (wrap64 x)"
  by (simp add: in64_def wrap64_def)

lemma wrap64_id [i64]: "in64 x \<Longrightarrow> wrap64 x = x"
  by (simp add: in64_def wrap64_def)

lemma wrap64_idem [simp]: "wrap64 (wrap64 x) = wrap64 x"
  by (simp add: wrap64_id)

lemma add64_id [i64]: "in64 (a + b) \<Longrightarrow> add64 a b = a + b"
  by (simp add: add64_def wrap64_id)

lemma sub64_id [i64]: "in64 (a - b) \<Longrightarrow> sub64 a b = a - b"
  by (simp add: sub64_def wrap64_id)

lemma mul64_id [i64]: "in64 (a * b) \<Longrightarrow> mul64 a b = a * b"
  by (simp add: mul64_def wrap64_id)

lemma sdiv_nonneg: "0 \<le> a \<Longrightarrow> 0 < b \<Longrightarrow> (a::int) sdiv b = a div b"
  by (simp add: signed_divide_int_def sgn_if)

lemma smod_nonneg: "0 \<le> a \<Longrightarrow> 0 < b \<Longrightarrow> (a::int) smod b = a mod b"
  by (cases "a = 0") (simp_all add: signed_modulo_int_def sgn_if)

lemma sdiv_neg: "a < 0 \<Longrightarrow> 0 < b \<Longrightarrow> (a::int) sdiv b = - ((- a) div b)"
  by (simp add: signed_divide_int_def sgn_if)

lemma le_zdiv_iff: "0 < b \<Longrightarrow> (a::int) \<le> c div b \<longleftrightarrow> a * b \<le> c"
proof
  assume b: "0 < b" and "a \<le> c div b"
  then have "a * b \<le> c div b * b" by simp
  also have "\<dots> \<le> c" using div_mult_mod_eq [of c b] pos_mod_sign [OF b, of c] by linarith
  finally show "a * b \<le> c" .
next
  assume b: "0 < b" and "a * b \<le> c"
  then have "(a * b) div b \<le> c div b" by (intro zdiv_mono1)
  with b show "a \<le> c div b" by simp
qed

lemma quo64_nonneg [i64]: "0 \<le> a \<Longrightarrow> 0 < b \<Longrightarrow> in64 a \<Longrightarrow> quo64 a b = a div b"
proof -
  assume a: "0 \<le> a" "0 < b" "in64 a"
  then have "a div b \<le> a" "0 \<le> a div b"
    by (auto simp: pos_imp_zdiv_nonneg_iff) (metis a(1,2) div_by_1 int_one_le_iff_zero_less zdiv_mono2 zero_less_one)
  with a(3) have "in64 (a div b)" by (auto simp: in64_def)
  with a show ?thesis by (simp add: quo64_def sdiv_nonneg wrap64_id)
qed

lemma quo64_neg: "a < 0 \<Longrightarrow> 0 < b \<Longrightarrow> in64 a \<Longrightarrow> quo64 a b \<le> 0"
proof -
  assume a: "a < 0" "0 < b" "in64 a"
  then have le: "(- a) div b \<le> - a" "0 \<le> (- a) div b"
    by (auto simp: pos_imp_zdiv_nonneg_iff) (metis a(1,2) div_by_1 int_one_le_iff_zero_less neg_0_le_iff_le order_less_imp_le zdiv_mono2 zero_less_one)
  with a(3) have "in64 (- ((- a) div b))" by (auto simp: in64_def)
  with a le show ?thesis by (simp add: quo64_def sdiv_neg wrap64_id)
qed

lemma rem64_nonneg [i64]: "0 \<le> a \<Longrightarrow> 0 < b \<Longrightarrow> rem64 a b = a mod b"
  by (simp add: rem64_def smod_nonneg)

section \<open>Errors and messages\<close>

datatype fmt_arg =
    FStr string
  | FInt int
  | FDur int
  | FStrs "string list"
  | FErr goerror
and goerror =
    Errorf string "fmt_arg list"
  | Panic string "fmt_arg list"

type_synonym message = "string \<times> fmt_arg list"

text \<open>A method with a receiver that it changes returns the result and the new receiver.\<close>

type_synonym 'a result = "goerror + 'a"

section \<open>Strings\<close>

definition HasPrefix :: "string \<Rightarrow> string \<Rightarrow> bool" where
  "HasPrefix s p \<longleftrightarrow> take (length p) s = p"

definition HasSuffix :: "string \<Rightarrow> string \<Rightarrow> bool" where
  "HasSuffix s p \<longleftrightarrow> length p \<le> length s \<and> drop (length s - length p) s = p"

definition TrimPrefix :: "string \<Rightarrow> string \<Rightarrow> string" where
  "TrimPrefix s p = (if HasPrefix s p then drop (length p) s else s)"

definition ContainsAny :: "string \<Rightarrow> string \<Rightarrow> bool" where
  "ContainsAny s chars \<longleftrightarrow> list_ex (\<lambda>c. c \<in> set chars) s"

text \<open>\<open>strings.Cut\<close> and \<open>strings.Split\<close> at a separator of one byte.\<close>

fun Cut :: "string \<Rightarrow> char \<Rightarrow> string \<times> string \<times> bool" where
  "Cut [] c = ([], [], False)"
| "Cut (x # xs) c =
     (if x = c then ([], xs, True)
      else let (before, after, found) = Cut xs c in (x # before, after, found))"

fun Split :: "string \<Rightarrow> char \<Rightarrow> string list" where
  "Split [] c = [[]]"
| "Split (x # xs) c =
     (if x = c then [] # Split xs c
      else (case Split xs c of [] \<Rightarrow> [[x]] | p # ps \<Rightarrow> (x # p) # ps))"

definition isUpperASCII :: "char \<Rightarrow> bool" where
  "isUpperASCII c \<longleftrightarrow> CHR ''A'' \<le> c \<and> c \<le> CHR ''Z''"

definition lowerASCII :: "char \<Rightarrow> char" where
  "lowerASCII c = (if isUpperASCII c then char_of (of_char c + (32 :: nat)) else c)"

definition isASCII :: "string \<Rightarrow> bool" where
  "isASCII s \<longleftrightarrow> list_all (\<lambda>c. (of_char c :: nat) < 128) s"

text \<open>
  \<open>strings.ToLower\<close>: bytewise on ASCII strings. A string with a byte beyond ASCII goes
  through the Unicode case tables, which are the parameter \<open>ul\<close>.
\<close>

definition ToLower :: "(string \<Rightarrow> string) \<Rightarrow> string \<Rightarrow> string" where
  "ToLower ul s = (if isASCII s then map lowerASCII s else ul s)"

lemma HasPrefix_append [simp, go_strings]: "HasPrefix (p @ s) p"
  by (simp add: HasPrefix_def)

lemma HasPrefix_iff: "HasPrefix s p \<longleftrightarrow> (\<exists>r. s = p @ r)"
  unfolding HasPrefix_def by (metis append_eq_conv_conj append_take_drop_id)

lemma HasPrefix_trans: "HasPrefix s p \<Longrightarrow> HasPrefix p q \<Longrightarrow> HasPrefix s q"
  by (auto simp: HasPrefix_iff)

lemma HasSuffix_iff: "HasSuffix s p \<longleftrightarrow> (\<exists>r. s = r @ p)"
proof
  assume "HasSuffix s p"
  then show "\<exists>r. s = r @ p"
    unfolding HasSuffix_def by (metis append_take_drop_id)
qed (auto simp: HasSuffix_def)

lemma Cut_found: "Cut s c = (b, a, True) \<Longrightarrow> s = b @ c # a \<and> c \<notin> set b"
  by (induction s arbitrary: b a) (auto split: if_splits prod.splits)

lemma Cut_not_found: "Cut s c = (b, a, False) \<Longrightarrow> b = s \<and> a = [] \<and> c \<notin> set s"
  by (induction s arbitrary: b a) (auto split: if_splits prod.splits)

lemma Cut_no_sep [simp]: "c \<notin> set s \<Longrightarrow> Cut s c = (s, [], False)"
  by (induction s) auto

lemma Cut_append [simp]: "c \<notin> set s \<Longrightarrow> Cut (s @ c # r) c = (s, r, True)"
  by (induction s) auto

lemma Cut_shorter: "s \<noteq> [] \<Longrightarrow> Cut s c = (b, a, f) \<Longrightarrow> length a < length s"
proof (induction s arbitrary: b a f)
  case (Cons x xs)
  then show ?case by (cases xs) (fastforce split: if_splits prod.splits)+
qed simp

lemma Split_not_Nil [simp]: "Split s c \<noteq> []"
  by (induction s) (auto split: list.splits)

lemma Split_no_sep: "p \<in> set (Split s c) \<Longrightarrow> c \<notin> set p"
  by (induction s arbitrary: p) (auto split: if_splits list.splits)

text \<open>Joining with the separator inverts \<open>Split\<close>.\<close>

fun Join :: "string list \<Rightarrow> char \<Rightarrow> string" where
  "Join [] c = []"
| "Join [p] c = p"
| "Join (p # q # ps) c = p @ c # Join (q # ps) c"

lemma Join_Cons: "ps \<noteq> [] \<Longrightarrow> Join (p # ps) c = p @ c # Join ps c"
  by (cases ps) auto

lemma Join_head: "Join ((x # p) # ps) c = x # Join (p # ps) c"
  by (cases ps) auto

lemma Join_Split [simp]: "Join (Split s c) c = s"
proof (induction s)
  case (Cons x xs)
  then show ?case
    by (cases "Split xs c") (auto simp: Join_Cons Join_head)
qed simp

lemma Split_single: "c \<notin> set p \<Longrightarrow> Split p c = [p]"
  by (induction p) auto

lemma Split_append: "c \<notin> set p \<Longrightarrow> Split (p @ c # s) c = p # Split s c"
  by (induction p) auto

lemma Split_Join:
  "ps \<noteq> [] \<Longrightarrow> \<forall>p \<in> set ps. c \<notin> set p \<Longrightarrow> Split (Join ps c) c = ps"
  by (induction ps c rule: Join.induct) (auto simp: Split_single Split_append)

text \<open>
  A terminated list of segments, \<open>s1 c s2 c \<dots>\<close>, is read back uniquely: the encoding the
  counter keys use for axis values.
\<close>

definition terminate_all :: "char \<Rightarrow> string list \<Rightarrow> string" where
  "terminate_all c segs = concat (map (\<lambda>s. s @ [c]) segs)"

lemma terminate_all_simps [simp]:
  "terminate_all c [] = []"
  "terminate_all c (s # ss) = s @ c # terminate_all c ss"
  by (simp_all add: terminate_all_def)

lemma append_sep_eq:
  fixes p q :: string
  shows "c \<notin> set p \<Longrightarrow> c \<notin> set q \<Longrightarrow> p @ c # r = q @ c # s \<longleftrightarrow> p = q \<and> r = s"
proof
  assume c: "c \<notin> set p" "c \<notin> set q" and eq: "p @ c # r = q @ c # s"
  have "(p, r, True) = Cut (p @ c # r) c" using c by simp
  also have "\<dots> = (q, s, True)" unfolding eq using c by simp
  finally show "p = q \<and> r = s" by simp
qed simp

lemma HasPrefix_sep [simp]:
  "c \<notin> set p \<Longrightarrow> c \<notin> set q \<Longrightarrow>
     HasPrefix (q @ c # s) (p @ c # r) \<longleftrightarrow> p = q \<and> HasPrefix s r"
  by (auto simp: HasPrefix_iff append_sep_eq)

lemma HasPrefix_Cons [simp]: "HasPrefix (x # s) (y # p) \<longleftrightarrow> x = y \<and> HasPrefix s p"
  by (auto simp: HasPrefix_def)

lemma HasPrefix_Nil [simp]: "HasPrefix s []" "HasPrefix [] (x # p) \<longleftrightarrow> False"
  by (simp_all add: HasPrefix_def)

lemma terminate_all_prefix:
  assumes "\<forall>s \<in> set xs. c \<notin> set s" "\<forall>s \<in> set ys. c \<notin> set s"
    and "HasPrefix (terminate_all c ys) (terminate_all c xs)"
  shows "\<exists>zs. ys = xs @ zs"
  using assms
proof (induction xs arbitrary: ys)
  case (Cons x xs)
  show ?case
  proof (cases ys)
    case Nil
    with Cons.prems show ?thesis by (simp add: HasPrefix_def)
  next
    case (Cons y ys')
    with Cons.prems have "x = y" "HasPrefix (terminate_all c ys') (terminate_all c xs)"
      by (auto simp: HasPrefix_iff append_sep_eq)
    with Cons Cons.IH [of ys'] Cons.prems show ?thesis by auto
  qed
qed simp

lemma terminate_all_inj:
  assumes "\<forall>s \<in> set xs. c \<notin> set s" "\<forall>s \<in> set ys. c \<notin> set s"
    and "terminate_all c xs = terminate_all c ys"
  shows "xs = ys"
proof -
  obtain zs where zs: "ys = xs @ zs"
    using terminate_all_prefix [of xs c ys] assms by (auto simp: HasPrefix_def)
  with assms(3) have "terminate_all c zs = []"
    by (simp add: terminate_all_def)
  with zs show ?thesis by (cases zs) auto
qed

section \<open>Decimal and hexadecimal digits\<close>

definition digit_char :: "nat \<Rightarrow> char" where
  "digit_char d = char_of (d + 48)"

fun FormatNat :: "nat \<Rightarrow> string" where
  "FormatNat n = (if n < 10 then [digit_char n] else FormatNat (n div 10) @ [digit_char (n mod 10)])"

declare FormatNat.simps [simp del]

definition FormatInt :: "int \<Rightarrow> string" where
  "FormatInt i = (if i < 0 then CHR ''-'' # FormatNat (nat (- i)) else FormatNat (nat i))"

definition isDigit :: "char \<Rightarrow> bool" where
  "isDigit c \<longleftrightarrow> CHR ''0'' \<le> c \<and> c \<le> CHR ''9''"

definition hexDigit :: "nat \<Rightarrow> char" where
  "hexDigit d = ''0123456789ABCDEF'' ! d"

definition FormatHex2 :: "char \<Rightarrow> string" where
  "FormatHex2 c = [hexDigit (of_char c div 16), hexDigit (of_char c mod 16)]"

lemma of_char_digit_char: "d < 10 \<Longrightarrow> of_char (digit_char d) = (d + 48 :: nat)"
  by (simp add: digit_char_def)

lemma digit_char_inj: "d < 10 \<Longrightarrow> e < 10 \<Longrightarrow> digit_char d = digit_char e \<longleftrightarrow> d = e"
  by (metis add_right_cancel of_char_digit_char)

lemma FormatNat_not_Nil [simp]: "FormatNat n \<noteq> []" "[] \<noteq> FormatNat n"
  by (subst FormatNat.simps, simp)+

lemma FormatNat_inj: "FormatNat m = FormatNat n \<Longrightarrow> m = n"
proof (induction m arbitrary: n rule: FormatNat.induct)
  case (1 m)
  show ?case
  proof (cases "m < 10")
    case True
    with "1.prems" show ?thesis
      by (cases "n < 10") (auto simp: FormatNat.simps [of m] FormatNat.simps [of n] digit_char_inj)
  next
    case False
    with "1.prems" have n: "\<not> n < 10"
      by (auto simp: FormatNat.simps [of m] FormatNat.simps [of n] split: if_splits)
    with False "1.prems" have "FormatNat (m div 10) = FormatNat (n div 10)" "m mod 10 = n mod 10"
      by (auto simp: FormatNat.simps [of m] FormatNat.simps [of n] digit_char_inj)
    with "1.IH" [OF False] show ?thesis
      by (metis mod_div_decomp)
  qed
qed

lemma FormatInt_inj_nonneg: "0 \<le> i \<Longrightarrow> 0 \<le> j \<Longrightarrow> FormatInt i = FormatInt j \<longleftrightarrow> i = j"
  by (auto simp: FormatInt_def dest: FormatNat_inj)

lemma FormatNat_digits: "c \<in> set (FormatNat n) \<Longrightarrow> isDigit c"
proof (induction n rule: FormatNat.induct)
  case (1 n)
  have dig: "isDigit (digit_char d)" if "d < 10" for d
    using that by (simp add: isDigit_def less_eq_char_def of_char_digit_char)
  show ?case
  proof (cases "n < 10")
    case True
    with "1.prems" dig show ?thesis by (simp add: FormatNat.simps [of n])
  next
    case False
    with 1 dig [of "n mod 10"] show ?thesis by (auto simp: FormatNat.simps [of n])
  qed
qed

lemma FormatInt_digits: "0 \<le> i \<Longrightarrow> c \<in> set (FormatInt i) \<Longrightarrow> isDigit c"
  by (simp add: FormatInt_def FormatNat_digits)

section \<open>Maps\<close>

type_synonym 'v gomap = "(string \<times> 'v) list"

abbreviation gm_keys :: "'v gomap \<Rightarrow> string list" where
  "gm_keys m \<equiv> map fst m"

definition gm_ok :: "'v gomap \<Rightarrow> bool" where
  "gm_ok m \<longleftrightarrow> distinct (gm_keys m)"

lemma gm_ok_empty [simp]: "gm_ok []"
  by (simp add: gm_ok_def)

lemma gm_ok_update [simp]: "gm_ok m \<Longrightarrow> gm_ok (AList.update k v m)"
  by (simp add: gm_ok_def distinct_update)

lemma gm_ok_delete [simp]: "gm_ok m \<Longrightarrow> gm_ok (AList.delete k m)"
  by (simp add: gm_ok_def distinct_delete)

lemma map_of_update [simp]: "map_of (AList.update k v m) = (map_of m)(k \<mapsto> v)"
  by (simp add: update_conv')

lemma map_of_delete [simp]: "map_of (AList.delete k m) = (map_of m)(k := None)"
  by (simp add: delete_conv')

lemma gm_ok_filter: "gm_ok m \<Longrightarrow> gm_ok (filter P m)"
  by (simp add: gm_ok_def distinct_map_filter)

lemma map_of_filter:
  "gm_ok m \<Longrightarrow> map_of (filter (\<lambda>(k, e). P e) m) k =
     (case map_of m k of Some e \<Rightarrow> if P e then Some e else None | None \<Rightarrow> None)"
  by (induction m) (auto simp: gm_ok_def map_of_eq_None_iff split: option.splits)

section \<open>Generic list lemmas\<close>

lemma zip_map_memD:
  "(x, z) \<in> set (zip xs (map f ys)) \<Longrightarrow> \<exists>y. (x, y) \<in> set (zip xs ys) \<and> z = f y"
  by (auto simp: zip_map2)

lemma zip_map_fst_mem:
  "x \<in> set xs \<Longrightarrow> length xs = length ys \<Longrightarrow> \<exists>y. (x, y) \<in> set (zip xs ys)"
  by (meson in_set_impl_in_set_zip1)

lemma zip_map_mem: "(x, y) \<in> set (zip xs ys) \<Longrightarrow> (x, f y) \<in> set (zip xs (map f ys))"
  by (auto simp: in_set_zip)

lemma map_filter_mem: "y \<in> set (List.map_filter f xs) \<longleftrightarrow> (\<exists>x \<in> set xs. f x = Some y)"
  by (force simp: List.map_filter_def)

lemma list_all2_right_mem: "list_all2 P xs ys \<Longrightarrow> y \<in> set ys \<Longrightarrow> \<exists>x \<in> set xs. P x y"
  by (induction rule: list_all2_induct) auto

lemma list_all2_map_eq: "list_all2 P xs ys \<Longrightarrow> (\<And>x y. P x y \<Longrightarrow> f x = g y) \<Longrightarrow> map f xs = map g ys"
  by (induction rule: list_all2_induct) auto

lemma list_all2_mono_set:
  "list_all2 P xs ys \<Longrightarrow> (\<And>x y. (x, y) \<in> set (zip xs ys) \<Longrightarrow> P x y \<Longrightarrow> Q x y) \<Longrightarrow> list_all2 Q xs ys"
  by (auto simp: list_all2_iff)

lemma sum_list_map_le:
  "(\<And>x. x \<in> set xs \<Longrightarrow> f x \<le> g x) \<Longrightarrow> sum_list (map f xs) \<le> sum_list (map g xs :: nat list)"
  by (induction xs) (auto intro: add_mono)

end
