(* ===== verification/Algo.thy ===== *)
theory Algo
  imports GoPrelude
begin

text \<open>
  The counting algorithms as the Go side knows them (\<open>engine/algo\<close>): the window, the
  registry of algorithms, the validation \<open>Check\<close> a window passes before it reaches a
  store, and the two numbers every store derives from a GCRA window, the emission
  interval and the bucket depth.

  The \<open>Algorithm\<close> interface has unexported methods, so its implementations are the two
  structs of the package; they are the constructors of \<open>algorithm\<close>.
\<close>

section \<open>Windows and algorithms\<close>

type_synonym alg_id = nat

definition GCRAID :: alg_id where "GCRAID = 1"
definition FixedWindowID :: alg_id where "FixedWindowID = 2"

definition Microsecond :: int where "Microsecond = 1000"
definition Second :: int where "Second = 1000000000"
definition MaxPeriod :: int where "MaxPeriod = 24 * 3600 * Second"

record window =
  Requests :: int
  Period :: int
  Burst :: int

text \<open>The fields of the struct as \<open>reflect\<close> lists them, each with \<open>IsZero\<close>.\<close>

definition window_fields :: "window \<Rightarrow> (string \<times> bool) list" where
  "window_fields w =
     [(''Requests'', Requests w = 0), (''Period'', Period w = 0), (''Burst'', Burst w = 0)]"

definition window_field_names :: "string list" where
  "window_field_names = [''Requests'', ''Period'', ''Burst'']"

definition mandatory :: "string \<Rightarrow> bool" where
  "mandatory f \<longleftrightarrow> f \<in> {''Requests'', ''Period''}"

definition PeriodMicros :: "window \<Rightarrow> int" where
  "PeriodMicros w = quo64 (Period w) Microsecond"

datatype algorithm = gcra | fixedWindow

fun alg_ID :: "algorithm \<Rightarrow> alg_id" where
  "alg_ID gcra = GCRAID"
| "alg_ID fixedWindow = FixedWindowID"

fun alg_Name :: "algorithm \<Rightarrow> string" where
  "alg_Name gcra = ''GCRA''"
| "alg_Name fixedWindow = ''FixedWindow''"

fun consumes :: "algorithm \<Rightarrow> string list" where
  "consumes gcra = [''Burst'']"
| "consumes fixedWindow = []"

text \<open>\<open>strings.ToLower\<close> of an algorithm or field name, which is ASCII.\<close>

definition lower_name :: "string \<Rightarrow> string" where
  "lower_name s = map lowerASCII s"

section \<open>The GCRA numbers\<close>

definition maxTauMicros :: int where "maxTauMicros = 1000000000000000"
definition exactEmissionFloor :: int where "exactEmissionFloor = 100"

text \<open>\<open>None\<close> is the run-time panic of the integer division by zero requests.\<close>

definition EmissionMicros :: "window \<Rightarrow> int option" where
  "EmissionMicros w =
     (if Requests w = 0 then None
      else Some (quo64 (sub64 (add64 (PeriodMicros w) (Requests w)) 1) (Requests w)))"

definition TauMicros :: "window \<Rightarrow> int option" where
  "TauMicros w = map_option (\<lambda>emission. mul64 emission (Burst w)) (EmissionMicros w)"

section \<open>Validation\<close>

definition divide_by_zero :: goerror where
  "divide_by_zero = Panic ''runtime error: integer divide by zero'' []"

text \<open>The result of a check is the error it returns, \<open>None\<close> for \<open>nil\<close>.\<close>

definition checkCommon :: "window \<Rightarrow> goerror option" where
  "checkCommon w =
     (if Requests w < 1 then
        Some (Errorf ''requests must be at least 1, got %d'' [FInt (Requests w)])
      else if Period w < Second \<or> Period w > MaxPeriod \<or> rem64 (Period w) Second \<noteq> 0 then
        Some (Errorf ''period must be whole seconds within [1s, %s], got %s''
                [FDur MaxPeriod, FDur (Period w)])
      else None)"

definition validate_gcra :: "window \<Rightarrow> goerror option" where
  "validate_gcra w =
     (if Burst w < 1 then
        Some (Errorf ''burst must be at least 1 in a resolved window, got %d'' [FInt (Burst w)])
      else
        let periodMicros = PeriodMicros w in
        if Requests w > periodMicros then
          Some (Errorf ''requests exceed GCRA resolution of one per microsecond: %d per %s''
                  [FInt (Requests w), FDur (Period w)])
        else (case EmissionMicros w of
          None \<Rightarrow> Some divide_by_zero
        | Some emission \<Rightarrow>
            if emission < exactEmissionFloor \<and> rem64 periodMicros (Requests w) \<noteq> 0 then
              Some (Errorf ''a rate this high must divide the period evenly at microsecond resolution: %d per %s does not''
                      [FInt (Requests w), FDur (Period w)])
            else if emission = 0 then Some divide_by_zero
            else if Burst w > quo64 maxTauMicros emission then
              Some (Errorf (''bucket depth burst'' @ [CHR 0xC3, CHR 0x97] @
                        ''(period/requests) exceeds the supported maximum, burst %d is too large'')
                      [FInt (Burst w)])
            else None))"

fun validate :: "algorithm \<Rightarrow> window \<Rightarrow> goerror option" where
  "validate gcra w = validate_gcra w"
| "validate fixedWindow w = None"

text \<open>The loop of \<open>Check\<close> over the fields: the first set field the algorithm ignores.\<close>

fun foreign_field :: "algorithm \<Rightarrow> (string \<times> bool) list \<Rightarrow> string option" where
  "foreign_field a [] = None"
| "foreign_field a ((name, zero) # fs) =
     (if mandatory name \<or> name \<in> set (consumes a) \<or> zero then foreign_field a fs
      else Some name)"

definition Check :: "algorithm \<Rightarrow> window \<Rightarrow> goerror option" where
  "Check a w =
     (case foreign_field a (window_fields w) of
        Some name \<Rightarrow> Some (Errorf ''%s does not accept %s'' [FStr (alg_Name a), FStr (lower_name name)])
      | None \<Rightarrow>
          (case checkCommon w of
             Some err \<Rightarrow> Some err
           | None \<Rightarrow> validate a w))"

section \<open>The registry\<close>

record registry =
  byName :: "algorithm gomap"
  byID :: "(alg_id \<times> algorithm) list"

definition empty_registry :: registry where
  "empty_registry = \<lparr>byName = [], byID = []\<rparr>"

fun declared_fields :: "algorithm \<Rightarrow> string list \<Rightarrow> goerror option" where
  "declared_fields a [] = None"
| "declared_fields a (f # fs) =
     (if f \<notin> set window_field_names then
        Some (Panic ''algo: %s consumes unknown Window field %q'' [FStr (alg_Name a), FStr f])
      else if mandatory f then
        Some (Panic ''algo: %s declares mandatory field %q'' [FStr (alg_Name a), FStr f])
      else declared_fields a fs)"

definition Register :: "registry \<Rightarrow> algorithm \<Rightarrow> registry result" where
  "Register r a =
     (if map_of (byName r) (alg_Name a) \<noteq> None then
        Inl (Panic ''algo: name %q registered twice'' [FStr (alg_Name a)])
      else if map_of (byID r) (alg_ID a) \<noteq> None then
        Inl (Panic ''algo: id %d registered twice'' [FInt (int (alg_ID a))])
      else (case declared_fields a (consumes a) of
        Some p \<Rightarrow> Inl p
      | None \<Rightarrow> Inr (r\<lparr>byName := AList.update (alg_Name a) a (byName r),
                       byID := AList.update (alg_ID a) a (byID r)\<rparr>)))"

definition ByName :: "registry \<Rightarrow> string \<Rightarrow> algorithm option" where
  "ByName r name = map_of (byName r) name"

definition ByID :: "registry \<Rightarrow> alg_id \<Rightarrow> algorithm option" where
  "ByID r i = map_of (byID r) i"

definition Names :: "registry \<Rightarrow> string list" where
  "Names r = map (\<lambda>i. case map_of (byID r) i of Some a \<Rightarrow> alg_Name a | None \<Rightarrow> [])
               (sort (map fst (byID r)))"

text \<open>
  The \<open>init\<close> functions of the package run in file order, \<open>fixedwindow.go\<close> before
  \<open>gcra.go\<close>; \<open>the_registry\<close> is the state they leave behind.
\<close>

definition package_init :: "registry result" where
  "package_init =
     (case Register empty_registry fixedWindow of
        Inl p \<Rightarrow> Inl p
      | Inr r \<Rightarrow> Register r gcra)"

definition the_registry :: registry where
  "the_registry = \<lparr>byName = [(''FixedWindow'', fixedWindow), (''GCRA'', gcra)],
                   byID = [(FixedWindowID, fixedWindow), (GCRAID, gcra)]\<rparr>"

section \<open>Lemmas\<close>

named_theorems algo_consts "unfolding of the package's numeric constants"

declare GCRAID_def [algo_consts] FixedWindowID_def [algo_consts] Microsecond_def [algo_consts]
  Second_def [algo_consts] MaxPeriod_def [algo_consts] maxTauMicros_def [algo_consts]
  exactEmissionFloor_def [algo_consts]

lemma ids_distinct [simp]: "GCRAID \<noteq> FixedWindowID" "FixedWindowID \<noteq> GCRAID"
  by (simp_all add: algo_consts)

text \<open>The mathematical reference: the interval rounded up, and the depth, without wrap-around.\<close>

definition emission :: "window \<Rightarrow> int" where
  "emission w = (Period w div 1000 + Requests w - 1) div Requests w"

definition tau :: "window \<Rightarrow> int" where
  "tau w = emission w * Burst w"

text \<open>What the shared bounds mean: a whole number of seconds, at most a day.\<close>

definition common_ok :: "window \<Rightarrow> bool" where
  "common_ok w \<longleftrightarrow> 1 \<le> Requests w \<and> Second \<le> Period w \<and> Period w \<le> MaxPeriod \<and>
     Period w mod Second = 0"

lemma checkCommon_None [simp]: "checkCommon w = None \<longleftrightarrow> common_ok w"
  by (auto simp: checkCommon_def common_ok_def i64 algo_consts)

lemma common_ok_checkCommon: "common_ok w \<Longrightarrow> checkCommon w = None"
  by simp

lemma PeriodMicros_eq [i64]:
  "0 \<le> Period w \<Longrightarrow> in64 (Period w) \<Longrightarrow> PeriodMicros w = Period w div 1000"
  by (simp add: PeriodMicros_def Microsecond_def quo64_nonneg)

lemma common_ok_PeriodMicros:
  "common_ok w \<Longrightarrow> PeriodMicros w = Period w div 1000"
  by (rule PeriodMicros_eq) (auto simp: common_ok_def in64_def algo_consts)

lemma common_ok_period:
  assumes "common_ok w"
  shows "1000000 \<le> Period w div 1000" "Period w div 1000 \<le> 86400000000"
  using assms by (auto simp: common_ok_def algo_consts)

lemma emission_bounds:
  assumes "1 \<le> Requests w" "1 \<le> Period w div 1000"
  shows "1 \<le> emission w" "emission w \<le> Period w div 1000"
    and "Period w div 1000 \<le> emission w * Requests w"
    and "emission w * Requests w < Period w div 1000 + Requests w"
proof -
  let ?P = "Period w div 1000" and ?R = "Requests w"
  have R: "0 < ?R" using assms by simp
  have "?R div ?R \<le> (?P + ?R - 1) div ?R"
    using assms R by (intro zdiv_mono1) auto
  then show "1 \<le> emission w" using R by (simp add: emission_def)
  have q: "(?P + ?R - 1) div ?R * ?R + (?P + ?R - 1) mod ?R = ?P + ?R - 1"
    by (rule div_mult_mod_eq)
  have m: "0 \<le> (?P + ?R - 1) mod ?R" "(?P + ?R - 1) mod ?R < ?R"
    using R by auto
  show "?P \<le> emission w * ?R" "emission w * ?R < ?P + ?R"
    unfolding emission_def using q m by linarith+
  then have "(emission w - 1) * ?R < ?P" by (simp add: left_diff_distrib)
  moreover have "?P * 1 \<le> ?P * ?R" using assms by (intro mult_left_mono) auto
  ultimately have "(emission w - 1) * ?R < ?P * ?R" by simp
  then show "emission w \<le> ?P" using R by simp
qed

text \<open>A GCRA window that passed validation, in terms of the reference numbers.\<close>

definition gcra_ok :: "window \<Rightarrow> bool" where
  "gcra_ok w \<longleftrightarrow> common_ok w \<and> 1 \<le> Burst w \<and> Requests w \<le> Period w div 1000 \<and>
     (emission w < 100 \<longrightarrow> (Period w div 1000) mod Requests w = 0) \<and>
     tau w \<le> maxTauMicros"

lemma EmissionMicros_eq:
  assumes "common_ok w" "Requests w \<le> Period w div 1000"
  shows "EmissionMicros w = Some (emission w)"
proof -
  note P = common_ok_period [OF assms(1)]
  have R: "1 \<le> Requests w" using assms(1) by (simp add: common_ok_def)
  have "in64 (Period w div 1000 + Requests w)" "in64 (Period w div 1000 + Requests w - 1)"
    using P R assms(2) by (auto simp: in64_def)
  with R P show ?thesis
    by (simp add: EmissionMicros_def common_ok_PeriodMicros [OF assms(1)] i64 emission_def)
qed

lemma validate_gcra_None:
  assumes "common_ok w"
  shows "validate_gcra w = None \<longleftrightarrow> gcra_ok w"
proof (cases "1 \<le> Burst w \<and> Requests w \<le> Period w div 1000")
  case True
  note E = EmissionMicros_eq [OF assms conjunct2 [OF True]]
    and P = common_ok_PeriodMicros [OF assms] and PB = common_ok_period [OF assms]
  have R: "1 \<le> Requests w" using assms by (simp add: common_ok_def)
  have e: "1 \<le> emission w" using emission_bounds(1) [OF R] PB by simp
  have "quo64 maxTauMicros (emission w) = maxTauMicros div emission w"
    using e by (intro quo64_nonneg) (auto simp: in64_def algo_consts)
  then have "Burst w > quo64 maxTauMicros (emission w) \<longleftrightarrow> \<not> tau w \<le> maxTauMicros"
    using e le_zdiv_iff [of "emission w" "Burst w" maxTauMicros]
    by (auto simp: tau_def mult.commute)
  moreover have "rem64 (PeriodMicros w) (Requests w) = (Period w div 1000) mod Requests w"
    using R PB by (simp add: P rem64_nonneg)
  ultimately show ?thesis
    using True e assms by (auto simp: validate_gcra_def gcra_ok_def E P algo_consts Let_def)
next
  case False
  then show ?thesis
    using assms by (auto simp: validate_gcra_def gcra_ok_def common_ok_PeriodMicros Let_def)
qed

lemma foreign_field_gcra [simp]: "foreign_field gcra (window_fields w) = None"
  by (simp add: window_fields_def mandatory_def)

lemma foreign_field_fixedWindow [simp]:
  "foreign_field fixedWindow (window_fields w) = (if Burst w = 0 then None else Some ''Burst'')"
  by (simp add: window_fields_def mandatory_def)

lemma Check_gcra_iff: "Check gcra w = None \<longleftrightarrow> gcra_ok w"
proof (cases "common_ok w")
  case True
  then show ?thesis by (simp add: Check_def common_ok_checkCommon validate_gcra_None)
next
  case False
  then obtain e where "checkCommon w = Some e" by (metis checkCommon_None option.exhaust)
  with False show ?thesis by (simp add: Check_def gcra_ok_def)
qed

lemma Check_fixedWindow_iff: "Check fixedWindow w = None \<longleftrightarrow> common_ok w \<and> Burst w = 0"
proof (cases "common_ok w")
  case True
  then show ?thesis by (simp add: Check_def common_ok_checkCommon)
next
  case False
  then obtain e where "checkCommon w = Some e" by (metis checkCommon_None option.exhaust)
  with False show ?thesis by (simp add: Check_def split: option.splits)
qed

lemma Check_common_ok: "Check a w = None \<Longrightarrow> common_ok w"
  by (cases a) (auto simp: Check_gcra_iff Check_fixedWindow_iff gcra_ok_def)

lemma gcra_ok_numbers:
  assumes "gcra_ok w"
  shows "EmissionMicros w = Some (emission w)" "TauMicros w = Some (tau w)"
    and "1 \<le> emission w" "emission w \<le> tau w" "tau w \<le> 1000000000000000"
    and "emission w \<le> 86400000000"
proof -
  have ok: "common_ok w" "Requests w \<le> Period w div 1000" "1 \<le> Burst w" "tau w \<le> 1000000000000000"
    using assms by (auto simp: gcra_ok_def algo_consts)
  then show E: "EmissionMicros w = Some (emission w)" by (simp add: EmissionMicros_eq)
  have R: "1 \<le> Requests w" using ok(1) by (simp add: common_ok_def)
  show e: "1 \<le> emission w" using emission_bounds(1) [OF R] common_ok_period [OF ok(1)] by simp
  have "emission w * 1 \<le> emission w * Burst w" using e ok(3) by (intro mult_left_mono) auto
  then show t: "emission w \<le> tau w" by (simp add: tau_def)
  show "tau w \<le> 1000000000000000" by (rule ok(4))
  then have "in64 (emission w * Burst w)" using e t unfolding tau_def by (intro in64I) linarith+
  then show "TauMicros w = Some (tau w)" by (simp add: TauMicros_def E mul64_id tau_def)
  show "emission w \<le> 86400000000"
    using emission_bounds(2) [OF R] common_ok_period [OF ok(1)] by simp
qed

lemma ByName_the_registry: "ByName the_registry n = Some a \<longleftrightarrow> n = alg_Name a"
  by (cases a) (auto simp: ByName_def the_registry_def)

lemma ByID_the_registry: "ByID the_registry i = Some a \<longleftrightarrow> i = alg_ID a"
  by (cases a) (auto simp: ByID_def the_registry_def)

section \<open>Properties\<close>

text \<open>
  C35. A window that \<open>Check\<close> accepts for GCRA is one the counting math honours: the emission
  interval and the bucket depth are computed without a panic and without 64-bit
  wrap-around, the interval is at least one microsecond, the depth at most \<open>10 ^ 15\<close>, and
  the enforced rate (one request per interval) is never looser than the configured one
  and short of it by less than one percent.
\<close>

theorem Check_gcra_rate:
  assumes "Check gcra w = None"
  shows "EmissionMicros w = Some (emission w) \<and> TauMicros w = Some (emission w * Burst w) \<and>
    1 \<le> emission w \<and> emission w * Burst w \<le> maxTauMicros \<and>
    Period w div 1000 \<le> emission w * Requests w \<and>
    99 * (emission w * Requests w) < 100 * (Period w div 1000)"
proof -
  have ok: "gcra_ok w" using assms by (simp add: Check_gcra_iff)
  then have c: "common_ok w" by (simp add: gcra_ok_def)
  have R: "1 \<le> Requests w" and P: "1 \<le> Period w div 1000"
    using c common_ok_period [OF c] by (auto simp: common_ok_def)
  have "99 * (emission w * Requests w) < 100 * (Period w div 1000)"
  proof (cases "emission w < 100")
    case True
    with ok have "(Period w div 1000) mod Requests w = 0" by (simp add: gcra_ok_def)
    then obtain k where k: "Period w div 1000 = Requests w * k" by (metis mod_0_imp_dvd dvdE)
    then have "Period w div 1000 + Requests w - 1 = Requests w - 1 + k * Requests w" by simp
    then have "emission w = (Requests w - 1 + k * Requests w) div Requests w"
      unfolding emission_def by (rule arg_cong)
    also have "\<dots> = k" using R by (subst div_mult_self1) (auto simp: div_pos_pos_trivial)
    finally have "emission w = k" .
    with k P show ?thesis by (simp add: mult.commute)
  next
    case False
    then have "100 * Requests w \<le> emission w * Requests w" using R by (intro mult_right_mono) auto
    with emission_bounds(4) [OF R P] show ?thesis by linarith
  qed
  with gcra_ok_numbers [OF ok] emission_bounds [OF R P] ok show ?thesis
    by (simp add: tau_def gcra_ok_def)
qed

theorem Check_gcra_rate_witness:
  "Check gcra \<lparr>Requests = 7, Period = 60000000000, Burst = 3\<rparr> = None \<and>
   EmissionMicros \<lparr>Requests = 7, Period = 60000000000, Burst = 3\<rparr> = Some 8571429"
proof -
  let ?w = "\<lparr>Requests = 7, Period = 60000000000, Burst = 3\<rparr>"
  have c: "Check gcra ?w = None"
    by (simp add: Check_gcra_iff gcra_ok_def common_ok_def tau_def emission_def algo_consts)
  have "emission ?w = 8571429" by (simp add: emission_def)
  with c Check_gcra_rate [OF c] show ?thesis by simp
qed

text \<open>
  Exactly which windows \<open>Check\<close> accepts. For both algorithms: at least one request over
  a whole number of seconds between one second and a day. GCRA also wants a burst, at
  most one request per microsecond, a rate that divides the period evenly below an
  interval of 100 microseconds, and a bounded depth; a fixed window refuses a burst.
\<close>

theorem Check_accepts_iff:
  "Check a w = None \<longleftrightarrow>
     1 \<le> Requests w \<and> Second \<le> Period w \<and> Period w \<le> MaxPeriod \<and> Period w mod Second = 0 \<and>
     (case a of
        fixedWindow \<Rightarrow> Burst w = 0
      | gcra \<Rightarrow> 1 \<le> Burst w \<and> Requests w \<le> Period w div 1000 \<and>
          (emission w < exactEmissionFloor \<longrightarrow> (Period w div 1000) mod Requests w = 0) \<and>
          emission w * Burst w \<le> maxTauMicros)"
  by (cases a)
    (auto simp: Check_gcra_iff Check_fixedWindow_iff gcra_ok_def common_ok_def tau_def algo_consts)

theorem Check_accepts_iff_witness:
  "Check gcra \<lparr>Requests = 500001, Period = 1000000000, Burst = 1\<rparr> \<noteq> None \<and>
   Check gcra \<lparr>Requests = 500000, Period = 1000000000, Burst = 1\<rparr> = None"
  using Check_accepts_iff [of gcra "\<lparr>Requests = 500001, Period = 1000000000, Burst = 1\<rparr>"]
    Check_accepts_iff [of gcra "\<lparr>Requests = 500000, Period = 1000000000, Burst = 1\<rparr>"]
  by (simp add: emission_def algo_consts)

text \<open>
  Package initialisation registers both algorithms without a panic, and the registry it
  leaves resolves every algorithm by its name and by its dispatch code, and nothing else.
\<close>

theorem registry_roundtrip:
  "package_init = Inr the_registry \<and>
   (ByName the_registry n = Some a \<longleftrightarrow> n = alg_Name a) \<and>
   (ByID the_registry i = Some a \<longleftrightarrow> i = alg_ID a) \<and>
   Names the_registry = [''GCRA'', ''FixedWindow'']"
proof -
  have "package_init = Inr the_registry"
    by (simp add: package_init_def Register_def empty_registry_def the_registry_def
        window_field_names_def mandatory_def)
  moreover note ByName_the_registry [of n a] ByID_the_registry [of i a]
  moreover have "Names the_registry = [''GCRA'', ''FixedWindow'']"
    by (simp add: Names_def the_registry_def algo_consts)
  ultimately show ?thesis by blast
qed

end
