(* ===== verification/Store_Contract.thy ===== *)
theory Store_Contract
  imports Algo
begin

text \<open>
  The counter contract (\<open>engine/store\<close>): the bucket and verdict records, the guard every
  implementation runs on its callers, the admission rule, and the interface of a counter
  store as a locale. The laws of the locale are the promises the interface documents: one
  verdict per bucket in order, a refused request leaves no trace, a shadow bucket is
  charged per its own verdict, \<open>Peek\<close> judges like \<open>Decide\<close> and charges nothing, \<open>Reset\<close>
  drops exactly the named keys.
\<close>

section \<open>Buckets and verdicts\<close>

record bucket =
  bk_Key :: string
  bk_Algorithm :: alg_id
  bk_Window :: window
  bk_Shadow :: bool
  bk_Cost :: int

record verdict =
  v_Allowed :: bool
  v_Remaining :: int
  v_CostExceedsCapacity :: bool
  v_RetryAfter :: int
  v_ResetAfter :: int

fun guard_loop :: "string list \<Rightarrow> bucket list \<Rightarrow> goerror option" where
  "guard_loop seen [] = None"
| "guard_loop seen (b # bs) =
     (if bk_Cost b < 1 then
        Some (Errorf ''store: bucket %q carries a cost of %d, below 1''
                [FStr (bk_Key b), FInt (bk_Cost b)])
      else if bk_Key b \<in> set seen then
        Some (Errorf ''store: duplicate bucket key %q in one decision'' [FStr (bk_Key b)])
      else if Requests (bk_Window b) < 1 \<or> Period (bk_Window b) < Microsecond then
        Some (Errorf ''store: bucket %q carries a window that did not pass validation''
                [FStr (bk_Key b)])
      else guard_loop (bk_Key b # seen) bs)"

definition GuardBuckets :: "bucket list \<Rightarrow> goerror option" where
  "GuardBuckets buckets = guard_loop [] buckets"

text \<open>\<open>None\<close> is the panic on a verdict list of the wrong length.\<close>

fun admit_loop :: "bucket list \<Rightarrow> verdict list \<Rightarrow> bool" where
  "admit_loop (b # bs) (v # vs) =
     (if bk_Shadow b then admit_loop bs vs
      else if \<not> v_Allowed v then False
      else admit_loop bs vs)"
| "admit_loop _ _ = True"

definition Admitted :: "bucket list \<Rightarrow> verdict list \<Rightarrow> bool option" where
  "Admitted buckets verdicts =
     (if length buckets \<noteq> length verdicts then None else Some (admit_loop buckets verdicts))"

section \<open>The guard and the admission rule\<close>

lemma guard_loop_None:
  "guard_loop seen bs = None \<longleftrightarrow>
     (\<forall>b \<in> set bs. 1 \<le> bk_Cost b \<and> 1 \<le> Requests (bk_Window b) \<and> Microsecond \<le> Period (bk_Window b)) \<and>
     distinct (map bk_Key bs) \<and> set (map bk_Key bs) \<inter> set seen = {}"
  by (induction bs arbitrary: seen) auto

lemma GuardBuckets_None:
  "GuardBuckets bs = None \<longleftrightarrow>
     (\<forall>b \<in> set bs. 1 \<le> bk_Cost b \<and> 1 \<le> Requests (bk_Window b) \<and> Microsecond \<le> Period (bk_Window b)) \<and>
     distinct (map bk_Key bs)"
  by (simp add: GuardBuckets_def guard_loop_None)

lemma admit_loop_iff:
  "length bs = length vs \<Longrightarrow>
     admit_loop bs vs \<longleftrightarrow> (\<forall>(b, v) \<in> set (zip bs vs). bk_Shadow b \<or> v_Allowed v)"
  by (induction bs vs rule: list_induct2) auto

lemma Admitted_Some:
  "Admitted bs vs = Some ok \<longleftrightarrow>
     length bs = length vs \<and> (ok \<longleftrightarrow> (\<forall>(b, v) \<in> set (zip bs vs). bk_Shadow b \<or> v_Allowed v))"
  by (auto simp: Admitted_def admit_loop_iff)

lemma Admitted_cong:
  "map v_Allowed vs = map v_Allowed us \<Longrightarrow> Admitted bs vs = Admitted bs us"
proof -
  assume eq: "map v_Allowed vs = map v_Allowed us"
  then have l: "length vs = length us" by (metis length_map)
  have "admit_loop bs vs = admit_loop bs us"
    using l eq by (induction vs us arbitrary: bs rule: list_induct2) (case_tac bs; auto)+
  with l show ?thesis by (simp add: Admitted_def)
qed

section \<open>The interface of a counter store\<close>

text \<open>
  \<open>view s t b\<close> is what the store still holds for bucket \<open>b\<close> when its clock reads \<open>t\<close>. The
  key of a bucket carries its algorithm, so two buckets that share a key share the
  algorithm: the law of a call is stated for the buckets that respect this
  (\<open>same_algorithm\<close>).
\<close>

definition same_algorithm :: "bucket list \<Rightarrow> bucket \<Rightarrow> bool" where
  "same_algorithm bs b \<longleftrightarrow> (\<forall>b' \<in> set bs. bk_Key b' = bk_Key b \<longrightarrow> bk_Algorithm b' = bk_Algorithm b)"

lemma distinct_same_algorithm:
  assumes "distinct (map bk_Key bs)" "b \<in> set bs"
  shows "same_algorithm bs b"
proof -
  have "b' = b" if "b' \<in> set bs" "bk_Key b' = bk_Key b" for b'
    using assms that by (metis distinct_map inj_onD)
  then show ?thesis by (auto simp: same_algorithm_def)
qed

locale counter_store =
  fixes Decide Peek :: "'s \<Rightarrow> int \<Rightarrow> bucket list \<Rightarrow> verdict list result \<times> 's"
    and Reset :: "'s \<Rightarrow> string list \<Rightarrow> 's"
    and view :: "'s \<Rightarrow> int \<Rightarrow> bucket \<Rightarrow> 'c option"
  assumes decide_guard: "GuardBuckets bs = Some e \<Longrightarrow> Decide s t bs = (Inl e, s)"
    and peek_guard: "GuardBuckets bs = Some e \<Longrightarrow> Peek s t bs = (Inl e, s)"
    and decide_length: "Decide s t bs = (Inr vs, s') \<Longrightarrow> length vs = length bs"
    and peek_length: "Peek s t bs = (Inr vs, s') \<Longrightarrow> length vs = length bs"
    and decide_error: "Decide s t bs = (Inl e, s') \<Longrightarrow> t \<le> t' \<Longrightarrow> same_algorithm bs b \<Longrightarrow>
      view s' t' b = view s t' b"
    and decide_refused: "Decide s t bs = (Inr vs, s') \<Longrightarrow> Admitted bs vs = Some False \<Longrightarrow>
      t \<le> t' \<Longrightarrow> same_algorithm bs b \<Longrightarrow> view s' t' b = view s t' b"
    and decide_uncharged: "Decide s t bs = (Inr vs, s') \<Longrightarrow>
      \<forall>(b', v) \<in> set (zip bs vs). bk_Key b' = bk_Key b \<longrightarrow> \<not> v_Allowed v \<Longrightarrow>
      t \<le> t' \<Longrightarrow> same_algorithm bs b \<Longrightarrow> view s' t' b = view s t' b"
    and peek_view: "t \<le> t' \<Longrightarrow> same_algorithm bs b \<Longrightarrow> view (snd (Peek s t bs)) t' b = view s t' b"
    and peek_decide: "Decide s t bs = (Inr vs, s') \<Longrightarrow>
      \<exists>us. fst (Peek s t bs) = Inr us \<and> map v_Allowed us = map v_Allowed vs"
    and reset_view: "view (Reset s ks) t b = (if bk_Key b \<in> set ks then None else view s t b)"
begin

text \<open>What a client of any store may conclude.\<close>

lemma peek_same_admission:
  assumes "Decide s t bs = (Inr vs, s')"
  shows "\<exists>us. fst (Peek s t bs) = Inr us \<and> Admitted bs us = Admitted bs vs"
  using peek_decide [OF assms] by (auto dest: Admitted_cong)

lemma decide_admission_defined:
  "Decide s t bs = (Inr vs, s') \<Longrightarrow> \<exists>ok. Admitted bs vs = Some ok"
  by (simp add: Admitted_def decide_length)

lemma decide_frame:
  assumes "Decide s t bs = (Inr vs, s')" "bk_Key b \<notin> bk_Key ` set bs" "t \<le> t'"
  shows "view s' t' b = view s t' b"
  using assms(2,3)
  by (intro decide_uncharged [OF assms(1)])
    (force simp: same_algorithm_def image_iff dest: set_zip_leftD)+

lemma reset_idempotent: "view (Reset (Reset s ks) ks) t b = view (Reset s ks) t b"
  by (simp add: reset_view)

end

end
