(* ===== verification/Memory_Eval.thy ===== *)
theory Memory_Eval
  imports Store_Contract
begin

text \<open>
  How the in-memory store (\<open>engine/store/memory\<close>) judges one bucket: the entry it keeps, the
  outcome of a judgement, and the two formulas \<open>evalGCRA\<close> and \<open>evalFixed\<close> over 64-bit
  microseconds. Both are shown to satisfy one contract, the locale \<open>bucket_algorithm\<close>: a
  bucket holds a number of free units between zero and its capacity, a request is
  admitted exactly when its cost fits, a charge takes exactly the cost, and the retry
  hint is the first instant at which the request would fit.
\<close>

section \<open>State and verdicts\<close>

record entry =
  e_algorithm :: alg_id
  e_tat :: int
  e_start :: int
  e_count :: int
  e_deadline :: int

type_synonym mem = "entry gomap"

definition New :: mem where "New = []"

record outcome =
  o_allowed :: bool
  o_costExceeds :: bool
  o_retryAfter :: int
  o_remainCharged :: int
  o_remainCurrent :: int
  o_resetCharged :: int
  o_resetCurrent :: int
  o_next :: entry

definition zero_entry :: entry where
  "zero_entry = \<lparr>e_algorithm = 0, e_tat = 0, e_start = 0, e_count = 0, e_deadline = 0\<rparr>"

definition microsDuration :: "int \<Rightarrow> int" where
  "microsDuration us = mul64 us Microsecond"

definition nonNegative :: "int \<Rightarrow> int" where
  "nonNegative x = (if x < 0 then 0 else x)"

definition chargedVerdict :: "outcome \<Rightarrow> verdict" where
  "chargedVerdict r =
     \<lparr>v_Allowed = True, v_Remaining = o_remainCharged r, v_CostExceedsCapacity = False,
      v_RetryAfter = -1, v_ResetAfter = o_resetCharged r\<rparr>"

definition currentVerdict :: "outcome \<Rightarrow> verdict" where
  "currentVerdict r =
     \<lparr>v_Allowed = o_allowed r, v_Remaining = o_remainCurrent r,
      v_CostExceedsCapacity = o_costExceeds r,
      v_RetryAfter = o_retryAfter r, v_ResetAfter = o_resetCurrent r\<rparr>"

section \<open>Judging one bucket\<close>

text \<open>
  The pair \<open>e, exists\<close> of the source is an optional entry. \<open>None\<close> as a result is the panic
  of a division by zero.
\<close>

definition evalGCRA :: "entry option \<Rightarrow> int \<Rightarrow> window \<Rightarrow> int \<Rightarrow> outcome option" where
  "evalGCRA e nowUS w cost =
     (case (EmissionMicros w, TauMicros w) of
        (Some emissionUS, Some tauUS) \<Rightarrow>
          let tat = (case e of Some en \<Rightarrow> if e_tat en > nowUS then e_tat en else nowUS | None \<Rightarrow> nowUS);
              depth = sub64 tat nowUS
          in if emissionUS = 0 then None
             else
               let current = nonNegative (quo64 (sub64 tauUS depth) emissionUS)
               in if cost > Burst w then
                    Some \<lparr>o_allowed = False, o_costExceeds = True, o_retryAfter = -1,
                          o_remainCharged = 0, o_remainCurrent = current,
                          o_resetCharged = 0, o_resetCurrent = microsDuration depth,
                          o_next = zero_entry\<rparr>
                  else
                    let increment = mul64 emissionUS cost;
                        newTat = add64 tat increment;
                        diff = sub64 nowUS (sub64 newTat tauUS)
                    in Some \<lparr>o_allowed = (diff \<ge> 0), o_costExceeds = False,
                             o_retryAfter = (if diff \<ge> 0 then -1 else microsDuration (wrap64 (- diff))),
                             o_remainCharged = nonNegative (quo64 diff emissionUS),
                             o_remainCurrent = current,
                             o_resetCharged = microsDuration (sub64 newTat nowUS),
                             o_resetCurrent = microsDuration depth,
                             o_next = \<lparr>e_algorithm = GCRAID, e_tat = newTat, e_start = 0,
                                       e_count = 0, e_deadline = newTat\<rparr>\<rparr>
      | _ \<Rightarrow> None)"

definition evalFixed :: "entry option \<Rightarrow> int \<Rightarrow> window \<Rightarrow> int \<Rightarrow> outcome option" where
  "evalFixed e nowUS w cost =
     (let periodUS = PeriodMicros w in
      if periodUS = 0 then None
      else
        let start = sub64 nowUS (rem64 nowUS periodUS);
            count = (case e of Some en \<Rightarrow> if e_start en = start then e_count en else 0 | None \<Rightarrow> 0);
            left = max (sub64 (Requests w) count) 0;
            boundary = microsDuration (sub64 (add64 start periodUS) nowUS);
            allowed = (cost \<le> left);
            costExceeds = (cost > Requests w)
        in Some \<lparr>o_allowed = allowed, o_costExceeds = costExceeds,
                 o_retryAfter = (if \<not> allowed \<and> \<not> costExceeds then boundary else -1),
                 o_remainCharged = sub64 left cost,
                 o_remainCurrent = left,
                 o_resetCharged = boundary,
                 o_resetCurrent = (if count = 0 then 0 else boundary),
                 o_next = \<lparr>e_algorithm = FixedWindowID, e_tat = 0, e_start = start,
                           e_count = add64 count cost, e_deadline = add64 start periodUS\<rparr>\<rparr>)"

section \<open>The formulas without wrap-around\<close>

text \<open>
  The clock reads Unix microseconds; the bound keeps every intermediate value of the
  formulas within 64 bits and lies far beyond the year 100000.
\<close>

definition clock_ok :: "int \<Rightarrow> bool" where
  "clock_ok t \<longleftrightarrow> 0 \<le> t \<and> t \<le> 4000000000000000000"

lemma microsDuration_eq [i64]:
  "- 9000000000000000 \<le> us \<Longrightarrow> us \<le> 9000000000000000 \<Longrightarrow> microsDuration us = us * 1000"
  by (simp add: microsDuration_def Microsecond_def mul64_id in64_def)

lemma nonNegative_quo64:
  assumes "in64 a" "0 < b"
  shows "nonNegative (quo64 a b) = max 0 (a div b)"
proof (cases "0 \<le> a")
  case True
  with assms have "0 \<le> a div b" by (simp add: pos_imp_zdiv_nonneg_iff)
  with True assms show ?thesis by (simp add: quo64_nonneg nonNegative_def)
next
  case False
  then have "quo64 a b \<le> 0" "a div b < 0"
    using assms quo64_neg [of a b] by (auto simp: pos_imp_zdiv_neg_iff)
  then show ?thesis by (simp add: nonNegative_def)
qed

text \<open>GCRA: the depth of a bucket is how far its theoretical arrival time lies ahead.\<close>

definition gcra_depth :: "int \<Rightarrow> entry option \<Rightarrow> int" where
  "gcra_depth t e = (case e of Some en \<Rightarrow> max 0 (e_tat en - t) | None \<Rightarrow> 0)"

definition gcra_st_ok :: "int \<Rightarrow> entry option \<Rightarrow> bool" where
  "gcra_st_ok t e \<longleftrightarrow> (case e of Some en \<Rightarrow> e_tat en \<le> t + maxTauMicros | None \<Rightarrow> True)"

definition gcra_outcome :: "int \<Rightarrow> int \<Rightarrow> window \<Rightarrow> int \<Rightarrow> outcome" where
  "gcra_outcome d t w cost =
     (if cost > Burst w then
        \<lparr>o_allowed = False, o_costExceeds = True, o_retryAfter = -1, o_remainCharged = 0,
         o_remainCurrent = max 0 ((tau w - d) div emission w), o_resetCharged = 0,
         o_resetCurrent = d * 1000, o_next = zero_entry\<rparr>
      else
        let diff = tau w - d - emission w * cost; newTat = t + d + emission w * cost
        in \<lparr>o_allowed = (0 \<le> diff), o_costExceeds = False,
            o_retryAfter = (if 0 \<le> diff then -1 else - diff * 1000),
            o_remainCharged = max 0 (diff div emission w),
            o_remainCurrent = max 0 ((tau w - d) div emission w),
            o_resetCharged = (d + emission w * cost) * 1000, o_resetCurrent = d * 1000,
            o_next = \<lparr>e_algorithm = GCRAID, e_tat = newTat, e_start = 0, e_count = 0,
                      e_deadline = newTat\<rparr>\<rparr>)"

lemma gcra_depth_bounds:
  "gcra_st_ok t e \<Longrightarrow> 0 \<le> gcra_depth t e \<and> gcra_depth t e \<le> 1000000000000000"
  by (auto simp: gcra_st_ok_def gcra_depth_def algo_consts split: option.splits)

lemma evalGCRA_eq:
  assumes w: "gcra_ok w" and t: "clock_ok t" and e: "gcra_st_ok t e" and cost: "1 \<le> cost"
  shows "evalGCRA e t w cost = Some (gcra_outcome (gcra_depth t e) t w cost)"
proof -
  define d where "d = gcra_depth t e"
  note n = gcra_ok_numbers [OF w]
  have d: "0 \<le> d" "d \<le> 1000000000000000" using gcra_depth_bounds [OF e] by (auto simp: d_def)
  have t': "0 \<le> t" "t \<le> 4000000000000000000" using t by (auto simp: clock_ok_def)
  have tat: "(case e of Some en \<Rightarrow> if e_tat en > t then e_tat en else t | None \<Rightarrow> t) = t + d"
    by (auto simp: d_def gcra_depth_def split: option.splits)
  have depth: "sub64 (t + d) t = d" using d by (simp add: sub64_id in64_def)
  have "in64 (tau w - d)" using n d by (intro in64I) linarith+
  then have cur: "nonNegative (quo64 (sub64 (tau w) d) (emission w)) = max 0 ((tau w - d) div emission w)"
    using n by (simp add: sub64_id nonNegative_quo64)
  have res: "microsDuration d = d * 1000" using d by (simp add: microsDuration_eq)
  show ?thesis
  proof (cases "cost > Burst w")
    case True
    then show ?thesis
      unfolding evalGCRA_def gcra_outcome_def d_def [symmetric]
      using n by (simp add: tat depth cur res Let_def)
  next
    case False
    define x where "x = emission w * cost"
    have "emission w * cost \<le> emission w * Burst w" using False n by (intro mult_left_mono) auto
    then have x: "1 \<le> x" "x \<le> tau w"
      using n(3) cost mult_mono [of 1 "emission w" 1 cost] by (auto simp: x_def tau_def)
    have inc: "mul64 (emission w) cost = x"
      using x n by (simp add: x_def [symmetric] mul64_id in64_def)
    have new: "add64 (t + d) x = t + d + x"
      using x n d t' by (intro add64_id in64I) linarith+
    have "sub64 (t + d + x) (tau w) = t + d + x - tau w"
      using x n d t' by (intro sub64_id in64I) linarith+
    moreover have "sub64 t (t + d + x - tau w) = tau w - d - x"
      using x n d t' by (subst sub64_id) (auto intro!: in64I)
    ultimately have diff: "sub64 t (sub64 (t + d + x) (tau w)) = tau w - d - x" by simp
    have rc: "nonNegative (quo64 (tau w - d - x) (emission w)) = max 0 ((tau w - d - x) div emission w)"
      using x n d by (intro nonNegative_quo64 in64I) linarith+
    have reset: "microsDuration (sub64 (t + d + x) t) = (d + x) * 1000"
      using x n d by (subst sub64_id) (auto intro!: in64I simp: microsDuration_eq)
    have retry: "microsDuration (wrap64 (x - (tau w - d))) = (x - (tau w - d)) * 1000"
      using x n d by (subst wrap64_id) (auto intro!: in64I simp: microsDuration_eq)
    show ?thesis
      unfolding evalGCRA_def gcra_outcome_def d_def [symmetric] x_def [symmetric]
      using n False by (simp add: tat depth cur res inc new diff rc reset retry Let_def)
  qed
qed

text \<open>Fixed window: what was consumed in the epoch-aligned window that contains \<open>t\<close>.\<close>

definition fixed_start :: "window \<Rightarrow> int \<Rightarrow> int" where
  "fixed_start w t = t - t mod (Period w div 1000)"

definition fixed_count :: "int \<Rightarrow> window \<Rightarrow> entry option \<Rightarrow> int" where
  "fixed_count t w e =
     (case e of Some en \<Rightarrow> if e_start en = fixed_start w t then e_count en else 0 | None \<Rightarrow> 0)"

definition fixed_st_ok :: "int \<Rightarrow> entry option \<Rightarrow> bool" where
  "fixed_st_ok t e \<longleftrightarrow>
     (case e of Some en \<Rightarrow> 0 \<le> e_count en \<and> in64 (e_count en) \<and> e_start en \<le> t | None \<Rightarrow> True)"

definition fixed_ok :: "window \<Rightarrow> bool" where
  "fixed_ok w \<longleftrightarrow> common_ok w \<and> in64 (Requests w)"

definition fixed_outcome :: "int \<Rightarrow> int \<Rightarrow> window \<Rightarrow> int \<Rightarrow> outcome" where
  "fixed_outcome n t w cost =
     (let start = fixed_start w t; P = Period w div 1000;
          left = max (Requests w - n) 0; boundary = (start + P - t) * 1000
      in \<lparr>o_allowed = (cost \<le> left), o_costExceeds = (cost > Requests w),
          o_retryAfter = (if \<not> cost \<le> left \<and> \<not> cost > Requests w then boundary else -1),
          o_remainCharged = left - cost, o_remainCurrent = left,
          o_resetCharged = boundary, o_resetCurrent = (if n = 0 then 0 else boundary),
          o_next = \<lparr>e_algorithm = FixedWindowID, e_tat = 0, e_start = start,
                    e_count = add64 n cost, e_deadline = start + P\<rparr>\<rparr>)"

lemma fixed_count_bounds:
  "fixed_st_ok t e \<Longrightarrow> 0 \<le> fixed_count t w e \<and> in64 (fixed_count t w e)"
  by (auto simp: fixed_st_ok_def fixed_count_def in64_def split: option.splits)

lemma fixed_start_bounds:
  assumes "common_ok w" "clock_ok t"
  shows "0 \<le> fixed_start w t" "fixed_start w t \<le> t" "t < fixed_start w t + Period w div 1000"
proof -
  have P: "0 < Period w div 1000" using common_ok_period [OF assms(1)] by simp
  have t: "0 \<le> t" using assms(2) by (simp add: clock_ok_def)
  show "fixed_start w t \<le> t" "t < fixed_start w t + Period w div 1000"
    using P by (simp_all add: fixed_start_def)
  have "t mod (Period w div 1000) \<le> t" using t P by (simp add: zmod_le_nonneg_dividend)
  then show "0 \<le> fixed_start w t" by (simp add: fixed_start_def)
qed

lemma evalFixed_eq:
  assumes w: "fixed_ok w" and t: "clock_ok t" and e: "fixed_st_ok t e"
    and cost: "1 \<le> cost" "in64 cost"
  shows "evalFixed e t w cost = Some (fixed_outcome (fixed_count t w e) t w cost)"
proof -
  have c: "common_ok w" and R: "1 \<le> Requests w" "in64 (Requests w)"
    using w by (auto simp: fixed_ok_def common_ok_def)
  note P = common_ok_period [OF c] and PM = common_ok_PeriodMicros [OF c]
    and s = fixed_start_bounds [OF c t] and n = fixed_count_bounds [OF e, of w]
  have t': "0 \<le> t" "t \<le> 4000000000000000000" using t by (auto simp: clock_ok_def)
  have "rem64 t (Period w div 1000) = t mod (Period w div 1000)"
    using t' P by (intro rem64_nonneg) auto
  moreover have "in64 (fixed_start w t)" using s t' by (intro in64I) linarith+
  ultimately have start: "sub64 t (rem64 t (Period w div 1000)) = fixed_start w t"
    by (simp add: sub64_id fixed_start_def)
  have count: "(case e of None \<Rightarrow> 0 | Some en \<Rightarrow> if e_start en = fixed_start w t then e_count en else 0) =
      fixed_count t w e"
    by (simp add: fixed_count_def)
  have "sub64 (Requests w) (fixed_count t w e) = Requests w - fixed_count t w e"
    using R n in64D(2) [of "fixed_count t w e"] in64D(2) [OF R(2)] by (intro sub64_id in64I) linarith+
  then have left: "max (sub64 (Requests w) (fixed_count t w e)) 0 = max (Requests w - fixed_count t w e) 0"
    by simp
  have sum: "add64 (fixed_start w t) (Period w div 1000) = fixed_start w t + Period w div 1000"
    using s t' P by (intro add64_id in64I) linarith+
  have "sub64 (fixed_start w t + Period w div 1000) t = fixed_start w t + Period w div 1000 - t"
    using s t' P by (intro sub64_id in64I) linarith+
  then have boundary: "microsDuration (sub64 (fixed_start w t + Period w div 1000) t) =
      (fixed_start w t + Period w div 1000 - t) * 1000"
    using s P by (simp add: microsDuration_eq)
  have charged: "sub64 (max (Requests w - fixed_count t w e) 0) cost =
      max (Requests w - fixed_count t w e) 0 - cost"
    using cost n in64D(2) [OF R(2)] in64D(2) [OF cost(2)] by (intro sub64_id in64I) auto
  show ?thesis
    unfolding evalFixed_def fixed_outcome_def PM
    using P by (simp add: start count left sum boundary charged Let_def)
qed

section \<open>The contract of a counting algorithm\<close>

text \<open>
  \<open>free e t w\<close> is the number of units a bucket in state \<open>e\<close> still holds at time \<open>t\<close>. Two
  instances follow: GCRA, where units return one per emission interval, and the fixed
  window, where they return together at the boundary.
\<close>

locale bucket_algorithm =
  fixes eval :: "entry option \<Rightarrow> int \<Rightarrow> window \<Rightarrow> int \<Rightarrow> outcome option"
    and capacity :: "window \<Rightarrow> int"
    and win_ok :: "window \<Rightarrow> bool"
    and st_ok :: "int \<Rightarrow> entry option \<Rightarrow> bool"
    and free :: "entry option \<Rightarrow> int \<Rightarrow> window \<Rightarrow> int"
  assumes judge: "win_ok w \<Longrightarrow> clock_ok t \<Longrightarrow> st_ok t e \<Longrightarrow> 1 \<le> cost \<Longrightarrow> in64 cost \<Longrightarrow>
      \<exists>r. eval e t w cost = Some r \<and> o_remainCurrent r = free e t w \<and>
        (o_allowed r \<longleftrightarrow> cost \<le> free e t w) \<and> (o_costExceeds r \<longleftrightarrow> capacity w < cost) \<and>
        (o_retryAfter r = -1 \<longleftrightarrow> o_allowed r \<or> o_costExceeds r)"
    and free_range: "win_ok w \<Longrightarrow> clock_ok t \<Longrightarrow> st_ok t e \<Longrightarrow> 0 \<le> free e t w \<and> free e t w \<le> capacity w"
    and charge: "win_ok w \<Longrightarrow> clock_ok t \<Longrightarrow> st_ok t e \<Longrightarrow> 1 \<le> cost \<Longrightarrow> in64 cost \<Longrightarrow>
      eval e t w cost = Some r \<Longrightarrow> o_allowed r \<Longrightarrow>
      o_remainCharged r = free e t w - cost \<and> st_ok t (Some (o_next r)) \<and>
      free (Some (o_next r)) t w = free e t w - cost"
    and refill: "win_ok w \<Longrightarrow> clock_ok t \<Longrightarrow> clock_ok t' \<Longrightarrow> st_ok t e \<Longrightarrow> t \<le> t' \<Longrightarrow>
      free e t w \<le> free e t' w"
    and st_mono: "st_ok t e \<Longrightarrow> t \<le> t' \<Longrightarrow> st_ok t' e"
    and st_fresh: "st_ok t None"
    and free_fresh: "win_ok w \<Longrightarrow> clock_ok t \<Longrightarrow> free None t w = capacity w"
    and retry: "win_ok w \<Longrightarrow> clock_ok t \<Longrightarrow> st_ok t e \<Longrightarrow> 1 \<le> cost \<Longrightarrow> in64 cost \<Longrightarrow>
      eval e t w cost = Some r \<Longrightarrow> \<not> o_allowed r \<Longrightarrow> \<not> o_costExceeds r \<Longrightarrow>
      \<exists>d > 0. o_retryAfter r = d * 1000 \<and> cost \<le> free e (t + d) w \<and>
        (\<forall>t'. t \<le> t' \<and> t' < t + d \<longrightarrow> free e t' w < cost)"
begin

lemma capacity_pos: "win_ok w \<Longrightarrow> 0 \<le> capacity w"
  using free_range [of w 0 None] st_fresh by (simp add: clock_ok_def)

lemma exceeding_never_admitted:
  assumes "win_ok w" "clock_ok t" "st_ok t e" "1 \<le> cost" "in64 cost" "capacity w < cost"
  shows "\<exists>r. eval e t w cost = Some r \<and> \<not> o_allowed r \<and> o_costExceeds r \<and> o_retryAfter r = -1"
  using judge [OF assms(1-5)] free_range [OF assms(1-3)] assms(6) by fastforce

lemma fresh_admits:
  assumes "win_ok w" "clock_ok t" "1 \<le> cost" "in64 cost"
  shows "\<exists>r. eval None t w cost = Some r \<and> (o_allowed r \<longleftrightarrow> cost \<le> capacity w)"
  using judge [OF assms(1,2) st_fresh assms(3,4)] free_fresh [OF assms(1,2)] by auto

lemma refusal_cured_by_waiting:
  assumes "win_ok w" "clock_ok t" "st_ok t e" "1 \<le> cost" "in64 cost"
    and "eval e t w cost = Some r" "\<not> o_allowed r" "\<not> o_costExceeds r"
    and "clock_ok (t + o_retryAfter r div 1000)"
  shows "\<exists>r'. eval e (t + o_retryAfter r div 1000) w cost = Some r' \<and> o_allowed r'"
    and "t \<le> t' \<Longrightarrow> t' < t + o_retryAfter r div 1000 \<Longrightarrow>
      \<exists>r'. eval e t' w cost = Some r' \<and> \<not> o_allowed r'"
proof -
  obtain d where d: "0 < d" "o_retryAfter r = d * 1000" "cost \<le> free e (t + d) w"
    and early: "\<forall>t'. t \<le> t' \<and> t' < t + d \<longrightarrow> free e t' w < cost"
    using retry [OF assms(1-8)] by blast
  have "st_ok (t + d) e" using st_mono [OF assms(3), of "t + d"] d(1) by simp
  with judge [OF assms(1) _ _ assms(4,5), of "t + d" e] d assms(9)
  show "\<exists>r'. eval e (t + o_retryAfter r div 1000) w cost = Some r' \<and> o_allowed r'" by auto
  show "\<exists>r'. eval e t' w cost = Some r' \<and> \<not> o_allowed r'"
    if "t \<le> t'" "t' < t + o_retryAfter r div 1000"
  proof -
    have "clock_ok t'" using that assms(2,9) by (auto simp: clock_ok_def)
    moreover have "free e t' w < cost" using early that d by auto
    ultimately show ?thesis
      using judge [OF assms(1) _ _ assms(4,5), of t' e] st_mono [OF assms(3) that(1)] by fastforce
  qed
qed

end

section \<open>GCRA keeps the contract\<close>

definition gcra_free :: "entry option \<Rightarrow> int \<Rightarrow> window \<Rightarrow> int" where
  "gcra_free e t w = max 0 ((tau w - gcra_depth t e) div emission w)"

lemma gcra_depth_later: "0 \<le> s \<Longrightarrow> gcra_depth (t + s) e = max 0 (gcra_depth t e - s)"
  by (auto simp: gcra_depth_def split: option.splits)

lemma gcra_fits:
  assumes "gcra_ok w" "1 \<le> cost"
  shows "cost \<le> gcra_free e t w \<longleftrightarrow> gcra_depth t e + emission w * cost \<le> tau w"
proof -
  have "cost \<le> gcra_free e t w \<longleftrightarrow> cost \<le> (tau w - gcra_depth t e) div emission w"
    using assms(2) by (auto simp: gcra_free_def)
  also have "\<dots> \<longleftrightarrow> cost * emission w \<le> tau w - gcra_depth t e"
    using gcra_ok_numbers(3) [OF assms(1)] by (intro le_zdiv_iff) simp
  finally show ?thesis by (auto simp: mult.commute)
qed

lemma gcra_outcome_allowed:
  assumes "gcra_ok w" "1 \<le> cost" "0 \<le> gcra_depth t e"
  shows "o_allowed (gcra_outcome (gcra_depth t e) t w cost) \<longleftrightarrow> cost \<le> gcra_free e t w"
proof (cases "cost > Burst w")
  case True
  then have "emission w * Burst w < emission w * cost"
    using gcra_ok_numbers(3) [OF assms(1)] by (intro mult_strict_left_mono) auto
  with True assms show ?thesis by (simp add: gcra_fits gcra_outcome_def tau_def)
qed (use assms in \<open>auto simp: gcra_fits gcra_outcome_def Let_def\<close>)

lemma gcra_outcome_fields:
  "o_remainCurrent (gcra_outcome d t w cost) = max 0 ((tau w - d) div emission w)"
  "o_costExceeds (gcra_outcome d t w cost) \<longleftrightarrow> Burst w < cost"
  "o_retryAfter (gcra_outcome d t w cost) = -1 \<longleftrightarrow>
     o_allowed (gcra_outcome d t w cost) \<or> o_costExceeds (gcra_outcome d t w cost)"
  by (simp_all add: gcra_outcome_def Let_def)

interpretation gcra_bucket: bucket_algorithm evalGCRA Burst gcra_ok gcra_st_ok gcra_free
proof (unfold_locales, goal_cases)
  case (1 w t e cost)
  then show ?case
    using gcra_depth_bounds [of t e] gcra_outcome_allowed [of w cost t e]
    by (simp add: evalGCRA_eq gcra_outcome_fields gcra_free_def [symmetric])
next
  case (2 w t e)
  then have "(tau w - gcra_depth t e) div emission w \<le> tau w div emission w"
    using gcra_depth_bounds [of t e] gcra_ok_numbers(3) [of w] by (intro zdiv_mono1) auto
  also have "\<dots> = Burst w" using gcra_ok_numbers(3) [OF 2(1)] by (simp add: tau_def)
  finally show ?case using 2 by (auto simp: gcra_free_def gcra_ok_def)
next
  case (3 w t e cost r)
  define d where "d = gcra_depth t e"
  have r: "r = gcra_outcome d t w cost" and d: "0 \<le> d"
    using 3 gcra_depth_bounds [of t e] by (auto simp: evalGCRA_eq d_def)
  have em: "1 \<le> emission w" "tau w \<le> 1000000000000000" using 3 gcra_ok_numbers by auto
  have fit: "cost \<le> gcra_free e t w"
    using 3 d by (simp add: r gcra_outcome_allowed d_def)
  then have le: "d + emission w * cost \<le> tau w" using 3 by (simp add: gcra_fits d_def)
  then have burst: "\<not> cost > Burst w" using 3(7) by (auto simp: r gcra_outcome_def)
  have "tau w - d - emission w * cost = (tau w - d) + (- cost) * emission w" by (simp add: mult.commute)
  then have "(tau w - d - emission w * cost) div emission w = (tau w - d) div emission w - cost"
    using em by (simp only: div_mult_self1)
  moreover from this have "(tau w - (d + emission w * cost)) div emission w =
      (tau w - d) div emission w - cost"
    by (simp only: diff_diff_eq)
  moreover have "gcra_free e t w = (tau w - d) div emission w"
    using le em fit 3(4) by (auto simp: gcra_free_def d_def)
  moreover have "gcra_depth t (Some (o_next r)) = d + emission w * cost"
    using d em 3(4) burst by (auto simp: r gcra_depth_def gcra_outcome_def Let_def)
  ultimately show ?case
    using fit le burst em
    by (auto simp: r gcra_outcome_def Let_def gcra_free_def gcra_st_ok_def algo_consts)
next
  case (4 w t t' e)
  then have "gcra_depth t' e \<le> gcra_depth t e" by (auto simp: gcra_depth_def split: option.splits)
  then have "(tau w - gcra_depth t e) div emission w \<le> (tau w - gcra_depth t' e) div emission w"
    using gcra_ok_numbers(3) [OF 4(1)] by (intro zdiv_mono1) auto
  then show ?case by (auto simp: gcra_free_def)
next
  case (5 t e t')
  then show ?case by (auto simp: gcra_st_ok_def split: option.splits)
next
  case 6
  show ?case by (simp add: gcra_st_ok_def)
next
  case (7 w t)
  then show ?case
    using gcra_ok_numbers(3) [of w] by (simp add: gcra_free_def gcra_depth_def tau_def gcra_ok_def)
next
  case (8 w t e cost r)
  define d where "d = gcra_depth t e"
  define s where "s = emission w * cost - (tau w - d)"
  have r: "r = gcra_outcome d t w cost" using 8 by (simp add: evalGCRA_eq d_def)
  have burst: "\<not> cost > Burst w" and s: "0 < s" "o_retryAfter r = s * 1000"
    using 8(7,8) by (auto simp: r s_def gcra_outcome_def Let_def split: if_splits)
  have "emission w * cost \<le> tau w"
    using burst gcra_ok_numbers(3) [OF 8(1)] by (auto simp: tau_def intro: mult_left_mono)
  then have "cost \<le> gcra_free e (t + s) w"
    using 8 s(1) by (simp add: gcra_fits gcra_depth_later d_def [symmetric]) (simp add: s_def)
  moreover have "gcra_free e t' w < cost" if "t \<le> t'" "t' < t + s" for t'
  proof -
    have "gcra_depth t' e = max 0 (d - (t' - t))"
      using gcra_depth_later [of "t' - t" t e] that by (simp add: d_def)
    then have "\<not> cost \<le> gcra_free e t' w"
      using 8 that by (simp add: gcra_fits) (simp add: s_def)
    then show ?thesis by simp
  qed
  ultimately show ?case using s by blast
qed

section \<open>The fixed window keeps the contract\<close>

definition fixed_free :: "entry option \<Rightarrow> int \<Rightarrow> window \<Rightarrow> int" where
  "fixed_free e t w = max (Requests w - fixed_count t w e) 0"

lemma fixed_start_unique:
  assumes "common_ok w" "fixed_start w t \<le> t'" "t' < fixed_start w t + Period w div 1000"
  shows "fixed_start w t' = fixed_start w t"
proof -
  let ?P = "Period w div 1000"
  have P: "0 < ?P" using common_ok_period [OF assms(1)] by simp
  have s: "fixed_start w u = u div ?P * ?P" for u
    by (simp add: fixed_start_def minus_mod_eq_div_mult)
  have "t' div ?P = t div ?P"
  proof (rule int_div_pos_eq)
    show "t' = ?P * (t div ?P) + (t' - t div ?P * ?P)" by (simp add: mult.commute)
    show "0 \<le> t' - t div ?P * ?P" "t' - t div ?P * ?P < ?P" using assms(2,3) by (simp_all add: s)
  qed
  then show ?thesis by (simp add: s)
qed

lemma fixed_start_next:
  assumes "common_ok w"
  shows "fixed_start w (fixed_start w t + Period w div 1000) = fixed_start w t + Period w div 1000"
  using common_ok_period [OF assms]
  by (simp add: fixed_start_def minus_mod_eq_div_mult)

lemma fixed_start_mono:
  assumes "common_ok w" "t \<le> t'"
  shows "fixed_start w t \<le> fixed_start w t'"
  using assms common_ok_period [OF assms(1)]
  by (simp add: fixed_start_def minus_mod_eq_div_mult zdiv_mono1)

interpretation fixed_bucket: bucket_algorithm evalFixed Requests fixed_ok fixed_st_ok fixed_free
proof (unfold_locales, goal_cases)
  case (1 w t e cost)
  then have c: "common_ok w" by (simp add: fixed_ok_def)
  with 1 show ?case
    using fixed_count_bounds [of t e w] fixed_start_bounds [OF c, of t]
    by (auto simp: evalFixed_eq fixed_free_def fixed_outcome_def Let_def)
next
  case (2 w t e)
  then show ?case
    using fixed_count_bounds [of t e w] by (auto simp: fixed_free_def fixed_ok_def common_ok_def)
next
  case (3 w t e cost r)
  have r: "r = fixed_outcome (fixed_count t w e) t w cost" using 3 by (simp add: evalFixed_eq)
  have c: "common_ok w" and R: "in64 (Requests w)" using 3(1) by (auto simp: fixed_ok_def)
  note n = fixed_count_bounds [OF 3(3), of w]
  have fit: "cost \<le> Requests w - fixed_count t w e"
    using 3(4,7) by (auto simp: r fixed_outcome_def Let_def)
  then have "in64 (fixed_count t w e + cost)"
    using n 3(4) in64D [OF R] by (intro in64I) auto
  then have "e_count (o_next r) = fixed_count t w e + cost" "e_start (o_next r) = fixed_start w t"
    by (auto simp: r fixed_outcome_def Let_def add64_id)
  with fit n 3 fixed_start_bounds(2) [OF c 3(2)] \<open>in64 (fixed_count t w e + cost)\<close> show ?case
    by (auto simp: fixed_free_def fixed_st_ok_def fixed_count_def [of t w "Some (o_next r)"])
      (auto simp: r fixed_outcome_def Let_def)
next
  case (4 w t t' e)
  have c: "common_ok w" using 4(1) by (simp add: fixed_ok_def)
  have "fixed_count t' w e \<le> fixed_count t w e \<or> fixed_count t' w e = 0 \<and> 0 \<le> fixed_count t w e"
  proof (cases "fixed_start w t' = fixed_start w t")
    case True
    then have "fixed_count t' w e = fixed_count t w e"
      unfolding fixed_count_def by (simp split: option.split)
    then show ?thesis by simp
  next
    case False
    then have "\<not> t' < fixed_start w t + Period w div 1000"
      using fixed_start_unique [OF c, of t t'] fixed_start_bounds(2) [OF c 4(2)] 4(5) by auto
    then have "t < fixed_start w t'"
      using fixed_start_mono [OF c, of "fixed_start w t + Period w div 1000" t']
        fixed_start_next [OF c, of t] fixed_start_bounds(3) [OF c 4(2)] by auto
    then have "fixed_count t' w e = 0"
      using 4(4) by (auto simp: fixed_count_def fixed_st_ok_def split: option.splits)
    then show ?thesis using fixed_count_bounds [OF 4(4), of w] by simp
  qed
  then show ?case by (auto simp: fixed_free_def)
next
  case (5 t e t')
  then show ?case by (auto simp: fixed_st_ok_def split: option.splits)
next
  case 6
  show ?case by (simp add: fixed_st_ok_def)
next
  case (7 w t)
  then show ?case by (simp add: fixed_free_def fixed_count_def fixed_ok_def common_ok_def)
next
  case (8 w t e cost r)
  have c: "common_ok w" using 8(1) by (simp add: fixed_ok_def)
  note s = fixed_start_bounds [OF c 8(2)]
  define d where "d = fixed_start w t + Period w div 1000 - t"
  have r: "r = fixed_outcome (fixed_count t w e) t w cost" using 8 by (simp add: evalFixed_eq)
  have d: "0 < d" "o_retryAfter r = d * 1000" and cost: "cost \<le> Requests w" "fixed_free e t w < cost"
    using 8(7,8) s by (auto simp: r d_def fixed_outcome_def Let_def fixed_free_def)
  have "fixed_start w (t + d) = t + d" using fixed_start_next [OF c, of t] by (simp add: d_def)
  then have "fixed_count (t + d) w e = 0"
    using 8(3) d(1) by (auto simp: fixed_count_def fixed_st_ok_def split: option.splits)
  then have "cost \<le> fixed_free e (t + d) w" using cost by (simp add: fixed_free_def)
  moreover have "fixed_free e t' w < cost" if "t \<le> t'" "t' < t + d" for t'
  proof -
    have "fixed_start w t' = fixed_start w t"
      using that s by (intro fixed_start_unique [OF c]) (auto simp: d_def)
    then have "fixed_count t' w e = fixed_count t w e"
      by (simp add: fixed_count_def split: option.split)
    with cost(2) show ?thesis by (simp add: fixed_free_def)
  qed
  ultimately show ?case using d by blast
qed

end
