(* ===== verification/Memory_Store.thy ===== *)
theory Memory_Store
  imports Memory_Eval
begin

text \<open>
  The methods of the in-memory store (\<open>engine/store/memory\<close>), the reference implementation
  of the counter contract, and the proof that it keeps that contract. The state is the map from keys to entries; the mutex makes every method one
  atomic step, so a method is a function of the state and of the reading \<open>nowUS\<close> of the
  store's clock in Unix microseconds.
\<close>

section \<open>The methods\<close>

text \<open>
  \<open>evalAll\<close> walks the buckets and drops, on its way, an entry that expired or that another
  algorithm wrote.
\<close>

definition stale :: "entry \<Rightarrow> int \<Rightarrow> bucket \<Rightarrow> bool" where
  "stale e nowUS b \<longleftrightarrow> e_deadline e \<le> nowUS \<or> e_algorithm e \<noteq> bk_Algorithm b"

definition evalBucket :: "entry option \<Rightarrow> int \<Rightarrow> bucket \<Rightarrow> outcome result" where
  "evalBucket e nowUS b =
     (if bk_Algorithm b = GCRAID then
        (case evalGCRA e nowUS (bk_Window b) (bk_Cost b) of
           None \<Rightarrow> Inl divide_by_zero | Some r \<Rightarrow> Inr r)
      else if bk_Algorithm b = FixedWindowID then
        (case evalFixed e nowUS (bk_Window b) (bk_Cost b) of
           None \<Rightarrow> Inl divide_by_zero | Some r \<Rightarrow> Inr r)
      else Inl (Errorf ''memory: unknown algorithm id %d'' [FInt (int (bk_Algorithm b))]))"

fun evalAll :: "mem \<Rightarrow> int \<Rightarrow> bucket list \<Rightarrow> outcome list result \<times> mem" where
  "evalAll m nowUS [] = (Inr [], m)"
| "evalAll m nowUS (b # bs) =
     (let drop = (case map_of m (bk_Key b) of Some e \<Rightarrow> stale e nowUS b | None \<Rightarrow> False);
          e = (if drop then None else map_of m (bk_Key b));
          m' = (if drop then AList.delete (bk_Key b) m else m)
      in case evalBucket e nowUS b of
           Inl err \<Rightarrow> (Inl err, m')
         | Inr r \<Rightarrow>
             (case evalAll m' nowUS bs of
                (Inl err, m'') \<Rightarrow> (Inl err, m'')
              | (Inr rs, m'') \<Rightarrow> (Inr (r # rs), m'')))"

fun all_admit :: "bucket list \<Rightarrow> outcome list \<Rightarrow> bool" where
  "all_admit (b # bs) (r # rs) = ((bk_Shadow b \<or> o_allowed r) \<and> all_admit bs rs)"
| "all_admit _ _ = True"

fun commit :: "bool \<Rightarrow> mem \<Rightarrow> bucket list \<Rightarrow> outcome list \<Rightarrow> verdict list \<times> mem" where
  "commit admitted m (b # bs) (r # rs) =
     (if admitted \<and> o_allowed r then
        let (vs, m') = commit admitted (AList.update (bk_Key b) (o_next r) m) bs rs
        in (chargedVerdict r # vs, m')
      else
        let (vs, m') = commit admitted m bs rs in (currentVerdict r # vs, m'))"
| "commit admitted m _ _ = ([], m)"

definition Decide :: "mem \<Rightarrow> int \<Rightarrow> bucket list \<Rightarrow> verdict list result \<times> mem" where
  "Decide m nowUS buckets =
     (case GuardBuckets buckets of
        Some err \<Rightarrow> (Inl err, m)
      | None \<Rightarrow>
          (case evalAll m nowUS buckets of
             (Inl err, m') \<Rightarrow> (Inl err, m')
           | (Inr outs, m') \<Rightarrow>
               let (verdicts, m'') = commit (all_admit buckets outs) m' buckets outs
               in (Inr verdicts, m'')))"

definition Peek :: "mem \<Rightarrow> int \<Rightarrow> bucket list \<Rightarrow> verdict list result \<times> mem" where
  "Peek m nowUS buckets =
     (case GuardBuckets buckets of
        Some err \<Rightarrow> (Inl err, m)
      | None \<Rightarrow>
          (case evalAll m nowUS buckets of
             (Inl err, m') \<Rightarrow> (Inl err, m')
           | (Inr outs, m') \<Rightarrow> (Inr (map currentVerdict outs), m')))"

fun Reset :: "mem \<Rightarrow> string list \<Rightarrow> mem" where
  "Reset m [] = m"
| "Reset m (k # ks) = Reset (AList.delete k m) ks"

definition Scan :: "mem \<Rightarrow> int \<Rightarrow> string \<Rightarrow> string \<Rightarrow> int \<Rightarrow> (string list \<times> string) result \<times> mem" where
  "Scan m nowUS prefix cursor limit =
     (if limit < 1 then
        (Inl (Errorf ''memory: scan: limit must be at least 1, got %d'' [FInt limit]), m)
      else
        let m' = filter (\<lambda>(k, e). \<not> e_deadline e \<le> nowUS) m;
            above = sort (filter (\<lambda>k. k > cursor \<and> HasPrefix k prefix) (gm_keys m'))
        in if int (length above) \<le> limit then (Inr (above, []), m')
           else
             let keys = take (nat limit) above
             in (Inr (keys, last keys), m'))"

section \<open>The memory store keeps the counter contract\<close>

definition mem_view :: "mem \<Rightarrow> int \<Rightarrow> bucket \<Rightarrow> entry option" where
  "mem_view m t b =
     (case map_of m (bk_Key b) of
        Some e \<Rightarrow> if stale e t b then None else Some e
      | None \<Rightarrow> None)"

lemma mem_view_cong:
  "map_of m (bk_Key b) = map_of m' (bk_Key b) \<Longrightarrow> mem_view m t b = mem_view m' t b"
  by (simp add: mem_view_def)

lemma evalAll_Cons:
  "evalAll m t (b # bs) =
     (let m' = (if mem_view m t b = None then AList.delete (bk_Key b) m else m)
      in case evalBucket (mem_view m t b) t b of
           Inl err \<Rightarrow> (Inl err, m')
         | Inr r \<Rightarrow> (case evalAll m' t bs of
                       (Inl err, m'') \<Rightarrow> (Inl err, m'')
                     | (Inr rs, m'') \<Rightarrow> (Inr (r # rs), m'')))"
proof (cases "map_of m (bk_Key b)")
  case None
  then have "AList.delete (bk_Key b) m = m"
    by (simp add: delete_idem map_of_eq_None_iff)
  with None show ?thesis by (simp add: mem_view_def)
next
  case (Some e)
  then show ?thesis by (simp add: mem_view_def Let_def)
qed

declare evalAll.simps(2) [simp del]

lemma stale_mono: "stale e t b \<Longrightarrow> t \<le> t' \<Longrightarrow> stale e t' b"
  by (auto simp: stale_def)

lemma mem_view_drop:
  assumes "t \<le> t'" "bk_Key b' = bk_Key b \<longrightarrow> bk_Algorithm b' = bk_Algorithm b"
  shows "mem_view (if mem_view m t b' = None then AList.delete (bk_Key b') m else m) t' b =
    mem_view m t' b"
proof (cases "bk_Key b' = bk_Key b \<and> mem_view m t b' = None")
  case True
  with assms(2) have "map_of m (bk_Key b) = Some e \<Longrightarrow> stale e t' b" for e
    using assms(1) by (auto simp: mem_view_def stale_def split: if_splits)
  with True show ?thesis by (auto simp: mem_view_def split: option.splits)
qed (auto intro!: mem_view_cong)

lemma evalAll_view:
  "same_algorithm bs b \<Longrightarrow> t \<le> t' \<Longrightarrow> mem_view (snd (evalAll m t bs)) t' b = mem_view m t' b"
proof (induction bs arbitrary: m)
  case (Cons b' bs)
  let ?m' = "if mem_view m t b' = None then AList.delete (bk_Key b') m else m"
  have drop: "mem_view ?m' t' b = mem_view m t' b"
    using Cons.prems by (intro mem_view_drop) (auto simp: same_algorithm_def)
  have "mem_view (snd (evalAll ?m' t bs)) t' b = mem_view ?m' t' b"
    using Cons.prems by (intro Cons.IH) (auto simp: same_algorithm_def)
  with drop show ?case
    by (auto simp: evalAll_Cons Let_def split: sum.splits prod.splits)
qed simp

lemma evalAll_outs:
  assumes "distinct (map bk_Key bs)" "evalAll m t bs = (Inr rs, m')"
  shows "list_all2 (\<lambda>b r. evalBucket (mem_view m t b) t b = Inr r) bs rs"
  using assms
proof (induction bs arbitrary: m rs m')
  case (Cons b bs)
  let ?m' = "if mem_view m t b = None then AList.delete (bk_Key b) m else m"
  from Cons.prems(2) obtain r rs' where r: "evalBucket (mem_view m t b) t b = Inr r"
    and e: "evalAll ?m' t bs = (Inr rs', m')" and rs: "rs = r # rs'"
    by (auto simp: evalAll_Cons Let_def split: sum.splits prod.splits)
  have "list_all2 (\<lambda>b r. evalBucket (mem_view ?m' t b) t b = Inr r) bs rs'"
    using Cons.IH [OF _ e] Cons.prems(1) by simp
  then have "list_all2 (\<lambda>b r. evalBucket (mem_view m t b) t b = Inr r) bs rs'"
  proof (rule list_all2_mono_set)
    fix b' r'
    assume "(b', r') \<in> set (zip bs rs')" and ev: "evalBucket (mem_view ?m' t b') t b' = Inr r'"
    then have "bk_Key b' \<noteq> bk_Key b" using Cons.prems(1)
      by (fastforce simp: image_iff dest!: set_zip_leftD)
    then have "mem_view ?m' t b' = mem_view m t b'" by (intro mem_view_cong) auto
    with ev show "evalBucket (mem_view m t b') t b' = Inr r'" by simp
  qed
  with r rs show ?case by simp
qed simp

text \<open>The commit pass.\<close>

lemma commit_Cons [simp]:
  "fst (commit adm m (b # bs) (r # rs)) =
     (if adm \<and> o_allowed r then chargedVerdict r # fst (commit adm (AList.update (bk_Key b) (o_next r) m) bs rs)
      else currentVerdict r # fst (commit adm m bs rs))"
  "snd (commit adm m (b # bs) (r # rs)) =
     snd (commit adm (if adm \<and> o_allowed r then AList.update (bk_Key b) (o_next r) m else m) bs rs)"
  by (simp_all add: case_prod_beta Let_def)

declare commit.simps(1) [simp del]

lemma commit_verdicts:
  "length bs = length rs \<Longrightarrow> fst (commit adm m bs rs) =
     map (\<lambda>r. if adm \<and> o_allowed r then chargedVerdict r else currentVerdict r) rs"
  by (induction bs rs arbitrary: m rule: list_induct2) auto

lemma commit_frame:
  "length bs = length rs \<Longrightarrow>
   (\<And>b r. (b, r) \<in> set (zip bs rs) \<Longrightarrow> bk_Key b = k \<Longrightarrow> \<not> (adm \<and> o_allowed r)) \<Longrightarrow>
   map_of (snd (commit adm m bs rs)) k = map_of m k"
proof (induction bs rs arbitrary: m rule: list_induct2)
  case (Cons b bs r rs)
  then have "map_of (snd (commit adm m' bs rs)) k = map_of m' k" for m' by auto
  moreover have "\<not> (adm \<and> o_allowed r)" if "bk_Key b = k"
    using Cons.prems [of b r] that by simp
  ultimately show ?case by auto
qed simp

lemma commit_charged:
  "length bs = length rs \<Longrightarrow> distinct (map bk_Key bs) \<Longrightarrow> adm \<Longrightarrow>
   (b, r) \<in> set (zip bs rs) \<Longrightarrow> o_allowed r \<Longrightarrow>
   map_of (snd (commit adm m bs rs)) (bk_Key b) = Some (o_next r)"
proof (induction bs rs arbitrary: m rule: list_induct2)
  case (Cons b' bs r' rs)
  show ?case
  proof (cases "(b, r) = (b', r')")
    case True
    have "bk_Key c \<noteq> bk_Key b'" if "(c, q) \<in> set (zip bs rs)" for c q
      using Cons.prems(1) set_zip_leftD [OF that] by (fastforce simp: image_iff)
    then have "map_of (snd (commit adm m' bs rs)) (bk_Key b') = map_of m' (bk_Key b')" for m'
      by (intro commit_frame [OF Cons.hyps]) auto
    with True Cons.prems show ?thesis by simp
  next
    case False
    with Cons.prems Cons.IH show ?thesis by auto
  qed
qed simp

lemma v_Allowed_verdicts [simp]:
  "v_Allowed (chargedVerdict r) = True" "v_Allowed (currentVerdict r) = o_allowed r"
  by (simp_all add: chargedVerdict_def currentVerdict_def)

lemma verdict_flags:
  "map v_Allowed (map (\<lambda>r. if adm \<and> o_allowed r then chargedVerdict r else currentVerdict r) rs) =
   map o_allowed rs"
  by auto

lemma all_admit_iff:
  "length bs = length rs \<Longrightarrow>
     all_admit bs rs \<longleftrightarrow> (\<forall>(b, r) \<in> set (zip bs rs). bk_Shadow b \<or> o_allowed r)"
  by (induction bs rs rule: list_induct2) auto

text \<open>A successful call, taken apart: what every later proof about the store starts from.\<close>

lemma Decide_Inr:
  assumes "Decide m t bs = (Inr vs, m')"
  obtains rs m1 where "GuardBuckets bs = None" "evalAll m t bs = (Inr rs, m1)"
    "list_all2 (\<lambda>b r. evalBucket (mem_view m t b) t b = Inr r) bs rs" "length bs = length rs"
    "vs = map (\<lambda>r. if all_admit bs rs \<and> o_allowed r then chargedVerdict r else currentVerdict r) rs"
    "m' = snd (commit (all_admit bs rs) m1 bs rs)"
    "Admitted bs vs = Some (all_admit bs rs)"
proof -
  from assms obtain rs m1 where g: "GuardBuckets bs = None" and e: "evalAll m t bs = (Inr rs, m1)"
    and c: "commit (all_admit bs rs) m1 bs rs = (vs, m')"
    by (auto simp: Decide_def split: option.splits sum.splits prod.splits)
  from g e have l2: "list_all2 (\<lambda>b r. evalBucket (mem_view m t b) t b = Inr r) bs rs"
    by (intro evalAll_outs) (auto simp: GuardBuckets_None)
  then have len: "length bs = length rs" by (rule list_all2_lengthD)
  have vs: "vs = map (\<lambda>r. if all_admit bs rs \<and> o_allowed r then chargedVerdict r else currentVerdict r) rs"
    using commit_verdicts [OF len] c by (metis fst_conv)
  have "Admitted bs vs = Admitted bs (map currentVerdict rs)"
    unfolding vs by (rule Admitted_cong) auto
  also have "\<dots> = Some (all_admit bs rs)"
    using len by (auto simp: Admitted_Some all_admit_iff zip_map2)
  finally have adm: "Admitted bs vs = Some (all_admit bs rs)" .
  show thesis by (rule that [OF g e l2 len vs _ adm]) (simp add: c)
qed

lemma Peek_Inr:
  assumes "Peek m t bs = (Inr vs, m')"
  obtains rs where "GuardBuckets bs = None" "evalAll m t bs = (Inr rs, m')"
    "list_all2 (\<lambda>b r. evalBucket (mem_view m t b) t b = Inr r) bs rs" "length bs = length rs"
    "vs = map currentVerdict rs"
proof -
  from assms obtain rs where g: "GuardBuckets bs = None" and e: "evalAll m t bs = (Inr rs, m')"
    and v: "vs = map currentVerdict rs"
    by (auto simp: Peek_def split: option.splits sum.splits prod.splits)
  from g e have l2: "list_all2 (\<lambda>b r. evalBucket (mem_view m t b) t b = Inr r) bs rs"
    by (intro evalAll_outs) (auto simp: GuardBuckets_None)
  show thesis by (rule that [OF g e l2 list_all2_lengthD [OF l2] v])
qed

lemma Decide_uncharged:
  assumes "Decide m t bs = (Inr vs, m')"
    and "\<forall>(b', v) \<in> set (zip bs vs). bk_Key b' = bk_Key b \<longrightarrow> \<not> (v_Allowed v \<and> Admitted bs vs = Some True)"
    and "t \<le> t'" "same_algorithm bs b"
  shows "mem_view m' t' b = mem_view m t' b"
proof -
  obtain rs m1 where e: "evalAll m t bs = (Inr rs, m1)" and len: "length bs = length rs"
    and vs: "vs = map (\<lambda>r. if all_admit bs rs \<and> o_allowed r then chargedVerdict r else currentVerdict r) rs"
    and m': "m' = snd (commit (all_admit bs rs) m1 bs rs)"
    and adm: "Admitted bs vs = Some (all_admit bs rs)"
    using Decide_Inr [OF assms(1)] by blast
  have "\<not> (all_admit bs rs \<and> o_allowed r)" if "(b', r) \<in> set (zip bs rs)" "bk_Key b' = bk_Key b" for b' r
  proof -
    let ?v = "if all_admit bs rs \<and> o_allowed r then chargedVerdict r else currentVerdict r"
    have "(b', ?v) \<in> set (zip bs vs)"
      using that(1) unfolding vs by (rule zip_map_mem)
    with assms(2) that(2) adm show ?thesis by (auto split: if_splits)
  qed
  then have "map_of m' (bk_Key b) = map_of m1 (bk_Key b)"
    unfolding m' by (rule commit_frame [OF len])
  then have "mem_view m' t' b = mem_view m1 t' b" by (rule mem_view_cong)
  also have "\<dots> = mem_view m t' b"
    using evalAll_view [OF assms(4,3), of m] e by simp
  finally show ?thesis .
qed

lemma Reset_map: "map_of (Reset m ks) = (\<lambda>k. if k \<in> set ks then None else map_of m k)"
  by (induction ks arbitrary: m) auto

interpretation memory: counter_store Decide Peek Reset mem_view
proof (unfold_locales, goal_cases)
  case (1 bs e s t)
  then show ?case by (simp add: Decide_def)
next
  case (2 bs e s t)
  then show ?case by (simp add: Peek_def)
next
  case (3 s t bs vs s')
  then show ?case by (elim Decide_Inr) simp
next
  case (4 s t bs vs s')
  then show ?case by (elim Peek_Inr) simp
next
  case (5 s t bs e s' t' b)
  then show ?case
    using evalAll_view [of bs b t t' s]
    by (auto simp: Decide_def split: option.splits sum.splits prod.splits)
next
  case (6 s t bs vs s' t' b)
  then show ?case by (intro Decide_uncharged) auto
next
  case (7 s t bs vs s' b t')
  then show ?case by (intro Decide_uncharged) auto
next
  case (8 t t' bs b s)
  then show ?case
    using evalAll_view [of bs b t t' s]
    by (auto simp: Peek_def split: option.splits sum.splits prod.splits)
next
  case (9 s t bs vs s')
  then show ?case by (elim Decide_Inr) (auto simp: Peek_def)
next
  case (10 s ks t b)
  then show ?case by (simp add: mem_view_def Reset_map)
qed

section \<open>The invariant of the store\<close>

text \<open>
  An entry is well formed at time \<open>t\<close> when one of the two algorithms wrote it no later
  than \<open>t\<close>: a GCRA entry lies at most the largest depth ahead and expires with its arrival
  time, a fixed-window entry holds a count of a window that began.
\<close>

definition entry_ok :: "int \<Rightarrow> entry \<Rightarrow> bool" where
  "entry_ok t e \<longleftrightarrow>
     (e_algorithm e = GCRAID \<and> gcra_st_ok t (Some e) \<and> e_deadline e = e_tat e \<or>
      e_algorithm e = FixedWindowID \<and> fixed_st_ok t (Some e))"

definition store_ok :: "int \<Rightarrow> mem \<Rightarrow> bool" where
  "store_ok t m \<longleftrightarrow> gm_ok m \<and> (\<forall>k e. map_of m k = Some e \<longrightarrow> entry_ok t e)"

definition bucket_ok :: "bucket \<Rightarrow> bool" where
  "bucket_ok b \<longleftrightarrow> 1 \<le> bk_Cost b \<and> in64 (bk_Cost b) \<and>
     (bk_Algorithm b = GCRAID \<and> Check gcra (bk_Window b) = None \<or>
      bk_Algorithm b = FixedWindowID \<and> Check fixedWindow (bk_Window b) = None \<and>
      in64 (Requests (bk_Window b)))"

text \<open>The free units of a bucket and its capacity, by its algorithm.\<close>

definition free_of :: "bucket \<Rightarrow> entry option \<Rightarrow> int \<Rightarrow> int" where
  "free_of b e t =
     (if bk_Algorithm b = GCRAID then gcra_free e t (bk_Window b) else fixed_free e t (bk_Window b))"

definition bucket_free :: "mem \<Rightarrow> int \<Rightarrow> bucket \<Rightarrow> int" where
  "bucket_free m t b = free_of b (mem_view m t b) t"

definition bucket_capacity :: "bucket \<Rightarrow> int" where
  "bucket_capacity b =
     (if bk_Algorithm b = GCRAID then Burst (bk_Window b) else Requests (bk_Window b))"

lemma entry_ok_mono: "entry_ok t e \<Longrightarrow> t \<le> t' \<Longrightarrow> entry_ok t' e"
  by (auto simp: entry_ok_def intro: gcra_bucket.st_mono fixed_bucket.st_mono)

lemma store_ok_mono: "store_ok t m \<Longrightarrow> t \<le> t' \<Longrightarrow> store_ok t' m"
  by (auto simp: store_ok_def intro: entry_ok_mono)

lemma store_ok_New [simp]: "store_ok t New"
  by (simp add: store_ok_def New_def)

lemma store_ok_delete: "store_ok t m \<Longrightarrow> store_ok t (AList.delete k m)"
  by (auto simp: store_ok_def split: if_splits)

lemma store_ok_update: "store_ok t m \<Longrightarrow> entry_ok t e \<Longrightarrow> store_ok t (AList.update k e m)"
  by (auto simp: store_ok_def)

lemma mem_view_Some: "mem_view m t b = Some e \<longleftrightarrow> map_of m (bk_Key b) = Some e \<and> \<not> stale e t b"
  by (auto simp: mem_view_def split: option.splits)

lemma mem_view_ok:
  "store_ok t m \<Longrightarrow> mem_view m t b = Some e \<Longrightarrow>
     entry_ok t e \<and> e_algorithm e = bk_Algorithm b \<and> t < e_deadline e"
  by (auto simp: store_ok_def mem_view_Some stale_def)

lemma mem_view_gcra_ok:
  "store_ok t m \<Longrightarrow> bk_Algorithm b = GCRAID \<Longrightarrow> gcra_st_ok t (mem_view m t b)"
  using mem_view_ok [of t m b]
  by (cases "mem_view m t b") (auto simp: entry_ok_def gcra_bucket.st_fresh)

lemma mem_view_fixed_ok:
  "store_ok t m \<Longrightarrow> bk_Algorithm b = FixedWindowID \<Longrightarrow> fixed_st_ok t (mem_view m t b)"
  using mem_view_ok [of t m b]
  by (cases "mem_view m t b") (auto simp: entry_ok_def fixed_bucket.st_fresh)

text \<open>What judging one bucket of a well-formed store yields, for either algorithm.\<close>

definition judged :: "bucket \<Rightarrow> entry option \<Rightarrow> int \<Rightarrow> outcome \<Rightarrow> bool" where
  "judged b e t r \<longleftrightarrow>
     o_remainCurrent r = free_of b e t \<and>
     (o_allowed r \<longleftrightarrow> bk_Cost b \<le> free_of b e t) \<and>
     (o_costExceeds r \<longleftrightarrow> bucket_capacity b < bk_Cost b) \<and>
     (o_retryAfter r = -1 \<longleftrightarrow> o_allowed r \<or> o_costExceeds r) \<and>
     0 \<le> free_of b e t \<and> free_of b e t \<le> bucket_capacity b \<and>
     (o_allowed r \<longrightarrow> o_remainCharged r = free_of b e t - bk_Cost b \<and> entry_ok t (o_next r) \<and>
        \<not> stale (o_next r) t b \<and> free_of b (Some (o_next r)) t = free_of b e t - bk_Cost b)"

lemma evalBucket_judged:
  assumes b: "bucket_ok b" and t: "clock_ok t" and m: "store_ok t m"
  shows "\<exists>r. evalBucket (mem_view m t b) t b = Inr r \<and> judged b (mem_view m t b) t r"
proof (cases "bk_Algorithm b = GCRAID")
  case True
  define e where "e = mem_view m t b"
  have w: "gcra_ok (bk_Window b)" and cost: "1 \<le> bk_Cost b" "in64 (bk_Cost b)"
    using b True by (auto simp: bucket_ok_def Check_gcra_iff)
  have e: "gcra_st_ok t e" using mem_view_gcra_ok [OF m True] by (simp add: e_def)
  obtain r where r: "evalGCRA e t (bk_Window b) (bk_Cost b) = Some r"
    and j: "o_remainCurrent r = gcra_free e t (bk_Window b)"
      "o_allowed r \<longleftrightarrow> bk_Cost b \<le> gcra_free e t (bk_Window b)"
      "o_costExceeds r \<longleftrightarrow> Burst (bk_Window b) < bk_Cost b"
      "o_retryAfter r = -1 \<longleftrightarrow> o_allowed r \<or> o_costExceeds r"
    using gcra_bucket.judge [OF w t e cost] by blast
  have next_ok: "entry_ok t (o_next r)" "\<not> stale (o_next r) t b" if "o_allowed r"
  proof -
    have "\<not> Burst (bk_Window b) < bk_Cost b"
      using that r by (auto simp: evalGCRA_eq [OF w t e cost(1)] gcra_outcome_def)
    then have n: "e_algorithm (o_next r) = GCRAID" "e_deadline (o_next r) = e_tat (o_next r)"
      "e_tat (o_next r) = t + gcra_depth t e + emission (bk_Window b) * bk_Cost b"
      using r by (auto simp: evalGCRA_eq [OF w t e cost(1)] gcra_outcome_def Let_def)
    have "1 * 1 \<le> emission (bk_Window b) * bk_Cost b"
      using gcra_ok_numbers(3) [OF w] cost by (intro mult_mono) auto
    with n gcra_bucket.charge [OF w t e cost r that] gcra_depth_bounds [OF e] True
    show "entry_ok t (o_next r)" "\<not> stale (o_next r) t b" by (auto simp: entry_ok_def stale_def)
  qed
  from True r j next_ok gcra_bucket.charge [OF w t e cost r] gcra_bucket.free_range [OF w t e]
  show ?thesis unfolding e_def [symmetric]
    by (auto simp: evalBucket_def judged_def free_of_def bucket_capacity_def)
next
  case False
  define e where "e = mem_view m t b"
  have F: "bk_Algorithm b = FixedWindowID" and w: "fixed_ok (bk_Window b)"
    and cost: "1 \<le> bk_Cost b" "in64 (bk_Cost b)"
    using b False by (auto simp: bucket_ok_def Check_fixedWindow_iff fixed_ok_def)
  have e: "fixed_st_ok t e" using mem_view_fixed_ok [OF m F] by (simp add: e_def)
  obtain r where r: "evalFixed e t (bk_Window b) (bk_Cost b) = Some r"
    and j: "o_remainCurrent r = fixed_free e t (bk_Window b)"
      "o_allowed r \<longleftrightarrow> bk_Cost b \<le> fixed_free e t (bk_Window b)"
      "o_costExceeds r \<longleftrightarrow> Requests (bk_Window b) < bk_Cost b"
      "o_retryAfter r = -1 \<longleftrightarrow> o_allowed r \<or> o_costExceeds r"
    using fixed_bucket.judge [OF w t e cost] by blast
  have c: "common_ok (bk_Window b)" using w by (simp add: fixed_ok_def)
  have n: "e_algorithm (o_next r) = FixedWindowID" "t < e_deadline (o_next r)"
    using r fixed_start_bounds(3) [OF c t]
    by (auto simp: evalFixed_eq [OF w t e cost] fixed_outcome_def Let_def)
  from F False r j n fixed_bucket.charge [OF w t e cost r] fixed_bucket.free_range [OF w t e]
  show ?thesis unfolding e_def [symmetric]
    by (auto simp: evalBucket_def judged_def free_of_def bucket_capacity_def entry_ok_def stale_def)
qed

lemma evalAll_store_ok: "store_ok t m \<Longrightarrow> store_ok t (snd (evalAll m t' bs))"
proof (induction bs arbitrary: m)
  case (Cons b bs)
  let ?m' = "if mem_view m t' b = None then AList.delete (bk_Key b) m else m"
  have "store_ok t ?m'" using Cons.prems by (simp add: store_ok_delete)
  with Cons.IH [OF this] show ?case
    by (auto simp: evalAll_Cons Let_def split: sum.splits prod.splits)
qed simp

lemma evalAll_total:
  assumes "\<forall>b \<in> set bs. bucket_ok b" "clock_ok t" "store_ok t m"
  shows "\<exists>rs m'. evalAll m t bs = (Inr rs, m')"
  using assms
proof (induction bs arbitrary: m)
  case (Cons b bs)
  let ?m' = "if mem_view m t b = None then AList.delete (bk_Key b) m else m"
  have "store_ok t ?m'" using Cons.prems by (simp add: store_ok_delete)
  with Cons.IH [of ?m'] Cons.prems obtain rs m' where "evalAll ?m' t bs = (Inr rs, m')" by auto
  moreover obtain r where "evalBucket (mem_view m t b) t b = Inr r"
    using evalBucket_judged [of b t m] Cons.prems by auto
  ultimately show ?case by (auto simp: evalAll_Cons Let_def)
qed simp

lemma bucket_ok_guard:
  assumes "\<forall>b \<in> set bs. bucket_ok b" "distinct (map bk_Key bs)"
  shows "GuardBuckets bs = None"
proof -
  have "1 \<le> bk_Cost b \<and> 1 \<le> Requests (bk_Window b) \<and> Microsecond \<le> Period (bk_Window b)"
    if "bucket_ok b" for b
    using that Check_common_ok [of gcra "bk_Window b"] Check_common_ok [of fixedWindow "bk_Window b"]
    by (auto simp: bucket_ok_def common_ok_def algo_consts)
  with assms show ?thesis by (auto simp: GuardBuckets_None)
qed

lemma commit_store_ok:
  assumes "list_all2 (\<lambda>b r. o_allowed r \<longrightarrow> entry_ok t (o_next r)) bs rs" "store_ok t m"
  shows "store_ok t (snd (commit adm m bs rs))"
  using assms by (induction bs rs arbitrary: m rule: list_all2_induct) (auto simp: store_ok_update)

text \<open>One successful decision, bucket by bucket.\<close>

lemma Decide_judged:
  assumes "Decide m t bs = (Inr vs, m')" "\<forall>b \<in> set bs. bucket_ok b" "clock_ok t" "store_ok t m"
  obtains rs where "list_all2 (\<lambda>b r. judged b (mem_view m t b) t r) bs rs"
    "distinct (map bk_Key bs)" "length bs = length rs"
    "vs = map (\<lambda>r. if all_admit bs rs \<and> o_allowed r then chargedVerdict r else currentVerdict r) rs"
    "Admitted bs vs = Some (all_admit bs rs)" "store_ok t m'"
    "\<And>b r. (b, r) \<in> set (zip bs rs) \<Longrightarrow> all_admit bs rs \<Longrightarrow> o_allowed r \<Longrightarrow>
       mem_view m' t b = Some (o_next r)"
proof -
  obtain rs m1 where g: "GuardBuckets bs = None" and e: "evalAll m t bs = (Inr rs, m1)"
    and l2: "list_all2 (\<lambda>b r. evalBucket (mem_view m t b) t b = Inr r) bs rs"
    and len: "length bs = length rs"
    and vs: "vs = map (\<lambda>r. if all_admit bs rs \<and> o_allowed r then chargedVerdict r else currentVerdict r) rs"
    and m': "m' = snd (commit (all_admit bs rs) m1 bs rs)"
    and adm: "Admitted bs vs = Some (all_admit bs rs)"
    using Decide_Inr [OF assms(1)] by blast
  have j: "list_all2 (\<lambda>b r. judged b (mem_view m t b) t r) bs rs"
  proof (rule list_all2_mono_set [OF l2])
    fix b r
    assume "(b, r) \<in> set (zip bs rs)" and r: "evalBucket (mem_view m t b) t b = Inr r"
    then have "bucket_ok b" using assms(2) by (auto dest: set_zip_leftD)
    with r evalBucket_judged [OF _ assms(3,4)] show "judged b (mem_view m t b) t r" by fastforce
  qed
  have d: "distinct (map bk_Key bs)" using g by (simp add: GuardBuckets_None)
  have ok1: "store_ok t m1" using evalAll_store_ok [OF assms(4), of t bs] e by simp
  have "list_all2 (\<lambda>b r. o_allowed r \<longrightarrow> entry_ok t (o_next r)) bs rs"
    using j by (rule list_all2_mono) (auto simp: judged_def)
  then have ok': "store_ok t m'" unfolding m' using ok1 by (rule commit_store_ok)
  have charged: "mem_view m' t b = Some (o_next r)"
    if "(b, r) \<in> set (zip bs rs)" "all_admit bs rs" "o_allowed r" for b r
  proof -
    have "map_of m' (bk_Key b) = Some (o_next r)"
      unfolding m' using that by (intro commit_charged [OF len d])
    moreover have "\<not> stale (o_next r) t b"
      using j that by (auto simp: list_all2_iff judged_def)
    ultimately show ?thesis by (simp add: mem_view_Some)
  qed
  show thesis by (rule that [OF j d len vs adm ok' charged])
qed

lemma Decide_free_after:
  assumes D: "Decide m t bs = (Inr vs, m')" and i: "i < length bs"
    and d: "distinct (map bk_Key bs)" and len: "length bs = length rs"
    and vs: "vs = map (\<lambda>r. if all_admit bs rs \<and> o_allowed r then chargedVerdict r else currentVerdict r) rs"
    and adm: "Admitted bs vs = Some (all_admit bs rs)"
    and charged: "\<And>b r. (b, r) \<in> set (zip bs rs) \<Longrightarrow> all_admit bs rs \<Longrightarrow> o_allowed r \<Longrightarrow>
       mem_view m' t b = Some (o_next r)"
    and j: "judged (bs ! i) (mem_view m t (bs ! i)) t (rs ! i)"
  shows "bucket_free m' t (bs ! i) = (if all_admit bs rs \<and> o_allowed (rs ! i)
      then o_remainCharged (rs ! i) else o_remainCurrent (rs ! i))"
proof (cases "all_admit bs rs \<and> o_allowed (rs ! i)")
  case True
  have "(bs ! i, rs ! i) \<in> set (zip bs rs)" using i len by (auto simp: set_zip)
  with True charged j show ?thesis by (simp add: bucket_free_def judged_def)
next
  case False
  have "\<forall>(b', v) \<in> set (zip bs vs). bk_Key b' = bk_Key (bs ! i) \<longrightarrow>
      \<not> (v_Allowed v \<and> Admitted bs vs = Some True)"
  proof (clarify)
    fix b' v
    assume "(b', v) \<in> set (zip bs vs)" "bk_Key b' = bk_Key (bs ! i)"
      and v: "v_Allowed v" "Admitted bs vs = Some True"
    then obtain k where k: "k < length bs" "b' = bs ! k" "v = vs ! k" "bk_Key (bs ! k) = bk_Key (bs ! i)"
      using len by (auto simp: set_zip vs)
    then have "k = i" using d i by (simp add: distinct_conv_nth) (metis nth_map)
    moreover have "all_admit bs rs" using v(2) adm by simp
    ultimately show False using k v(1) False len by (auto simp: vs)
  qed
  moreover have "same_algorithm bs (bs ! i)"
    using i by (intro distinct_same_algorithm [OF d]) simp
  ultimately have "mem_view m' t (bs ! i) = mem_view m t (bs ! i)"
    by (intro Decide_uncharged [OF D]) simp_all
  with False j show ?thesis by (auto simp: bucket_free_def judged_def)
qed

section \<open>Waiting\<close>

lemma free_of_range:
  assumes "bucket_ok b" "clock_ok t" "store_ok t m"
  shows "0 \<le> bucket_free m t b" "bucket_free m t b \<le> bucket_capacity b"
  using evalBucket_judged [OF assms] by (auto simp: judged_def bucket_free_def)

lemma free_of_fresh:
  "bucket_ok b \<Longrightarrow> clock_ok t \<Longrightarrow> free_of b None t = bucket_capacity b"
  by (auto simp: bucket_ok_def free_of_def bucket_capacity_def gcra_bucket.free_fresh
      fixed_bucket.free_fresh Check_gcra_iff Check_fixedWindow_iff fixed_ok_def algo_consts)

lemma evalBucket_retry:
  assumes b: "bucket_ok b" and t: "clock_ok t" and m: "store_ok t m"
    and r: "evalBucket (mem_view m t b) t b = Inr r" "\<not> o_allowed r" "\<not> o_costExceeds r"
  shows "\<exists>d > 0. o_retryAfter r = d * 1000 \<and> bk_Cost b \<le> free_of b (mem_view m t b) (t + d) \<and>
     (\<forall>t'. t \<le> t' \<and> t' < t + d \<longrightarrow> free_of b (mem_view m t b) t' < bk_Cost b)"
proof (cases "bk_Algorithm b = GCRAID")
  case True
  have w: "gcra_ok (bk_Window b)" and cost: "1 \<le> bk_Cost b" "in64 (bk_Cost b)"
    using b True by (auto simp: bucket_ok_def Check_gcra_iff)
  show ?thesis
    using gcra_bucket.retry [OF w t mem_view_gcra_ok [OF m True] cost] r True
    by (auto simp: evalBucket_def free_of_def split: option.splits)
next
  case False
  have F: "bk_Algorithm b = FixedWindowID" and w: "fixed_ok (bk_Window b)"
    and cost: "1 \<le> bk_Cost b" "in64 (bk_Cost b)"
    using b False by (auto simp: bucket_ok_def Check_fixedWindow_iff fixed_ok_def)
  show ?thesis
    using fixed_bucket.retry [OF w t mem_view_fixed_ok [OF m F] cost] r False F
    by (auto simp: evalBucket_def free_of_def split: option.splits)
qed

lemma mem_view_later: "t \<le> u \<Longrightarrow> mem_view m u b = mem_view m t b \<or> mem_view m u b = None"
  by (auto simp: mem_view_def stale_def split: option.splits)

lemma Decide_denied_verdict:
  assumes D: "Decide m t bs = (Inr vs, m')" and i: "i < length bs" "\<not> v_Allowed (vs ! i)"
  shows "\<exists>r. evalBucket (mem_view m t (bs ! i)) t (bs ! i) = Inr r \<and>
     \<not> o_allowed r \<and> v_RetryAfter (vs ! i) = o_retryAfter r \<and>
     v_CostExceedsCapacity (vs ! i) = o_costExceeds r"
proof -
  obtain rs where "list_all2 (\<lambda>b r. evalBucket (mem_view m t b) t b = Inr r) bs rs"
    and "length bs = length rs"
    and "vs = map (\<lambda>r. if all_admit bs rs \<and> o_allowed r then chargedVerdict r else currentVerdict r) rs"
    using Decide_Inr [OF D] by blast
  then show ?thesis
    using i by (auto simp: list_all2_conv_all_nth chargedVerdict_def currentVerdict_def split: if_splits)
qed

lemma Decide_denied_view:
  assumes D: "Decide m t bs = (Inr vs, m')" and i: "i < length bs" "\<not> v_Allowed (vs ! i)" and u: "t \<le> u"
  shows "mem_view m' u (bs ! i) = mem_view m u (bs ! i)"
proof -
  have d: "distinct (map bk_Key bs)" using Decide_Inr [OF D] by (auto simp: GuardBuckets_None)
  have "v = vs ! i" if "(b, v) \<in> set (zip bs vs)" "bk_Key b = bk_Key (bs ! i)" for b v
    using that d i(1) by (auto simp: in_set_zip distinct_conv_nth)
  then show ?thesis
    using i u distinct_same_algorithm [OF d] by (intro Decide_uncharged [OF D]) auto
qed

section \<open>Sample buckets\<close>

definition sample_minute :: bucket where
  "sample_minute = \<lparr>bk_Key = ''rl:v1:{ns/gw}:b/r:gcra:60:'', bk_Algorithm = GCRAID,
     bk_Window = \<lparr>Requests = 7, Period = 60000000000, Burst = 3\<rparr>, bk_Shadow = False, bk_Cost = 2\<rparr>"

definition sample_day :: bucket where
  "sample_day = \<lparr>bk_Key = ''rl:v1:{ns/gw}:b/r:fixedwindow:86400:'', bk_Algorithm = FixedWindowID,
     bk_Window = \<lparr>Requests = 5, Period = 86400000000000, Burst = 0\<rparr>, bk_Shadow = False, bk_Cost = 2\<rparr>"

definition sample_time :: int where "sample_time = 1700000000000000"

lemma sample_buckets_ok: "bucket_ok sample_minute" "bucket_ok sample_day"
  by (simp_all add: bucket_ok_def sample_minute_def sample_day_def Check_gcra_iff
      Check_fixedWindow_iff gcra_ok_def common_ok_def tau_def emission_def algo_consts in64_def)

lemma sample_clock_ok: "clock_ok sample_time"
  by (simp add: clock_ok_def sample_time_def)

lemma sample_distinct: "bk_Key sample_minute \<noteq> bk_Key sample_day"
  by (simp add: sample_minute_def sample_day_def)

section \<open>Properties\<close>

lemma Decide_succeeds:
  assumes "store_ok t m" "clock_ok t" "\<forall>b \<in> set bs. bucket_ok b" "distinct (map bk_Key bs)"
  shows "\<exists>vs m'. Decide m t bs = (Inr vs, m') \<and> length vs = length bs \<and> store_ok t m'"
proof -
  obtain rs m1 where "evalAll m t bs = (Inr rs, m1)"
    using evalAll_total [OF assms(3,2,1)] by blast
  then obtain vs m' where D: "Decide m t bs = (Inr vs, m')"
    using bucket_ok_guard [OF assms(3,4)]
    by (cases "commit (all_admit bs rs) m1 bs rs") (auto simp: Decide_def)
  moreover have "store_ok t m'" using Decide_judged [OF D assms(3,2,1)] by blast
  ultimately show ?thesis using memory.decide_length [OF D] by blast
qed

text \<open>
  On a well-formed store, with buckets the compiler can produce, a decision always
  succeeds: no guard fires, no division by zero is reached, and the store stays well
  formed.
\<close>

theorem Decide_total:
  assumes "store_ok t m" "clock_ok t" "\<forall>b \<in> set bs. bucket_ok b" "distinct (map bk_Key bs)"
  shows "\<exists>vs m'. Decide m t bs = (Inr vs, m') \<and> length vs = length bs \<and> store_ok t m'"
  using Decide_succeeds [OF assms] .

theorem Decide_total_witness:
  "\<exists>vs m'. Decide New sample_time [sample_minute, sample_day] = (Inr vs, m') \<and> length vs = 2"
  using Decide_total [of sample_time New "[sample_minute, sample_day]"]
    sample_buckets_ok sample_clock_ok sample_distinct
  by auto

lemma Decide_judgement:
  assumes "store_ok t m" "clock_ok t" "\<forall>b \<in> set bs. bucket_ok b" "Decide m t bs = (Inr vs, m')"
  shows "Admitted bs vs = Some (\<forall>b \<in> set bs. bk_Shadow b \<or> bk_Cost b \<le> bucket_free m t b) \<and>
    (\<forall>i < length bs. let b = bs ! i; v = vs ! i; fits = (bk_Cost b \<le> bucket_free m t b);
         charged = (fits \<and> Admitted bs vs = Some True) in
       v_Allowed v = fits \<and>
       (v_CostExceedsCapacity v \<longleftrightarrow> bucket_capacity b < bk_Cost b) \<and>
       v_Remaining v = bucket_free m t b - (if charged then bk_Cost b else 0) \<and>
       bucket_free m' t b = v_Remaining v \<and>
       0 \<le> v_Remaining v \<and> v_Remaining v \<le> bucket_capacity b)"
proof -
  obtain rs where j: "list_all2 (\<lambda>b r. judged b (mem_view m t b) t r) bs rs"
    and d: "distinct (map bk_Key bs)" and len: "length bs = length rs"
    and vs: "vs = map (\<lambda>r. if all_admit bs rs \<and> o_allowed r then chargedVerdict r else currentVerdict r) rs"
    and adm: "Admitted bs vs = Some (all_admit bs rs)"
    and charged: "\<And>b r. (b, r) \<in> set (zip bs rs) \<Longrightarrow> all_admit bs rs \<Longrightarrow> o_allowed r \<Longrightarrow>
       mem_view m' t b = Some (o_next r)"
    using Decide_judged [OF assms(4,3,2,1)] by blast
  have ji: "judged (bs ! i) (mem_view m t (bs ! i)) t (rs ! i)" if "i < length bs" for i
    using j that by (simp add: list_all2_conv_all_nth)
  have fits: "o_allowed (rs ! i) \<longleftrightarrow> bk_Cost (bs ! i) \<le> bucket_free m t (bs ! i)" if "i < length bs" for i
    using ji [OF that] by (simp add: judged_def bucket_free_def)
  have "all_admit bs rs \<longleftrightarrow> (\<forall>b \<in> set bs. bk_Shadow b \<or> bk_Cost b \<le> bucket_free m t b)"
    using fits len by (auto simp: all_admit_iff set_zip all_set_conv_all_nth)
  with adm have part1: "Admitted bs vs = Some (\<forall>b \<in> set bs. bk_Shadow b \<or> bk_Cost b \<le> bucket_free m t b)"
    by simp
  note free' = Decide_free_after [OF assms(4) _ d len vs adm charged ji]
  have "let b = bs ! i; v = vs ! i; fits = (bk_Cost b \<le> bucket_free m t b);
         charged = (fits \<and> Admitted bs vs = Some True) in
       v_Allowed v = fits \<and>
       (v_CostExceedsCapacity v \<longleftrightarrow> bucket_capacity b < bk_Cost b) \<and>
       v_Remaining v = bucket_free m t b - (if charged then bk_Cost b else 0) \<and>
       bucket_free m' t b = v_Remaining v \<and>
       0 \<le> v_Remaining v \<and> v_Remaining v \<le> bucket_capacity b" if i: "i < length bs" for i
  proof -
    define r where "r = rs ! i"
    define b where "b = bs ! i"
    have r: "judged b (mem_view m t b) t r" and al: "o_allowed r \<longleftrightarrow> bk_Cost b \<le> bucket_free m t b"
      and v: "vs ! i = (if all_admit bs rs \<and> o_allowed r then chargedVerdict r else currentVerdict r)"
      and free: "bucket_free m' t b =
        (if all_admit bs rs \<and> o_allowed r then o_remainCharged r else o_remainCurrent r)"
      using ji [OF i] fits [OF i] free' [OF i] i len by (simp_all add: r_def b_def vs)
    have "1 \<le> bk_Cost b" using assms(3) i by (simp add: b_def bucket_ok_def)
    with r show ?thesis
      unfolding b_def [symmetric] Let_def v free adm al [symmetric]
      by (cases "all_admit bs rs"; cases "o_allowed r")
        (simp_all add: judged_def bucket_free_def chargedVerdict_def currentVerdict_def)
  qed
  with part1 show ?thesis by blast
qed

text \<open>
  C7. What a decision does. The request is admitted exactly when its cost fits the free units
  of every enforcing bucket. Every verdict reports whether the cost of its own bucket
  fits, whether it could ever fit, and the units left. An admitted request charges each
  bucket whose own verdict allows, by exactly its cost; a refused one charges nothing.
\<close>

theorem Decide_all_or_nothing:
  assumes "store_ok t m" "clock_ok t" "\<forall>b \<in> set bs. bucket_ok b" "Decide m t bs = (Inr vs, m')"
  shows "Admitted bs vs = Some (\<forall>b \<in> set bs. bk_Shadow b \<or> bk_Cost b \<le> bucket_free m t b) \<and>
    (\<forall>i < length bs. let b = bs ! i; v = vs ! i; fits = (bk_Cost b \<le> bucket_free m t b);
         charged = (fits \<and> Admitted bs vs = Some True) in
       v_Allowed v = fits \<and>
       (v_CostExceedsCapacity v \<longleftrightarrow> bucket_capacity b < bk_Cost b) \<and>
       v_Remaining v = bucket_free m t b - (if charged then bk_Cost b else 0) \<and>
       bucket_free m' t b = v_Remaining v \<and>
       0 \<le> v_Remaining v \<and> v_Remaining v \<le> bucket_capacity b)"
  using Decide_judgement [OF assms] .

theorem Decide_all_or_nothing_witness:
  "\<exists>vs m'. Decide New sample_time [sample_minute, sample_day\<lparr>bk_Cost := 6\<rparr>] = (Inr vs, m') \<and>
     Admitted [sample_minute, sample_day\<lparr>bk_Cost := 6\<rparr>] vs = Some False \<and>
     bucket_free m' sample_time sample_minute = 3"
proof -
  let ?day = "sample_day\<lparr>bk_Cost := 6\<rparr>"
  have ok: "\<forall>b \<in> set [sample_minute, ?day]. bucket_ok b"
    using sample_buckets_ok by (simp add: bucket_ok_def sample_day_def in64_def)
  have d: "distinct (map bk_Key [sample_minute, ?day])" using sample_distinct by simp
  obtain vs m' where D: "Decide New sample_time [sample_minute, ?day] = (Inr vs, m')"
    using Decide_succeeds [OF store_ok_New sample_clock_ok ok d] by blast
  have free: "bucket_free New sample_time sample_minute = 3" "bucket_free New sample_time ?day = 5"
    by (simp_all add: bucket_free_def free_of_def mem_view_def New_def sample_minute_def sample_day_def
        gcra_free_def gcra_depth_def fixed_free_def fixed_count_def tau_def emission_def algo_consts)
  note A = Decide_all_or_nothing [OF store_ok_New sample_clock_ok ok D]
  have "Admitted [sample_minute, ?day] vs = Some False"
    using A free by (simp add: sample_day_def)
  with A [THEN conjunct2, rule_format, of 0] free D show ?thesis by (auto simp: Let_def)
qed

text \<open>
  C25. The retry hint of a refused bucket is honest. A refusal that is not hopeless names a
  positive wait; a client that waits that long finds room for its cost, provided nobody
  else spent it; and while the counter is alive, any earlier attempt is refused.
\<close>

theorem retry_after_honest:
  assumes "store_ok t m" "clock_ok t" "\<forall>b \<in> set bs. bucket_ok b" "Decide m t bs = (Inr vs, m')"
    and "i < length bs" "\<not> v_Allowed (vs ! i)" "\<not> v_CostExceedsCapacity (vs ! i)"
    and "clock_ok (t + v_RetryAfter (vs ! i) div 1000)"
  shows "0 < v_RetryAfter (vs ! i) \<and>
    bk_Cost (bs ! i) \<le> bucket_free m' (t + v_RetryAfter (vs ! i) div 1000) (bs ! i) \<and>
    (\<forall>t'. t \<le> t' \<and> t' < t + v_RetryAfter (vs ! i) div 1000 \<and> mem_view m' t' (bs ! i) \<noteq> None \<longrightarrow>
       bucket_free m' t' (bs ! i) < bk_Cost (bs ! i))"
proof -
  let ?b = "bs ! i"
  have b: "bucket_ok ?b" using assms(3,5) by simp
  obtain r where r: "evalBucket (mem_view m t ?b) t ?b = Inr r" "\<not> o_allowed r" "\<not> o_costExceeds r"
    "v_RetryAfter (vs ! i) = o_retryAfter r"
    using Decide_denied_verdict [OF assms(4,5,6)] assms(7) by auto
  obtain d where d: "d > 0" "o_retryAfter r = d * 1000" "bk_Cost ?b \<le> free_of ?b (mem_view m t ?b) (t + d)"
    and early: "\<forall>t'. t \<le> t' \<and> t' < t + d \<longrightarrow> free_of ?b (mem_view m t ?b) t' < bk_Cost ?b"
    using evalBucket_retry [OF b assms(2,1) r(1-3)] by blast
  have "bk_Cost ?b \<le> bucket_capacity ?b"
    using r(1,3) evalBucket_judged [OF b assms(2,1)] by (auto simp: judged_def)
  then have "bk_Cost ?b \<le> bucket_free m' (t + d) ?b"
    using Decide_denied_view [OF assms(4-6), of "t + d"] mem_view_later [of t "t + d" m ?b] d assms(8) r(4)
      free_of_fresh [OF b, of "t + d"] by (auto simp: bucket_free_def)
  moreover have "bucket_free m' t' ?b < bk_Cost ?b"
    if "t \<le> t'" "t' < t + d" "mem_view m' t' ?b \<noteq> None" for t'
    using Decide_denied_view [OF assms(4-6) that(1)] mem_view_later [OF that(1), of m ?b] that early
    by (auto simp: bucket_free_def)
  ultimately show ?thesis using d r(4) by auto
qed

theorem retry_after_honest_witness:
  "let b = sample_day\<lparr>bk_Cost := 5\<rparr>; m = snd (Decide New sample_time [sample_day]) in
   \<exists>v m'. Decide m sample_time [b] = (Inr [v], m') \<and> v_RetryAfter v = 6400000000000 \<and>
     5 \<le> bucket_free m' (sample_time + 6400000000) b"
proof -
  let ?b = "sample_day\<lparr>bk_Cost := 5\<rparr>" and ?m = "snd (Decide New sample_time [sample_day])"
  have ok: "\<forall>b \<in> set [?b]. bucket_ok b" "\<forall>b \<in> set [sample_day]. bucket_ok b"
    using sample_buckets_ok by (simp_all add: bucket_ok_def sample_day_def in64_def)
  have m: "store_ok sample_time ?m"
    using Decide_succeeds [OF store_ok_New sample_clock_ok ok(2)] by fastforce
  obtain v m' where D: "Decide ?m sample_time [?b] = (Inr [v], m')" and v: "\<not> v_Allowed v"
    "\<not> v_CostExceedsCapacity v" "v_RetryAfter v = 6400000000000"
  proof (rule that)
    show "Decide ?m sample_time [?b] = (Inr [\<lparr>v_Allowed = False, v_Remaining = 3,
        v_CostExceedsCapacity = False, v_RetryAfter = 6400000000000, v_ResetAfter = 6400000000000\<rparr>], ?m)"
      by code_simp
  qed simp_all
  have "clock_ok (sample_time + v_RetryAfter ([v] ! 0) div 1000)"
    by (simp add: v clock_ok_def sample_time_def)
  with retry_after_honest [OF m sample_clock_ok ok(1) D, of 0] v D show ?thesis
    by (simp add: Let_def)
qed

end
