(* ===== verification/Memory_Scan.thy ===== *)
theory Memory_Scan
  imports Memory_Store
begin

text \<open>
  Walking the in-memory store with \<open>Scan\<close>: a client that follows the returned cursor until
  it is empty sees every live key under the prefix once, in key order, and the walk ends.
\<close>

section \<open>The walk\<close>

definition live_keys :: "mem \<Rightarrow> int \<Rightarrow> string \<Rightarrow> string \<Rightarrow> string list" where
  "live_keys m t prefix cursor =
     sort (filter (\<lambda>k. cursor < k \<and> HasPrefix k prefix) (gm_keys (filter (\<lambda>(k, e). \<not> e_deadline e \<le> t) m)))"

text \<open>Pages of a walk; \<open>None\<close> when a step fails or \<open>fuel\<close> steps do not finish it.\<close>

fun scan_walk :: "nat \<Rightarrow> mem \<Rightarrow> int \<Rightarrow> string \<Rightarrow> string \<Rightarrow> int \<Rightarrow> string list list option" where
  "scan_walk 0 m t prefix cursor limit = None"
| "scan_walk (Suc fuel) m t prefix cursor limit =
     (case Scan m t prefix cursor limit of
        (Inl _, _) \<Rightarrow> None
      | (Inr (ks, next), m') \<Rightarrow>
          if next = [] then Some [ks]
          else map_option ((#) ks) (scan_walk fuel m' t prefix next limit))"

section \<open>Sorted key lists\<close>

lemma sorted_above_nth:
  assumes "sorted (xs :: string list)" "distinct xs" "0 < n" "n \<le> length xs"
  shows "filter (\<lambda>k. xs ! (n - 1) < k) xs = drop n xs"
proof -
  have st: "sorted_wrt (<) xs" using assms(1,2) by (simp add: strict_sorted_iff)
  have "filter (\<lambda>k. xs ! (n - 1) < k) (take n xs) = []"
  proof (unfold filter_empty_conv, intro ballI)
    fix k assume "k \<in> set (take n xs)"
    then obtain j where j: "j < n" "k = xs ! j" using assms(4) by (auto simp: in_set_conv_nth)
    then have "xs ! j \<le> xs ! (n - 1)" using assms by (intro sorted_nth_mono) auto
    with j show "\<not> xs ! (n - 1) < k" by auto
  qed
  moreover have "filter (\<lambda>k. xs ! (n - 1) < k) (drop n xs) = drop n xs"
  proof (unfold filter_id_conv, intro ballI)
    fix k assume "k \<in> set (drop n xs)"
    then obtain j where "j < length xs - n" "k = xs ! (n + j)" by (auto simp: in_set_conv_nth)
    with st assms(3) show "xs ! (n - 1) < k" by (auto simp: sorted_wrt_iff_nth_less)
  qed
  ultimately show ?thesis
    by (metis append_self_conv2 append_take_drop_id filter_append)
qed

lemma live_keys_distinct: "gm_ok m \<Longrightarrow> distinct (live_keys m t p c)"
  using gm_ok_filter [of m "\<lambda>(k, e). \<not> e_deadline e \<le> t"] by (simp add: live_keys_def gm_ok_def)

lemma live_keys_later:
  assumes "c \<le> c'"
  shows "live_keys m t p c' = filter (\<lambda>k. c' < k) (live_keys m t p c)"
  using assms by (auto simp: live_keys_def filter_sort intro!: arg_cong [where f = sort] filter_cong)

lemma live_keys_swept: "live_keys (filter (\<lambda>(k, e). \<not> e_deadline e \<le> t) m) t p c = live_keys m t p c"
  by (simp add: live_keys_def)

lemma live_keys_above: "k \<in> set (live_keys m t p c) \<Longrightarrow> c < k"
  by (simp add: live_keys_def)

lemma Scan_pages:
  "1 \<le> limit \<Longrightarrow> Scan m t p c limit =
     (Inr (if int (length (live_keys m t p c)) \<le> limit then (live_keys m t p c, [])
           else (take (nat limit) (live_keys m t p c), last (take (nat limit) (live_keys m t p c)))),
      filter (\<lambda>(k, e). \<not> e_deadline e \<le> t) m)"
  unfolding Scan_def live_keys_def by (simp only: Let_def) simp

lemma Scan_last_page:
  assumes "1 \<le> limit" "int (length (live_keys m t p c)) \<le> limit"
  shows "Scan m t p c limit = (Inr (live_keys m t p c, []), filter (\<lambda>(k, e). \<not> e_deadline e \<le> t) m)"
  using assms by (simp add: Scan_pages)

lemma Scan_page:
  assumes "1 \<le> limit" "limit < int (length (live_keys m t p c))"
  shows "Scan m t p c limit =
    (Inr (take (nat limit) (live_keys m t p c), live_keys m t p c ! (nat limit - 1)),
     filter (\<lambda>(k, e). \<not> e_deadline e \<le> t) m)"
proof -
  have "last (take (nat limit) (live_keys m t p c)) = live_keys m t p c ! (nat limit - 1)"
    using assms by (subst last_conv_nth) auto
  then show ?thesis using assms by (simp add: Scan_pages)
qed

lemma live_keys_next_page:
  assumes "gm_ok m" "1 \<le> limit" "limit < int (length (live_keys m t p c))"
  shows "live_keys m t p (live_keys m t p c ! (nat limit - 1)) = drop (nat limit) (live_keys m t p c)"
proof -
  have "live_keys m t p c ! (nat limit - 1) \<in> set (live_keys m t p c)"
    using assms(2,3) by (intro nth_mem) auto
  then have "c \<le> live_keys m t p c ! (nat limit - 1)"
    using live_keys_above less_imp_le by blast
  then have "live_keys m t p (live_keys m t p c ! (nat limit - 1)) =
      filter (\<lambda>k. live_keys m t p c ! (nat limit - 1) < k) (live_keys m t p c)"
    by (rule live_keys_later)
  also have "\<dots> = drop (nat limit) (live_keys m t p c)"
    using live_keys_distinct [OF assms(1)] assms(2,3)
    by (intro sorted_above_nth) (auto simp: live_keys_def)
  finally show ?thesis .
qed

lemma live_keys_iff:
  assumes "gm_ok m"
  shows "k \<in> set (live_keys m t p []) \<longleftrightarrow>
    k \<noteq> [] \<and> HasPrefix k p \<and> (\<exists>e. map_of m k = Some e \<and> t < e_deadline e)"
proof -
  have "k \<in> set (live_keys m t p []) \<longleftrightarrow>
      k \<noteq> [] \<and> HasPrefix k p \<and> (\<exists>e. (k, e) \<in> set m \<and> t < e_deadline e)"
    unfolding live_keys_def by (cases k) (auto simp: not_le image_iff)
  then show ?thesis using assms by (simp add: gm_ok_def)
qed

section \<open>Completeness\<close>

lemma scan_walk_pages:
  assumes "gm_ok m" "1 \<le> limit" "length (live_keys m t p c) < fuel"
  shows "\<exists>pages. scan_walk fuel m t p c limit = Some pages \<and> concat pages = live_keys m t p c \<and>
    (\<forall>ks \<in> set pages. int (length ks) \<le> limit)"
  using assms
proof (induction fuel arbitrary: m c)
  case (Suc fuel)
  let ?A = "live_keys m t p c"
  let ?m' = "filter (\<lambda>(k, e). \<not> e_deadline e \<le> t) m"
  show ?case
  proof (cases "int (length ?A) \<le> limit")
    case True
    then show ?thesis using Scan_last_page [OF Suc.prems(2) True] by auto
  next
    case False
    let ?n = "?A ! (nat limit - 1)"
    have next_page: "live_keys ?m' t p ?n = drop (nat limit) ?A"
      using live_keys_next_page [OF Suc.prems(1,2)] False by (simp add: live_keys_swept)
    have "?n \<in> set ?A" using False Suc.prems(2) by (intro nth_mem) auto
    then have "?n \<noteq> []" using live_keys_above by fastforce
    moreover have "gm_ok ?m'" using Suc.prems(1) by (simp add: gm_ok_filter)
    moreover have "length (live_keys ?m' t p ?n) < fuel"
      using Suc.prems(2,3) False unfolding next_page by simp
    ultimately show ?thesis
      using Suc.IH [of ?m' ?n] Suc.prems(2) False Scan_page [OF Suc.prems(2), of m t p c] next_page
      by auto
  qed
qed simp

text \<open>C30. A walk with \<open>Scan\<close> from the empty cursor terminates after at most one step more than
  there are live keys, every page holds at most \<open>limit\<close> keys, and the pages list exactly
  the live keys under the prefix, ascending and without repetition.\<close>

theorem scan_walk_complete:
  assumes "gm_ok m" "1 \<le> limit" "length m < fuel"
  shows "\<exists>pages. scan_walk fuel m t prefix [] limit = Some pages \<and>
    sorted (concat pages) \<and> distinct (concat pages) \<and>
    (\<forall>ks \<in> set pages. int (length ks) \<le> limit) \<and>
    (\<forall>k. k \<in> set (concat pages) \<longleftrightarrow>
       k \<noteq> [] \<and> HasPrefix k prefix \<and> (\<exists>e. map_of m k = Some e \<and> t < e_deadline e))"
proof -
  have "length (live_keys m t prefix []) \<le> length m"
    by (auto simp: live_keys_def intro: order_trans [OF length_filter_le])
  then obtain pages where p: "scan_walk fuel m t prefix [] limit = Some pages"
    "concat pages = live_keys m t prefix []" "\<forall>ks \<in> set pages. int (length ks) \<le> limit"
    using scan_walk_pages [OF assms(1,2)] assms(3) order_le_less_trans by blast
  have "k \<in> set (live_keys m t prefix []) \<longleftrightarrow>
       k \<noteq> [] \<and> HasPrefix k prefix \<and> (\<exists>e. map_of m k = Some e \<and> t < e_deadline e)" for k
    using live_keys_iff [OF assms(1)] by blast
  moreover have "sorted (live_keys m t prefix [])" by (simp add: live_keys_def)
  ultimately show ?thesis
    using p(1,3) live_keys_distinct [OF assms(1)] by (intro exI [of _ pages]) (simp only: p(2) simp_thms)
qed

lemma sample_prefix:
  "HasPrefix (bk_Key sample_minute) ''rl:v1:{ns/gw}:''" "HasPrefix (bk_Key sample_day) ''rl:v1:{ns/gw}:''"
  "bk_Key sample_minute \<noteq> []" "bk_Key sample_day \<noteq> []"
  by (simp_all add: sample_minute_def sample_day_def)

lemma sample_both_decided:
  "snd (Decide New sample_time [sample_minute, sample_day]) =
    [(bk_Key sample_minute, \<lparr>e_algorithm = 1, e_tat = 1700000017142858, e_start = 0,
        e_count = 0, e_deadline = 1700000017142858\<rparr>),
     (bk_Key sample_day, \<lparr>e_algorithm = 2, e_tat = 0, e_start = 1699920000000000, e_count = 2,
        e_deadline = 1700006400000000\<rparr>)]"
  by code_simp

theorem scan_walk_complete_witness:
  "\<exists>pages. scan_walk 3 (snd (Decide New sample_time [sample_minute, sample_day])) sample_time
      ''rl:v1:{ns/gw}:'' [] 1 = Some pages \<and> set (concat pages) = {bk_Key sample_minute, bk_Key sample_day}"
proof -
  define m p where "m = snd (Decide New sample_time [sample_minute, sample_day])"
    and "p = ''rl:v1:{ns/gw}:''"
  have m: "gm_ok m" "length m < 3"
    using sample_distinct unfolding sample_both_decided m_def by (simp_all add: gm_ok_def)
  have k: "k \<in> {bk_Key sample_minute, bk_Key sample_day} \<longleftrightarrow>
      k \<noteq> [] \<and> HasPrefix k p \<and> (\<exists>e. map_of m k = Some e \<and> sample_time < e_deadline e)" for k
    using sample_distinct sample_prefix unfolding sample_both_decided m_def p_def [symmetric]
    by (auto simp: sample_time_def)
  show ?thesis
    using scan_walk_complete [OF m(1) order_refl m(2), of sample_time p]
    unfolding m_def [symmetric] p_def [symmetric] k [symmetric] by blast
qed

end
