(* ===== verification/Policy_Model.thy ===== *)
theory Policy_Model
  imports GoPrelude
begin

text \<open>
  The authored policy (\<open>engine/model\<close>): the vocabulary of descriptor keys, modes, operators
  and behaviors, and the records of a rate limit policy as the author wrote it. The
  string-typed enums of the source are strings here too, because a policy may carry a
  value outside them and the compiler has a branch for it. A nil pointer is \<open>None\<close>.
\<close>

section \<open>Vocabulary\<close>

named_theorems model_consts "unfolding of the vocabulary constants"

definition KeyPath :: string where [model_consts]: "KeyPath = ''path''"
definition KeyMethod :: string where [model_consts]: "KeyMethod = ''method''"
definition KeySub :: string where [model_consts]: "KeySub = ''sub''"
definition KeyToken :: string where [model_consts]: "KeyToken = ''token''"

definition MaxDomainDecisionBuckets :: nat where "MaxDomainDecisionBuckets = 128"

definition PathExact :: string where [model_consts]: "PathExact = ''Exact''"
definition PathPrefix :: string where [model_consts]: "PathPrefix = ''Prefix''"
definition PathTemplate :: string where [model_consts]: "PathTemplate = ''Template''"

definition ModeAll :: string where [model_consts]: "ModeAll = ''All''"
definition ModeFirstMatch :: string where [model_consts]: "ModeFirstMatch = ''FirstMatch''"

definition OperatorEquals :: string where [model_consts]: "OperatorEquals = ''Equals''"
definition OperatorIn :: string where [model_consts]: "OperatorIn = ''In''"
definition OperatorInGroup :: string where [model_consts]: "OperatorInGroup = ''InGroup''"
definition OperatorContains :: string where [model_consts]: "OperatorContains = ''Contains''"
definition OperatorExists :: string where [model_consts]: "OperatorExists = ''Exists''"
definition OperatorDoesNotExist :: string where [model_consts]: "OperatorDoesNotExist = ''DoesNotExist''"

definition BehaviorEnforce :: string where [model_consts]: "BehaviorEnforce = ''Enforce''"
definition BehaviorShadow :: string where [model_consts]: "BehaviorShadow = ''Shadow''"
definition BehaviorBypass :: string where [model_consts]: "BehaviorBypass = ''Bypass''"

definition ValueString :: string where [model_consts]: "ValueString = ''String''"
definition ValueStringArray :: string where [model_consts]: "ValueStringArray = ''StringArray''"

definition NormalizeNone :: string where [model_consts]: "NormalizeNone = ''None''"
definition NormalizeLowercase :: string where [model_consts]: "NormalizeLowercase = ''Lowercase''"

definition CostQueryParameter :: string where [model_consts]: "CostQueryParameter = ''QueryParameter''"
definition MaxCost :: int where "MaxCost = 1000000000"

lemma behaviors_distinct [simp]:
  "BehaviorEnforce \<noteq> BehaviorShadow" "BehaviorShadow \<noteq> BehaviorEnforce"
  "BehaviorEnforce \<noteq> BehaviorBypass" "BehaviorBypass \<noteq> BehaviorEnforce"
  "BehaviorShadow \<noteq> BehaviorBypass" "BehaviorBypass \<noteq> BehaviorShadow"
  by (simp_all add: model_consts)

lemma modes_distinct [simp]: "ModeAll \<noteq> ModeFirstMatch" "ModeFirstMatch \<noteq> ModeAll"
  by (simp_all add: model_consts)

lemma modes_set [simp]: "ModeAll \<noteq> []" "ModeFirstMatch \<noteq> []"
  by (simp_all add: model_consts)

section \<open>The policy as authored\<close>

record group =
  g_Name :: string
  g_Values :: "string list"

record route_cost =
  rc_Source :: string
  rc_Name :: string
  rc_Default :: int

record path_match =
  pm_Type :: string
  pm_Value :: string

record route =
  r_Path :: path_match
  r_Methods :: "string list"
  r_Cost :: "route_cost option"

record target =
  t_Routes :: "route list"

record predicate =
  pd_Key :: string
  pd_Operator :: string
  pd_Value :: string
  pd_Values :: "string list"

record rate =
  ra_Requests :: int
  ra_Period :: int
  ra_Burst :: int
  ra_Algorithm :: string

record rule =
  ru_Name :: string
  ru_Matches :: "predicate list"
  ru_Counters :: "string list"
  ru_Rates :: "rate list"
  ru_Behavior :: string
  ru_ReplacedRules :: "string list"

record block =
  b_Name :: string
  b_Target :: target
  b_Mode :: string
  b_Rules :: "rule list"

record key_mapping =
  km_Key :: string
  km_Claim :: string
  km_ClaimPath :: "string list"
  km_Type :: string
  km_Normalization :: string
  km_Fallbacks :: "string list"

record policy =
  p_Domain :: string
  p_Mappings :: "key_mapping list"
  p_Groups :: "group list"
  p_Blocks :: "block list"

end
