(* ===== verification/Compile_Env.thy ===== *)
theory Compile_Env
  imports Policy_Model "HOL-Library.List_Lexorder" "HOL-Library.Char_ord"
begin

text \<open>
  The environment a domain's rules resolve against (\<open>engine/compile/keys.go\<close>) and the problem
  reports shared by the compiler (\<open>engine/compile/compile.go\<close>): descriptor keys with their
  types, groups, and the extraction plan. A regular expression of the source is a
  predicate on strings; its text appears in messages as the source prints it.
\<close>

section \<open>Problems\<close>

datatype reason =
  UnresolvedKeyReference | UnresolvedGroupReference | UnresolvedReplacedRules | IncompatibleOperator
| InvalidCounterAxis | InvalidSpec | InvalidWindow | DomainBudgetExceeded | CaptureShadowsMappedKey
| CostExceedsCapacity

definition informational :: "reason \<Rightarrow> bool" where
  "informational reason \<longleftrightarrow> reason = CaptureShadowsMappedKey \<or> reason = CostExceedsCapacity"

record problem =
  pr_Block :: string
  pr_Rule :: string
  pr_Reason :: reason
  pr_Message :: message
  pr_Blocking :: bool

definition blocking :: "problem list \<Rightarrow> bool" where
  "blocking problems \<longleftrightarrow> (\<exists>p \<in> set problems. pr_Blocking p)"

lemma blocking_simps [simp]:
  "\<not> blocking []" "blocking (p # ps) \<longleftrightarrow> pr_Blocking p \<or> blocking ps"
  "blocking (ps @ qs) \<longleftrightarrow> blocking ps \<or> blocking qs"
  by (auto simp: blocking_def)

definition spec_problem :: "string \<Rightarrow> fmt_arg list \<Rightarrow> problem" where
  "spec_problem fmt args =
     \<lparr>pr_Block = [], pr_Rule = [], pr_Reason = InvalidSpec, pr_Message = (fmt, args), pr_Blocking = True\<rparr>"

lemma spec_problem_blocking [simp]: "pr_Blocking (spec_problem fmt args)"
  by (simp add: spec_problem_def)

section \<open>Names\<close>

definition isLower :: "char \<Rightarrow> bool" where
  "isLower c \<longleftrightarrow> CHR ''a'' \<le> c \<and> c \<le> CHR ''z''"

definition isUpper :: "char \<Rightarrow> bool" where
  "isUpper c \<longleftrightarrow> CHR ''A'' \<le> c \<and> c \<le> CHR ''Z''"

definition keyName_text :: string where "keyName_text = ''^[a-z][a-zA-Z0-9_]*$''"

definition keyName :: "string \<Rightarrow> bool" where
  "keyName s = (case s of [] \<Rightarrow> False
     | c # r \<Rightarrow> isLower c \<and> list_all (\<lambda>x. isLower x \<or> isUpper x \<or> isDigit x \<or> x = CHR ''_'') r)"

definition maxKeyLength :: nat where "maxKeyLength = 63"

section \<open>The environment\<close>

record key_extraction =
  ke_Key :: string
  ke_Path :: "string list"
  ke_Type :: string
  ke_Normalization :: string
  ke_Fallbacks :: "string list list"

record environment =
  env_keys :: "bool gomap"
  env_groups :: "string list gomap"
  env_extraction :: "key_extraction list"

definition effectiveKeys :: "environment \<Rightarrow> string list" where
  "effectiveKeys e = sort (gm_keys (env_keys e))"

definition hasEmptySegment :: "string list \<Rightarrow> bool" where
  "hasEmptySegment path \<longleftrightarrow> path = [] \<or> [] \<in> set path"

definition compileKeyMapping :: "key_mapping \<Rightarrow> problem + key_extraction" where
  "compileKeyMapping km =
     (if \<not> keyName (km_Key km) \<or> length (km_Key km) > maxKeyLength then
        Inl (spec_problem ''mapping key %q does not match %s or exceeds %d characters''
          [FStr (km_Key km), FStr keyName_text, FInt (int maxKeyLength)])
      else if km_Key km = KeyPath \<or> km_Key km = KeyMethod \<or> km_Key km = KeyToken then
        Inl (spec_problem ''mapping key %q collides with a built-in'' [FStr (km_Key km)])
      else if (km_Claim km = []) = (km_ClaimPath km = []) then
        Inl (spec_problem ''mapping key %q must set exactly one of claim and claimPath'' [FStr (km_Key km)])
      else if km_Type km \<notin> {[], ValueString, ValueStringArray} then
        Inl (spec_problem ''mapping key %q carries an unknown type %q'' [FStr (km_Key km), FStr (km_Type km)])
      else if km_Normalization km \<notin> {[], NormalizeNone, NormalizeLowercase} then
        Inl (spec_problem ''mapping key %q carries an unknown normalization %q''
          [FStr (km_Key km), FStr (km_Normalization km)])
      else
        let path = (if km_Claim km \<noteq> [] then Split (km_Claim km) (CHR ''.'') else km_ClaimPath km);
            fallbacks = map (\<lambda>f. Split f (CHR ''.'')) (km_Fallbacks km)
        in if hasEmptySegment path then
             Inl (spec_problem ''mapping key %q carries an empty claim path segment'' [FStr (km_Key km)])
           else if list_ex hasEmptySegment fallbacks then
             Inl (spec_problem ''mapping key %q carries an empty fallback path segment'' [FStr (km_Key km)])
           else
             Inr \<lparr>ke_Key = km_Key km, ke_Path = path,
                  ke_Type = (if km_Type km = [] then ValueString else km_Type km),
                  ke_Normalization = (if km_Normalization km = [] then NormalizeNone else km_Normalization km),
                  ke_Fallbacks = fallbacks\<rparr>)"

text \<open>The mapping loop: the keys declared so far, whether \<open>sub\<close> was overridden, and the state it builds.\<close>

fun compileMappings ::
  "string list \<Rightarrow> bool \<Rightarrow> environment \<Rightarrow> key_mapping list \<Rightarrow> bool \<times> environment \<times> problem list" where
  "compileMappings declared subOverridden env [] = (subOverridden, env, [])"
| "compileMappings declared subOverridden env (km # kms) =
     (if km_Key km \<in> set declared then
        let (s, e, ps) = compileMappings declared subOverridden env kms
        in (s, e, spec_problem ''mapping key %q is declared twice'' [FStr (km_Key km)] # ps)
      else
        case compileKeyMapping km of
          Inl problem \<Rightarrow>
            let (s, e, ps) = compileMappings (km_Key km # declared) subOverridden env kms
            in (s, e, problem # ps)
        | Inr ex \<Rightarrow>
            compileMappings (km_Key km # declared) (subOverridden \<or> km_Key km = KeySub)
              (env\<lparr>env_keys := AList.update (km_Key km) (ke_Type ex = ValueStringArray) (env_keys env),
                   env_extraction := env_extraction env @ [ex]\<rparr>) kms)"

fun compileGroups :: "group list \<Rightarrow> string list gomap \<Rightarrow> string list gomap \<times> problem list" where
  "compileGroups [] dst = (dst, [])"
| "compileGroups (g # gs) dst =
     (if g_Name g = [] then
        let (d, ps) = compileGroups gs dst in (d, spec_problem ''a group without a name'' [] # ps)
      else if map_of dst (g_Name g) \<noteq> None then
        let (d, ps) = compileGroups gs dst
        in (d, spec_problem ''group %q is declared twice'' [FStr (g_Name g)] # ps)
      else compileGroups gs (AList.update (g_Name g) (g_Values g) dst))"

definition builtinSub :: key_extraction where
  "builtinSub = \<lparr>ke_Key = KeySub, ke_Path = [''sub''], ke_Type = ValueString,
     ke_Normalization = NormalizeLowercase, ke_Fallbacks = []\<rparr>"

definition builtin_keys :: "bool gomap" where
  "builtin_keys = [(KeyPath, False), (KeyMethod, False), (KeySub, False)]"

definition compileEnvironment :: "string \<Rightarrow> policy option \<Rightarrow> environment \<times> problem list" where
  "compileEnvironment domain p =
     (case p of
        None \<Rightarrow> (\<lparr>env_keys = builtin_keys, env_groups = [], env_extraction = [builtinSub]\<rparr>, [])
      | Some p \<Rightarrow>
          let p0 = (if p_Domain p \<noteq> domain
                    then [spec_problem ''policy domain %q does not belong to domain %q''
                            [FStr (p_Domain p), FStr domain]]
                    else []);
              (subOverridden, env, p1) = compileMappings [] False
                \<lparr>env_keys = builtin_keys, env_groups = [], env_extraction = []\<rparr> (p_Mappings p);
              env' = (if subOverridden then env
                      else env\<lparr>env_extraction := builtinSub # env_extraction env\<rparr>);
              (groups, p2) = compileGroups (p_Groups p) (env_groups env')
          in (env'\<lparr>env_groups := groups\<rparr>, p0 @ p1 @ p2))"

section \<open>The key set and the plan agree\<close>

text \<open>
  What the mapping loop keeps: every key of the plan is declared once and carries the array
  flag of its type; the remaining keys are the built-ins.
\<close>

definition env_inv :: "string list \<Rightarrow> bool \<Rightarrow> environment \<Rightarrow> bool" where
  "env_inv declared subOverridden env \<longleftrightarrow>
     gm_ok (env_keys env) \<and> distinct (map ke_Key (env_extraction env)) \<and>
     ke_Key ` set (env_extraction env) \<subseteq> set declared \<and>
     set (gm_keys (env_keys env)) = {KeyPath, KeyMethod, KeySub} \<union> ke_Key ` set (env_extraction env) \<and>
     (\<forall>ex \<in> set (env_extraction env). ke_Key ex \<notin> {KeyPath, KeyMethod, KeyToken} \<and>
        map_of (env_keys env) (ke_Key ex) = Some (ke_Type ex = ValueStringArray)) \<and>
     (subOverridden \<longleftrightarrow> KeySub \<in> ke_Key ` set (env_extraction env)) \<and>
     (\<not> subOverridden \<longrightarrow> map_of (env_keys env) KeySub = Some False) \<and>
     map_of (env_keys env) KeyPath = Some False \<and> map_of (env_keys env) KeyMethod = Some False"

lemma keys_distinct [simp]:
  "KeyPath \<noteq> KeyMethod" "KeyMethod \<noteq> KeyPath" "KeyPath \<noteq> KeySub" "KeySub \<noteq> KeyPath"
  "KeyMethod \<noteq> KeySub" "KeySub \<noteq> KeyMethod" "KeyToken \<noteq> KeyPath" "KeyToken \<noteq> KeyMethod"
  "KeyToken \<noteq> KeySub" "KeySub \<noteq> KeyToken" "KeyPath \<noteq> KeyToken" "KeyMethod \<noteq> KeyToken"
  by (simp_all add: model_consts)

lemma env_inv_builtin:
  "env_inv [] False \<lparr>env_keys = builtin_keys, env_groups = g, env_extraction = []\<rparr>"
  by (auto simp: env_inv_def builtin_keys_def gm_ok_def)

lemma compileKeyMapping_Inr:
  assumes "compileKeyMapping km = Inr ex"
  shows "ke_Key ex = km_Key km" "km_Key km \<notin> {KeyPath, KeyMethod, KeyToken}"
    "keyName (km_Key km)" "length (km_Key km) \<le> maxKeyLength"
    "\<not> hasEmptySegment (ke_Path ex)" "\<forall>f \<in> set (ke_Fallbacks ex). \<not> hasEmptySegment f"
    "ke_Type ex \<in> {ValueString, ValueStringArray}"
    "ke_Normalization ex \<in> {NormalizeNone, NormalizeLowercase}"
  using assms
  by (auto simp: compileKeyMapping_def Let_def list_ex_iff split: if_splits)

lemma set_update_keys: "set (gm_keys (AList.update k v m)) = insert k (set (gm_keys m))"
  by (simp add: dom_update)

lemma env_inv_step:
  assumes "env_inv declared subOverridden env" "km_Key km \<notin> set declared" "compileKeyMapping km = Inr ex"
  shows "env_inv (km_Key km # declared) (subOverridden \<or> km_Key km = KeySub)
    (env\<lparr>env_keys := AList.update (km_Key km) (ke_Type ex = ValueStringArray) (env_keys env),
         env_extraction := env_extraction env @ [ex]\<rparr>)"
proof -
  define k where "k = km_Key km"
  have k: "ke_Key ex = k" "k \<noteq> KeyPath" "k \<noteq> KeyMethod" "k \<noteq> KeyToken" "k \<notin> set declared"
    using compileKeyMapping_Inr [OF assms(3)] assms(2) by (auto simp: k_def)
  have inv: "gm_ok (env_keys env)" "distinct (map ke_Key (env_extraction env))"
    "ke_Key ` set (env_extraction env) \<subseteq> set declared"
    "set (gm_keys (env_keys env)) = {KeyPath, KeyMethod, KeySub} \<union> ke_Key ` set (env_extraction env)"
    "\<And>ex. ex \<in> set (env_extraction env) \<Longrightarrow> ke_Key ex \<notin> {KeyPath, KeyMethod, KeyToken} \<and>
        map_of (env_keys env) (ke_Key ex) = Some (ke_Type ex = ValueStringArray)"
    "subOverridden \<longleftrightarrow> KeySub \<in> ke_Key ` set (env_extraction env)"
    "\<not> subOverridden \<longrightarrow> map_of (env_keys env) KeySub = Some False"
    "map_of (env_keys env) KeyPath = Some False" "map_of (env_keys env) KeyMethod = Some False"
    using assms(1) unfolding env_inv_def by blast+
  have new: "k \<notin> ke_Key ` set (env_extraction env)" using inv(3) k(5) by blast
  have old: "ke_Key x \<noteq> k" if "x \<in> set (env_extraction env)" for x using new that by blast
  have keys: "set (gm_keys (AList.update k v (env_keys env))) =
      {KeyPath, KeyMethod, KeySub} \<union> insert k (ke_Key ` set (env_extraction env))" for v
    unfolding set_update_keys inv(4) by blast
  have types: "ke_Key x \<notin> {KeyPath, KeyMethod, KeyToken} \<and>
      map_of (AList.update k (ke_Type ex = ValueStringArray) (env_keys env)) (ke_Key x) =
        Some (ke_Type x = ValueStringArray)"
    if "x \<in> set (env_extraction env @ [ex])" for x
    using that k inv(5) [of x] old [of x] by (cases "x = ex") simp_all
  have sub: "(subOverridden \<or> k = KeySub) \<longleftrightarrow> KeySub \<in> insert k (ke_Key ` set (env_extraction env))"
    using inv(6) by blast
  have "distinct (map ke_Key (env_extraction env @ [ex]))"
    using inv(2) new k(1) by simp
  moreover have "ke_Key ` set (env_extraction env @ [ex]) \<subseteq> set (k # declared)"
    using inv(3) k(1) by auto
  moreover have "ke_Key ` set (env_extraction env @ [ex]) = insert k (ke_Key ` set (env_extraction env))"
    using k(1) by simp
  moreover have "map_of (AList.update k v (env_keys env)) KeySub = Some False"
    if "\<not> (subOverridden \<or> k = KeySub)" for v
    using inv(7) that by auto
  ultimately show ?thesis
    unfolding env_inv_def k_def [symmetric]
    using inv(1,8,9) k(2,3) keys sub types by simp
qed

lemma env_inv_declared: "env_inv declared s env \<Longrightarrow> env_inv (k # declared) s env"
  by (auto simp: env_inv_def)

lemma compileMappings_inv:
  "env_inv declared s env \<Longrightarrow> compileMappings declared s env kms = (s', env', ps) \<Longrightarrow>
     \<exists>declared'. env_inv declared' s' env'"
proof (induction declared s env kms arbitrary: s' env' ps rule: compileMappings.induct)
  case (2 declared s env km kms)
  obtain s1 e1 p1 where twice: "compileMappings declared s env kms = (s1, e1, p1)"
    using prod_cases3 by blast
  obtain s2 e2 p2 where bad: "compileMappings (km_Key km # declared) s env kms = (s2, e2, p2)"
    using prod_cases3 by blast
  show ?case
  proof (cases "km_Key km \<in> set declared")
    case True
    then show ?thesis using 2(1) [OF True 2(4) twice] 2(5) twice by simp
  next
    case False
    show ?thesis
    proof (cases "compileKeyMapping km")
      case (Inl problem)
      then show ?thesis
        using 2(2) [OF False Inl env_inv_declared [OF 2(4)] bad] 2(5) bad False by simp
    next
      case (Inr ex)
      then show ?thesis using 2(3) [OF False Inr env_inv_step [OF 2(4) False Inr]] 2(5) False by simp
    qed
  qed
qed auto

text \<open>A finished environment: the plan covers exactly the keys that come from a token.\<close>

definition env_ok :: "environment \<Rightarrow> bool" where
  "env_ok env \<longleftrightarrow>
     gm_ok (env_keys env) \<and> distinct (map ke_Key (env_extraction env)) \<and>
     KeySub \<in> ke_Key ` set (env_extraction env) \<and>
     set (gm_keys (env_keys env)) = {KeyPath, KeyMethod} \<union> ke_Key ` set (env_extraction env) \<and>
     (\<forall>ex \<in> set (env_extraction env). ke_Key ex \<notin> {KeyPath, KeyMethod, KeyToken} \<and>
        map_of (env_keys env) (ke_Key ex) = Some (ke_Type ex = ValueStringArray)) \<and>
     map_of (env_keys env) KeyPath = Some False \<and> map_of (env_keys env) KeyMethod = Some False"

lemma env_inv_finish:
  assumes "env_inv declared s env"
  shows "env_ok ((if s then env else env\<lparr>env_extraction := builtinSub # env_extraction env\<rparr>)\<lparr>env_groups := g\<rparr>)"
proof (cases s)
  case True
  then show ?thesis using assms unfolding env_inv_def env_ok_def by auto
next
  case False
  then have "KeySub \<notin> ke_Key ` set (env_extraction env)" "map_of (env_keys env) KeySub = Some False"
    using assms unfolding env_inv_def by blast+
  moreover have "ValueString \<noteq> ValueStringArray" by (simp add: model_consts)
  ultimately show ?thesis
    using assms False unfolding env_inv_def env_ok_def builtinSub_def by auto
qed

lemma compileEnvironment_ok:
  assumes "compileEnvironment domain p = (env, ps)"
  shows "env_ok env"
proof (cases p)
  case None
  then have "env = ((if False then env else \<lparr>env_keys = builtin_keys, env_groups = [], env_extraction = []\<rparr>
      \<lparr>env_extraction := [builtinSub]\<rparr>)\<lparr>env_groups := []\<rparr>)"
    using assms by (auto simp: compileEnvironment_def)
  then show ?thesis using env_inv_finish [OF env_inv_builtin [of "[]"], of "[]"] by simp
next
  case (Some q)
  obtain s e p1 where m: "compileMappings [] False
      \<lparr>env_keys = builtin_keys, env_groups = [], env_extraction = []\<rparr> (p_Mappings q) = (s, e, p1)"
    using prod_cases3 by blast
  obtain declared where inv: "env_inv declared s e"
    using compileMappings_inv [OF env_inv_builtin m] by blast
  obtain g p2 where g: "compileGroups (p_Groups q)
      (env_groups (if s then e else e\<lparr>env_extraction := builtinSub # env_extraction e\<rparr>)) = (g, p2)"
    by fastforce
  have env: "env = (if s then e else e\<lparr>env_extraction := builtinSub # env_extraction e\<rparr>)\<lparr>env_groups := g\<rparr>"
    using assms unfolding compileEnvironment_def Some Let_def option.case m prod.case g by simp
  show ?thesis unfolding env by (rule env_inv_finish [OF inv])
qed

text \<open>Every policy, valid or not, compiles to a consistent key set: the effective keys are
  sorted and unique, they are the built-in path and method together with the keys of the
  extraction plan, \<open>sub\<close> is always extracted, each key is extracted by exactly one entry,
  and a key counts as array-valued exactly when its entry extracts an array.\<close>

theorem effective_keys_planned:
  "case compileEnvironment domain p of (env, problems) \<Rightarrow>
     sorted (effectiveKeys env) \<and> distinct (effectiveKeys env) \<and>
     set (effectiveKeys env) = {KeyPath, KeyMethod} \<union> ke_Key ` set (env_extraction env) \<and>
     KeySub \<in> set (effectiveKeys env) \<and> distinct (map ke_Key (env_extraction env)) \<and>
     {ke_Key ex | ex. ex \<in> set (env_extraction env) \<and> ke_Type ex = ValueStringArray} =
       {k. map_of (env_keys env) k = Some True}"
proof (cases "compileEnvironment domain p")
  case (Pair env problems)
  note ok = compileEnvironment_ok [OF Pair, unfolded env_ok_def]
  have key: "k \<in> set (gm_keys (env_keys env))" "k \<noteq> KeyPath" "k \<noteq> KeyMethod"
    if "map_of (env_keys env) k = Some True" for k
    using map_of_SomeD [OF that] that ok by force+
  have "k \<in> {ke_Key ex | ex. ex \<in> set (env_extraction env) \<and> ke_Type ex = ValueStringArray} \<longleftrightarrow>
       map_of (env_keys env) k = Some True" for k
  proof
    assume t: "map_of (env_keys env) k = Some True"
    then obtain ex where "ex \<in> set (env_extraction env)" "k = ke_Key ex" using key [OF t] ok by blast
    then show "k \<in> {ke_Key ex | ex. ex \<in> set (env_extraction env) \<and> ke_Type ex = ValueStringArray}"
      using ok t by auto
  qed (use ok in auto)
  then have "{ke_Key ex | ex. ex \<in> set (env_extraction env) \<and> ke_Type ex = ValueStringArray} =
       {k. map_of (env_keys env) k = Some True}"
    by blast
  then show ?thesis using ok Pair by (simp add: effectiveKeys_def gm_ok_def)
qed

end
