(* ===== verification/Compile_Routes.thy ===== *)
theory Compile_Routes
  imports Compile_Env
begin

text \<open>
  Compiling the routes of a block (\<open>engine/compile/template.go\<close>) and the compiled route types of
  \<open>engine/compile/compile.go\<close>. A helper of the source appends to the compiler's problem list;
  here it returns what it appended. The set of captures a block collects is threaded
  through its routes as a list without repetition.
\<close>

section \<open>Compiled routes\<close>

record c_cost =
  cc_Parameter :: string
  cc_Default :: int

record segment =
  sg_Literal :: string
  sg_Capture :: string

record c_route =
  cr_Type :: string
  cr_Value :: string
  cr_Segments :: "segment list"
  cr_Methods :: "string list"
  cr_Cost :: "c_cost option"

section \<open>Reporting\<close>

definition fail :: "string \<Rightarrow> string \<Rightarrow> reason \<Rightarrow> string \<Rightarrow> fmt_arg list \<Rightarrow> problem" where
  "fail block rule reason fmt args =
     \<lparr>pr_Block = block, pr_Rule = rule, pr_Reason = reason, pr_Message = (fmt, args),
      pr_Blocking = (\<not> informational reason)\<rparr>"

lemma fail_blocking [simp]: "pr_Blocking (fail b r reason fmt args) \<longleftrightarrow> \<not> informational reason"
  by (simp add: fail_def)

lemma informational_simps [simp]:
  "\<not> informational UnresolvedKeyReference" "\<not> informational UnresolvedGroupReference"
  "\<not> informational UnresolvedReplacedRules" "\<not> informational IncompatibleOperator"
  "\<not> informational InvalidCounterAxis" "\<not> informational InvalidSpec" "\<not> informational InvalidWindow"
  "\<not> informational DomainBudgetExceeded"
  "informational CaptureShadowsMappedKey" "informational CostExceedsCapacity"
  by (simp_all add: informational_def)

section \<open>Templates\<close>

fun compileSegments :: "environment \<Rightarrow> string \<Rightarrow> string \<Rightarrow> nat \<Rightarrow> string list \<Rightarrow> string list \<Rightarrow> string list \<Rightarrow>
    segment list \<times> string list \<times> problem list" where
  "compileSegments env bname value i seen captures [] = ([], captures, [])"
| "compileSegments env bname value i seen captures (s # ss) =
     (if s = [] then
        let (out, cs, ps) = compileSegments env bname value (Suc i) seen captures ss
        in (out, cs, fail bname [] InvalidSpec
              ''template %q: segment %d is empty, a slash at the end or two in a row''
              [FStr value, FInt (int i + 1)] # ps)
      else if \<not> HasPrefix s ''{'' \<or> \<not> HasSuffix s ''}'' then
        if ContainsAny s ''{}'' then
          let (out, cs, ps) = compileSegments env bname value (Suc i) seen captures ss
          in (out, cs, fail bname [] InvalidSpec
                ''template %q: segment %q is neither a literal nor a single {placeholder}''
                [FStr value, FStr s] # ps)
        else
          let (out, cs, ps) = compileSegments env bname value (Suc i) seen captures ss
          in (\<lparr>sg_Literal = s, sg_Capture = []\<rparr> # out, cs, ps)
      else
        let name = butlast (tl s) in
        if \<not> keyName name \<or> length name > maxKeyLength then
          let (out, cs, ps) = compileSegments env bname value (Suc i) seen captures ss
          in (out, cs, fail bname [] InvalidSpec ''placeholder %q does not match %s or exceeds %d characters''
                [FStr name, FStr keyName_text, FInt (int maxKeyLength)] # ps)
        else if name = KeyPath \<or> name = KeyMethod \<or> name = KeySub \<or> name = KeyToken then
          let (out, cs, ps) = compileSegments env bname value (Suc i) seen captures ss
          in (out, cs, fail bname [] InvalidSpec ''placeholder %q collides with a built-in key'' [FStr name] # ps)
        else if name \<in> set seen then
          let (out, cs, ps) = compileSegments env bname value (Suc i) seen captures ss
          in (out, cs, fail bname [] InvalidSpec ''placeholder %q repeats within one template'' [FStr name] # ps)
        else
          let p = (if map_of (env_keys env) name \<noteq> None
                   then [fail bname [] CaptureShadowsMappedKey
                           ''capture %q shadows the mapped key of the same name inside this block'' [FStr name]]
                   else []);
              (out, cs, ps) = compileSegments env bname value (Suc i) (name # seen) (List.insert name captures) ss
          in (\<lparr>sg_Literal = [], sg_Capture = name\<rparr> # out, cs, p @ ps))"

definition compileTemplate ::
  "environment \<Rightarrow> string \<Rightarrow> string \<Rightarrow> string list \<Rightarrow> segment list \<times> string list \<times> problem list" where
  "compileTemplate env bname value captures =
     compileSegments env bname value 0 [] captures (Split (TrimPrefix value ''/'') (CHR ''/''))"

section \<open>Costs and methods\<close>

definition costParameter_text :: string where
  "costParameter_text = ''^[A-Za-z0-9_.'' @ [CHR 0x5C] @ ''-'' @ [CHR 0x5C] @ ''['' @ [CHR 0x5C] @ '']]+$''"

definition costParameter :: "string \<Rightarrow> bool" where
  "costParameter s \<longleftrightarrow> s \<noteq> [] \<and>
     list_all (\<lambda>c. isUpper c \<or> isLower c \<or> isDigit c \<or> c \<in> set ''_.-[]'') s"

definition maxCostParameterLength :: nat where "maxCostParameterLength = 64"

definition compileCost :: "string \<Rightarrow> route_cost option \<Rightarrow> c_cost option \<times> problem list" where
  "compileCost bname cost =
     (case cost of
        None \<Rightarrow> (None, [])
      | Some cost \<Rightarrow>
          let def = (if rc_Default cost = 0 then 1 else rc_Default cost);
              ps = (if rc_Source cost \<noteq> CostQueryParameter
                    then [fail bname [] InvalidSpec ''unknown cost source %q'' [FStr (rc_Source cost)]] else []) @
                   (if \<not> costParameter (rc_Name cost) \<or> length (rc_Name cost) > maxCostParameterLength
                    then [fail bname [] InvalidSpec ''cost parameter %q does not match %s or exceeds %d characters''
                      [FStr (rc_Name cost), FStr costParameter_text, FInt (int maxCostParameterLength)]] else []) @
                   (if def < 1 \<or> def > MaxCost
                    then [fail bname [] InvalidSpec ''default cost %d is outside 1..%d''
                      [FInt (rc_Default cost), FInt MaxCost]] else [])
          in (if ps = [] then Some \<lparr>cc_Parameter = rc_Name cost, cc_Default = def\<rparr> else None, ps))"

definition httpMethods :: "string list" where
  "httpMethods = [''GET'', ''POST'', ''PUT'', ''DELETE'', ''PATCH'', ''HEAD'', ''OPTIONS'', ''CONNECT'', ''TRACE'']"

fun compileMethods :: "string \<Rightarrow> string list \<Rightarrow> string list \<Rightarrow> string list \<times> problem list" where
  "compileMethods bname out [] = (out, [])"
| "compileMethods bname out (m # ms) =
     (if m \<notin> set httpMethods then
        let (o', ps) = compileMethods bname out ms
        in (o', fail bname [] InvalidSpec ''unknown HTTP method %q'' [FStr m] # ps)
      else if m \<in> set out then
        let (o', ps) = compileMethods bname out ms
        in (o', fail bname [] InvalidSpec ''method %q is listed twice'' [FStr m] # ps)
      else compileMethods bname (out @ [m]) ms)"

section \<open>Routes\<close>

definition compileRoute ::
  "environment \<Rightarrow> string \<Rightarrow> string list \<Rightarrow> route \<Rightarrow> c_route \<times> string list \<times> problem list" where
  "compileRoute env bname captures r =
     (let value = pm_Value (r_Path r); type = pm_Type (r_Path r);
          p0 = (if \<not> HasPrefix value ''/''
                then [fail bname [] InvalidSpec ''path %q does not start with /'' [FStr value]] else []);
          (segments, captures', p1) =
            (if type = PathExact \<or> type = PathPrefix then ([], captures, [])
             else if type = PathTemplate then compileTemplate env bname value captures
             else ([], captures, [fail bname [] InvalidSpec ''unknown path type %q'' [FStr type]]));
          (methods, p2) = compileMethods bname [] (r_Methods r);
          (cost, p3) = compileCost bname (r_Cost r)
      in (\<lparr>cr_Type = type, cr_Value = value, cr_Segments = segments, cr_Methods = methods, cr_Cost = cost\<rparr>,
          captures', p0 @ p1 @ p2 @ p3))"

fun compileRoutes_loop ::
  "environment \<Rightarrow> string \<Rightarrow> string list \<Rightarrow> route list \<Rightarrow> c_route list \<times> string list \<times> problem list" where
  "compileRoutes_loop env bname captures [] = ([], captures, [])"
| "compileRoutes_loop env bname captures (r # rs) =
     (let (route, captures', p1) = compileRoute env bname captures r;
          (routes, captures'', p2) = compileRoutes_loop env bname captures' rs
      in (route # routes, captures'', p1 @ p2))"

definition compileRoutes :: "environment \<Rightarrow> block \<Rightarrow> c_route list \<times> string list \<times> problem list" where
  "compileRoutes env b =
     (let (routes, captures, ps) = compileRoutes_loop env (b_Name b) [] (t_Routes (b_Target b))
      in (routes, sort captures, ps))"

section \<open>What an accepted route keeps\<close>

text \<open>A compiled segment printed back as the author wrote it.\<close>

definition seg_text :: "segment \<Rightarrow> string" where
  "seg_text sg = (if sg_Capture sg = [] then sg_Literal sg else ''{'' @ sg_Capture sg @ ''}'')"

definition capture_ok :: "string \<Rightarrow> bool" where
  "capture_ok name \<longleftrightarrow> keyName name \<and> length name \<le> maxKeyLength \<and>
     name \<notin> {KeyPath, KeyMethod, KeySub, KeyToken}"

definition seg_ok :: "segment \<Rightarrow> bool" where
  "seg_ok sg \<longleftrightarrow> (if sg_Capture sg = []
     then sg_Literal sg \<noteq> [] \<and> \<not> ContainsAny (sg_Literal sg) ''{}'' else capture_ok (sg_Capture sg))"

definition seg_captures :: "segment list \<Rightarrow> string list" where
  "seg_captures sgs = filter (\<lambda>c. c \<noteq> []) (map sg_Capture sgs)"

lemma seg_captures_simps [simp]:
  "seg_captures [] = []"
  "seg_captures (sg # sgs) = (if sg_Capture sg = [] then seg_captures sgs else sg_Capture sg # seg_captures sgs)"
  by (simp_all add: seg_captures_def)

lemma keyName_not_Nil: "keyName s \<Longrightarrow> s \<noteq> []"
  by (auto simp: keyName_def)

lemma braces_inner:
  assumes "HasPrefix s ''{''" "HasSuffix s ''}''"
  shows "s = ''{'' @ butlast (tl s) @ ''}''"
proof -
  obtain r where r: "s = CHR ''{'' # r" using assms(1) by (auto simp: HasPrefix_iff)
  obtain q where q: "s = q @ [CHR ''}'']" using assms(2) by (auto simp: HasSuffix_iff)
  from r q have "r \<noteq> []" "last r = CHR ''}''" by (auto simp: append_eq_Cons_conv split: if_splits)
  then show ?thesis using append_butlast_last_id [of r] r by simp
qed

lemma compileSegments_accepted:
  assumes "compileSegments env bname value i seen captures ss = (out, cs, ps)" "\<not> blocking ps"
  shows "map seg_text out = ss \<and> (\<forall>sg \<in> set out. seg_ok sg) \<and> set cs = set captures \<union> set (seg_captures out) \<and>
    (distinct captures \<longrightarrow> distinct cs) \<and> distinct (seg_captures out) \<and> set (seg_captures out) \<inter> set seen = {}"
  using assms
proof (induction ss arbitrary: i seen captures out cs ps)
  case (Cons s ss)
  obtain o1 c1 p1 where r1: "compileSegments env bname value (Suc i) seen captures ss = (o1, c1, p1)"
    using prod_cases3 by blast
  define name where "name = butlast (tl s)"
  obtain o2 c2 p2 where r2: "compileSegments env bname value (Suc i) (name # seen) (List.insert name captures) ss =
      (o2, c2, p2)"
    using prod_cases3 by blast
  note unfolded = Cons.prems(1) [unfolded compileSegments.simps r1 Let_def prod.case, folded name_def,
      unfolded r2 prod.case]
  show ?case
  proof (cases "\<not> HasPrefix s ''{'' \<or> \<not> HasSuffix s ''}''")
    case True
    with unfolded Cons.prems(2) have "s \<noteq> []" "\<not> ContainsAny s ''{}''" "cs = c1" "ps = p1"
      "out = \<lparr>sg_Literal = s, sg_Capture = []\<rparr> # o1"
      by (auto split: if_splits)
    then show ?thesis using Cons.IH [OF r1] Cons.prems(2) by (auto simp: seg_text_def seg_ok_def)
  next
    case False
    with unfolded Cons.prems(2) have *: "capture_ok name" "name \<notin> set seen" "cs = c2" "\<not> blocking p2"
      "out = \<lparr>sg_Literal = [], sg_Capture = name\<rparr> # o2"
      by (auto simp: capture_ok_def split: if_splits)
    then have "name \<noteq> []" by (auto simp: capture_ok_def keyName_not_Nil)
    with * Cons.IH [OF r2] False braces_inner [of s] show ?thesis
      by (auto simp: seg_text_def seg_ok_def name_def [symmetric])
  qed
qed auto

lemma compileMethods_accepted:
  assumes "compileMethods bname out ms = (res, ps)" "\<not> blocking ps" "distinct out"
  shows "res = out @ ms \<and> set ms \<subseteq> set httpMethods \<and> distinct (out @ ms)"
  using assms
proof (induction ms arbitrary: out res ps)
  case (Cons m ms)
  obtain r1 p1 where r: "compileMethods bname out ms = (r1, p1)" by fastforce
  show ?case
    using Cons.prems Cons.IH [of "out @ [m]" res ps] r by (auto split: if_splits)
qed auto

lemma compileCost_accepted:
  assumes "compileCost bname cost = (res, ps)" "\<not> blocking ps"
  shows "case cost of None \<Rightarrow> res = None
    | Some c \<Rightarrow> rc_Source c = CostQueryParameter \<and> costParameter (rc_Name c) \<and>
        (\<exists>d. res = Some \<lparr>cc_Parameter = rc_Name c, cc_Default = d\<rparr> \<and> 1 \<le> d \<and> d \<le> MaxCost \<and>
           d = (if rc_Default c = 0 then 1 else rc_Default c))"
  using assms by (cases cost) (auto simp: compileCost_def Let_def split: if_splits)

definition cost_kept :: "route_cost option \<Rightarrow> c_cost option \<Rightarrow> bool" where
  "cost_kept cost c \<longleftrightarrow>
     (case cost of None \<Rightarrow> c = None
      | Some rc \<Rightarrow> rc_Source rc = CostQueryParameter \<and> costParameter (rc_Name rc) \<and>
          (\<exists>d. c = Some \<lparr>cc_Parameter = rc_Name rc, cc_Default = d\<rparr> \<and> 1 \<le> d \<and> d \<le> MaxCost \<and>
             d = (if rc_Default rc = 0 then 1 else rc_Default rc)))"

definition template_ok :: "segment list \<Rightarrow> bool" where
  "template_ok sgs \<longleftrightarrow> sgs \<noteq> [] \<and> distinct (seg_captures sgs) \<and>
     (\<forall>sg \<in> set sgs. seg_ok sg \<and> CHR ''/'' \<notin> set (seg_text sg))"

definition route_kept :: "route \<Rightarrow> c_route \<Rightarrow> bool" where
  "route_kept r cr \<longleftrightarrow>
     cr_Type cr = pm_Type (r_Path r) \<and> cr_Type cr \<in> {PathExact, PathPrefix, PathTemplate} \<and>
     cr_Value cr = pm_Value (r_Path r) \<and> HasPrefix (cr_Value cr) ''/'' \<and>
     cr_Methods cr = r_Methods r \<and> set (r_Methods r) \<subseteq> set httpMethods \<and> distinct (r_Methods r) \<and>
     cost_kept (r_Cost r) (cr_Cost cr) \<and>
     (if cr_Type cr = PathTemplate
      then cr_Value cr = ''/'' @ Join (map seg_text (cr_Segments cr)) (CHR ''/'') \<and> template_ok (cr_Segments cr)
      else cr_Segments cr = [])"

lemma path_types_distinct [simp]:
  "PathExact \<noteq> PathPrefix" "PathPrefix \<noteq> PathExact" "PathExact \<noteq> PathTemplate"
  "PathTemplate \<noteq> PathExact" "PathPrefix \<noteq> PathTemplate" "PathTemplate \<noteq> PathPrefix"
  by (simp_all add: model_consts)

lemma template_text:
  assumes "HasPrefix value ''/''" "map seg_text sgs = Split (TrimPrefix value ''/'') (CHR ''/'')"
  shows "value = ''/'' @ Join (map seg_text sgs) (CHR ''/'')" "sgs \<noteq> []"
    "\<forall>sg \<in> set sgs. CHR ''/'' \<notin> set (seg_text sg)"
proof -
  show "value = ''/'' @ Join (map seg_text sgs) (CHR ''/'')"
    using assms by (auto simp: HasPrefix_iff TrimPrefix_def)
  show "sgs \<noteq> []" using assms(2) by (metis Nil_is_map_conv Split_not_Nil)
  show "\<forall>sg \<in> set sgs. CHR ''/'' \<notin> set (seg_text sg)"
    using Split_no_sep assms(2) by (metis image_eqI image_set)
qed

lemma compileRoute_accepted:
  assumes "compileRoute env bname captures r = (cr, cs, ps)" "\<not> blocking ps"
  shows "route_kept r cr" "set cs = set captures \<union> set (seg_captures (cr_Segments cr))"
    "distinct captures \<Longrightarrow> distinct cs"
proof -
  define val type where "val = pm_Value (r_Path r)" and "type = pm_Type (r_Path r)"
  obtain sgs c1 p1 where t: "compileTemplate env bname val captures = (sgs, c1, p1)"
    using prod_cases3 by blast
  obtain ms p2 where m: "compileMethods bname [] (r_Methods r) = (ms, p2)" by fastforce
  obtain cost p3 where c: "compileCost bname (r_Cost r) = (cost, p3)" by fastforce
  note eq = assms(1) [unfolded compileRoute_def, folded val_def type_def, unfolded Let_def t m c prod.case]
  have ms: "ms = r_Methods r" "set (r_Methods r) \<subseteq> set httpMethods" "distinct (r_Methods r)"
    if "\<not> blocking p2" using compileMethods_accepted [OF m that] by auto
  have cost: "cost_kept (r_Cost r) cost" if "\<not> blocking p3"
    using compileCost_accepted [OF c that] by (simp add: cost_kept_def)
  have sgs: "map seg_text sgs = Split (TrimPrefix val ''/'') (CHR ''/'') \<and> (\<forall>sg \<in> set sgs. seg_ok sg) \<and>
      set c1 = set captures \<union> set (seg_captures sgs) \<and> (distinct captures \<longrightarrow> distinct c1) \<and>
      distinct (seg_captures sgs)" if "\<not> blocking p1"
    using compileSegments_accepted [OF t [unfolded compileTemplate_def] that] by blast
  have "route_kept r cr \<and> set cs = set captures \<union> set (seg_captures (cr_Segments cr)) \<and>
      (distinct captures \<longrightarrow> distinct cs)"
  proof (cases "type = PathTemplate")
    case True
    with eq assms(2) have *: "\<not> blocking p1" "\<not> blocking p2" "\<not> blocking p3" "HasPrefix val ''/''" "cs = c1"
      "cr = \<lparr>cr_Type = type, cr_Value = val, cr_Segments = sgs, cr_Methods = ms, cr_Cost = cost\<rparr>"
      by (auto split: if_splits)
    note tt = template_text [OF *(4) sgs [OF *(1), THEN conjunct1]]
    show ?thesis
      using ms [OF *(2)] cost [OF *(3)] sgs [OF *(1)] tt * True
      by (simp add: route_kept_def template_ok_def val_def [symmetric] type_def [symmetric])
  next
    case False
    with eq assms(2) have *: "\<not> blocking p2" "\<not> blocking p3" "HasPrefix val ''/''" "cs = captures"
      "cr = \<lparr>cr_Type = type, cr_Value = val, cr_Segments = [], cr_Methods = ms, cr_Cost = cost\<rparr>"
      "type \<in> {PathExact, PathPrefix}"
      by (auto split: if_splits)
    show ?thesis
      using ms [OF *(1)] cost [OF *(2)] * False
      by (auto simp: route_kept_def val_def [symmetric] type_def [symmetric])
  qed
  then show "route_kept r cr" "set cs = set captures \<union> set (seg_captures (cr_Segments cr))"
    "distinct captures \<Longrightarrow> distinct cs" by auto
qed

lemma compileRoutes_loop_accepted:
  assumes "compileRoutes_loop env bname captures rs = (crs, cs, ps)" "\<not> blocking ps"
  shows "list_all2 route_kept rs crs \<and> set cs = set captures \<union> (\<Union>cr \<in> set crs. set (seg_captures (cr_Segments cr))) \<and>
    (distinct captures \<longrightarrow> distinct cs)"
  using assms
proof (induction rs arbitrary: captures crs cs ps)
  case (Cons r rs)
  obtain cr c1 p1 where r: "compileRoute env bname captures r = (cr, c1, p1)" using prod_cases3 by blast
  obtain crs' c2 p2 where l: "compileRoutes_loop env bname c1 rs = (crs', c2, p2)" using prod_cases3 by blast
  have eq: "crs = cr # crs'" "cs = c2" "ps = p1 @ p2" using Cons.prems(1) by (auto simp: r l)
  with Cons.prems(2) have "\<not> blocking p1" "\<not> blocking p2" by auto
  with compileRoute_accepted [OF r] Cons.IH [OF l] show ?case unfolding eq by auto
qed auto

lemma compileRoutes_accepted:
  assumes "compileRoutes env b = (crs, cs, ps)" "\<not> blocking ps"
  shows "list_all2 route_kept (t_Routes (b_Target b)) crs"
    "set cs = (\<Union>cr \<in> set crs. set (seg_captures (cr_Segments cr)))" "sorted cs" "distinct cs"
proof -
  obtain r c p where l: "compileRoutes_loop env (b_Name b) [] (t_Routes (b_Target b)) = (r, c, p)"
    using prod_cases3 by blast
  then have "crs = r" "cs = sort c" "ps = p" using assms(1) by (auto simp: compileRoutes_def)
  with compileRoutes_loop_accepted [OF l] assms(2)
  show "list_all2 route_kept (t_Routes (b_Target b)) crs"
    "set cs = (\<Union>cr \<in> set crs. set (seg_captures (cr_Segments cr)))" "sorted cs" "distinct cs" by auto
qed

end
