(* ===== verification/Keys.thy ===== *)
theory Keys
  imports Algo
begin

text \<open>
  Counter keys (\<open>engine/key\<close>): the layout
  \<open>rl:v1:{namespace/domain}:block/rule:algorithm:seconds:axis1:axis2:\<dots>\<close>, built in one
  place for matching, resets and scans. \<open>None\<close> is the panic of \<open>DomainTag\<close> on an empty
  namespace or domain. The lemmas read a key back segment by segment, which is what
  keeps two buckets apart and what makes a key the prefix of exactly its own subtree.
\<close>

section \<open>Building keys\<close>

definition schemaVersion :: string where "schemaVersion = ''v1''"

record ident =
  Namespace :: string
  Domain :: string
  id_Block :: string
  id_Rule :: string

definition reserved :: "char set" where
  "reserved = {CHR ''%'', CHR '':'', CHR ''/'', CHR ''{'', CHR ''}''}"

definition escape_byte :: "char \<Rightarrow> string" where
  "escape_byte c = (if c \<in> reserved then CHR ''%'' # FormatHex2 c else [c])"

definition escape :: "string \<Rightarrow> string" where
  "escape v = (if \<not> ContainsAny v ''%:/{}'' then v else concat (map escape_byte v))"

definition DomainTag :: "string \<Rightarrow> string \<Rightarrow> string option" where
  "DomainTag namespace domain =
     (if namespace = '''' \<or> domain = '''' then None
      else Some (''{'' @ escape namespace @ ''/'' @ escape domain @ ''}''))"

definition DomainPrefix :: "string \<Rightarrow> string \<Rightarrow> string option" where
  "DomainPrefix namespace domain =
     map_option (\<lambda>tag. ''rl:'' @ schemaVersion @ '':'' @ tag @ '':'') (DomainTag namespace domain)"

definition BlockPrefix :: "string \<Rightarrow> string \<Rightarrow> string \<Rightarrow> string option" where
  "BlockPrefix namespace domain block =
     map_option (\<lambda>p. p @ escape block @ ''/'') (DomainPrefix namespace domain)"

definition RulePrefix :: "ident \<Rightarrow> string option" where
  "RulePrefix i =
     map_option (\<lambda>p. p @ escape (id_Block i) @ ''/'' @ escape (id_Rule i) @ '':'')
       (DomainPrefix (Namespace i) (Domain i))"

definition RatePrefix :: "ident \<Rightarrow> algorithm \<Rightarrow> window \<Rightarrow> string option" where
  "RatePrefix i a w =
     map_option (\<lambda>p. p @ lower_name (alg_Name a) @ '':'' @
                     FormatInt (quo64 (Period w) Second) @ '':'') (RulePrefix i)"

definition Bucket :: "string \<Rightarrow> string list \<Rightarrow> string" where
  "Bucket prefix axes =
     (if axes = [] then prefix else prefix @ concat (map (\<lambda>v. escape v @ '':'') axes))"

section \<open>Escaping\<close>

text \<open>The decoder the injectivity of \<open>escape\<close> is proved with.\<close>

definition hexVal :: "char \<Rightarrow> nat" where
  "hexVal c = (let n = of_char c in if n < 58 then n - 48 else n - 55)"

fun unescape_key :: "string \<Rightarrow> string" where
  "unescape_key (x # a # b # r) =
     (if x = CHR ''%'' then char_of (16 * hexVal a + hexVal b) # unescape_key r
      else x # unescape_key (a # b # r))"
| "unescape_key s = s"

lemma escape_concat: "escape v = concat (map escape_byte v)"
proof (cases "ContainsAny v ''%:/{}''")
  case False
  then have "\<forall>c \<in> set v. c \<notin> reserved"
    by (auto simp: ContainsAny_def list_ex_iff reserved_def)
  then have "concat (map escape_byte v) = v"
    by (induction v) (auto simp: escape_byte_def)
  with False show ?thesis by (simp add: escape_def)
qed (simp add: escape_def)

lemma escape_simps [simp]:
  "escape [] = []" "escape (c # v) = escape_byte c @ escape v"
  by (simp_all add: escape_concat)

lemma escape_byte_cases:
  "escape_byte c = (if c = CHR ''%'' then ''%25'' else if c = CHR '':'' then ''%3A''
     else if c = CHR ''/'' then ''%2F'' else if c = CHR ''{'' then ''%7B''
     else if c = CHR ''}'' then ''%7D'' else [c])"
  by (simp add: escape_byte_def reserved_def FormatHex2_def hexDigit_def)

lemma escape_clean [simp]:
  "CHR '':'' \<notin> set (escape v)" "CHR ''/'' \<notin> set (escape v)"
  "CHR ''{'' \<notin> set (escape v)" "CHR ''}'' \<notin> set (escape v)"
  by (induction v) (auto simp: escape_byte_cases)

lemma unescape_key_plain: "x \<noteq> CHR ''%'' \<Longrightarrow> unescape_key (x # s) = x # unescape_key s"
  by (cases s rule: unescape_key.cases) auto

lemma escape_byte_hex:
  "escape_byte c \<noteq> [c] \<Longrightarrow>
     \<exists>a b. escape_byte c = [CHR ''%'', a, b] \<and> char_of (16 * hexVal a + hexVal b) = c"
  by (auto simp: escape_byte_cases hexVal_def char_of_eq_iff split: if_splits)

lemma unescape_escape [simp]: "unescape_key (escape v) = v"
proof (induction v)
  case (Cons c v)
  show ?case
  proof (cases "escape_byte c = [c]")
    case True
    then have "c \<noteq> CHR ''%''" by (auto simp: escape_byte_cases)
    with True Cons show ?thesis by (simp add: unescape_key_plain)
  next
    case False
    with Cons escape_byte_hex [OF False] show ?thesis by auto
  qed
qed simp

lemma escape_inj [simp]: "escape u = escape v \<longleftrightarrow> u = v"
  by (metis unescape_escape)

section \<open>Reading a key back\<close>

definition ident_ok :: "ident \<Rightarrow> bool" where
  "ident_ok i \<longleftrightarrow> Namespace i \<noteq> [] \<and> Domain i \<noteq> []"

text \<open>The axis values of a key, escaped and terminated.\<close>

abbreviation axes_text :: "string list \<Rightarrow> string" where
  "axes_text axes \<equiv> terminate_all (CHR '':'') (map escape axes)"

lemma Bucket_eq: "Bucket p axes = p @ axes_text axes"
  by (cases axes) (simp_all add: Bucket_def terminate_all_def comp_def)

definition rule_text :: "ident \<Rightarrow> string" where
  "rule_text i = ''rl:v1:{'' @ escape (Namespace i) @ CHR ''/'' # escape (Domain i) @ CHR ''}'' #
     CHR '':'' # escape (id_Block i) @ CHR ''/'' # escape (id_Rule i) @ [CHR '':'']"

definition rate_text :: "algorithm \<Rightarrow> int \<Rightarrow> string" where
  "rate_text a secs = lower_name (alg_Name a) @ CHR '':'' # FormatInt secs @ [CHR '':'']"

lemma RulePrefix_eq: "RulePrefix i = (if ident_ok i then Some (rule_text i) else None)"
  by (simp add: RulePrefix_def DomainPrefix_def DomainTag_def ident_ok_def rule_text_def
      schemaVersion_def)

lemma RatePrefix_eq:
  "RatePrefix i a w =
     (if ident_ok i then Some (rule_text i @ rate_text a (quo64 (Period w) Second)) else None)"
  by (simp add: RatePrefix_def RulePrefix_eq rate_text_def)

lemma lower_name_simps [simp]:
  "lower_name ''GCRA'' = ''gcra''" "lower_name ''FixedWindow'' = ''fixedwindow''"
  by (simp_all add: lower_name_def lowerASCII_def isUpperASCII_def less_eq_char_def char_of_eq_iff)

lemma lower_name_clean [simp]: "CHR '':'' \<notin> set (lower_name (alg_Name a))"
  by (cases a) simp_all

lemma lower_name_inj [simp]: "lower_name (alg_Name a) = lower_name (alg_Name b) \<longleftrightarrow> a = b"
  by (cases a; cases b) simp_all

lemma FormatInt_clean [simp]: "0 \<le> n \<Longrightarrow> CHR '':'' \<notin> set (FormatInt n)"
  using FormatInt_digits [of n "CHR '':''"] by (auto simp: isDigit_def less_eq_char_def)

lemma rule_text_prefix [simp]:
  "HasPrefix (rule_text j @ s) (rule_text i @ r) \<longleftrightarrow> i = j \<and> HasPrefix s r"
  by (cases i; cases j) (auto simp: rule_text_def)

lemma rule_text_prefix' [simp]: "HasPrefix (rule_text j @ s) (rule_text i) \<longleftrightarrow> i = j"
  using rule_text_prefix [of j s i "[]"] by simp

lemma rate_text_prefix [simp]:
  "0 \<le> m \<Longrightarrow> 0 \<le> n \<Longrightarrow>
     HasPrefix (rate_text b n @ s) (rate_text a m @ r) \<longleftrightarrow> a = b \<and> m = n \<and> HasPrefix s r"
  by (auto simp: rate_text_def FormatInt_inj_nonneg)

lemma axes_text_prefix [simp]:
  "HasPrefix (axes_text ys) (axes_text xs) \<longleftrightarrow> (\<exists>zs. ys = xs @ zs)"
proof
  assume "HasPrefix (axes_text ys) (axes_text xs)"
  then obtain zs where "map escape ys = map escape xs @ zs"
    using terminate_all_prefix [of "map escape xs" "CHR '':''" "map escape ys"] by auto
  then have "take (length xs) (map escape ys) = map escape xs"
    by (metis append_eq_conv_conj length_map)
  then have "map escape (take (length xs) ys) = map escape xs" by (simp add: take_map)
  then have "take (length xs) ys = xs"
    by (metis (no_types, lifting) escape_inj inj_map_eq_map injI)
  then show "\<exists>zs. ys = xs @ zs" by (metis append_take_drop_id)
next
  assume "\<exists>zs. ys = xs @ zs"
  then show "HasPrefix (axes_text ys) (axes_text xs)"
    by (auto simp: terminate_all_def HasPrefix_def)
qed

text \<open>The window's seconds, which a checked window determines and is determined by.\<close>

lemma period_seconds:
  assumes "common_ok w"
  shows "quo64 (Period w) Second = Period w div Second" "0 \<le> Period w div Second"
    and "Period w = Period w div Second * Second"
  using assms by (auto simp: common_ok_def algo_consts in64_def intro!: quo64_nonneg)

lemma bucket_prefix_iff:
  assumes "ident_ok i" "ident_ok j" "common_ok w" "common_ok v"
    and "RatePrefix i a w = Some p" "RatePrefix j b v = Some q"
  shows "HasPrefix (Bucket q ys) (Bucket p xs) \<longleftrightarrow>
    i = j \<and> a = b \<and> Period w = Period v \<and> (\<exists>zs. ys = xs @ zs)"
proof -
  note w = period_seconds [OF assms(3)] and v = period_seconds [OF assms(4)]
  have p: "p = rule_text i @ rate_text a (Period w div Second)"
    and q: "q = rule_text j @ rate_text b (Period v div Second)"
    using assms w v by (simp_all add: RatePrefix_eq)
  have "Period w div Second = Period v div Second \<longleftrightarrow> Period w = Period v"
    using w(3) v(3) by metis
  then show ?thesis
    using w(2) v(2) by (auto simp: p q Bucket_eq)
qed

section \<open>A sample key\<close>

definition sample_window :: window where
  "sample_window = \<lparr>Requests = 7, Period = 60000000000, Burst = 3\<rparr>"

definition sample_ident :: ident where
  "sample_ident = \<lparr>Namespace = ''ns'', Domain = ''gw'', id_Block = ''b'', id_Rule = ''r''\<rparr>"

lemma sample_window_ok: "Check gcra sample_window = None"
  by (simp add: Check_gcra_iff gcra_ok_def common_ok_def tau_def emission_def algo_consts
      sample_window_def)

lemma sample_rate_prefix:
  "RatePrefix sample_ident gcra sample_window = Some ''rl:v1:{ns/gw}:b/r:gcra:60:''"
proof -
  have "quo64 60000000000 Second = 60"
    by (simp add: quo64_nonneg in64_def algo_consts)
  moreover have "FormatInt 60 = ''60''"
    by (simp add: FormatInt_def FormatNat.simps [of 60] FormatNat.simps [of 6] digit_char_def
        char_of_eq_iff)
  ultimately show ?thesis
    by (simp add: RatePrefix_eq ident_ok_def rule_text_def rate_text_def escape_byte_cases
        sample_window_def sample_ident_def)
qed

lemma Bucket_eq_iff:
  assumes "Check a w = None" "Check b v = None"
    and "RatePrefix i a w = Some p" "RatePrefix j b v = Some q"
  shows "Bucket p xs = Bucket q ys \<longleftrightarrow>
    i = j \<and> a = b \<and> Period w = Period v \<and> xs = ys"
proof -
  have ok: "ident_ok i" "ident_ok j" using assms(3,4) by (auto simp: RatePrefix_eq split: if_splits)
  note iff = bucket_prefix_iff [OF ok Check_common_ok [OF assms(1)] Check_common_ok [OF assms(2)] assms(3,4)]
    and iff' = bucket_prefix_iff [OF ok(2,1) Check_common_ok [OF assms(2)] Check_common_ok [OF assms(1)] assms(4,3)]
  show ?thesis
  proof
    assume eq: "Bucket p xs = Bucket q ys"
    with iff [of ys xs] iff' [of xs ys] show "i = j \<and> a = b \<and> Period w = Period v \<and> xs = ys"
      by (auto simp: HasPrefix_def)
  next
    assume "i = j \<and> a = b \<and> Period w = Period v \<and> xs = ys"
    with assms(3,4) show "Bucket p xs = Bucket q ys" by (simp add: RatePrefix_eq split: if_splits)
  qed
qed

section \<open>Properties\<close>

text \<open>
  C21. Counter keys never collide: two buckets of checked windows have the same key only if
  they agree on namespace, domain, block, rule, algorithm, period and every axis value,
  whatever bytes the names and the token-supplied axis values contain.
\<close>

theorem bucket_key_injective:
  assumes "Check a w = None" "Check b v = None"
    and "RatePrefix i a w = Some p" "RatePrefix j b v = Some q"
  shows "Bucket p xs = Bucket q ys \<longleftrightarrow>
    i = j \<and> a = b \<and> Period w = Period v \<and> xs = ys"
  using Bucket_eq_iff [OF assms] .

theorem bucket_key_injective_witness:
  "Bucket ''rl:v1:{ns/gw}:b/r:gcra:60:'' [''al:ice''] \<noteq>
   Bucket ''rl:v1:{ns/gw}:b/r:gcra:60:'' [''al'', ''ice'']"
  using bucket_key_injective [OF sample_window_ok sample_window_ok sample_rate_prefix
      sample_rate_prefix, of "[''al:ice'']" "[''al'', ''ice'']"]
  by simp

text \<open>
  A key is the prefix of exactly its own subtree: a scan or reset by the key of some
  leading axes reaches the buckets of the same rate that share those axes and no others;
  in particular the bucket of one value never matches that of a longer value.
\<close>

theorem bucket_key_subtree:
  assumes "Check a w = None" "Check b v = None"
    and "RatePrefix i a w = Some p" "RatePrefix j b v = Some q"
  shows "HasPrefix (Bucket q ys) (Bucket p xs) \<longleftrightarrow>
    i = j \<and> a = b \<and> Period w = Period v \<and> (\<exists>zs. ys = xs @ zs)"
  using assms Check_common_ok [OF assms(1)] Check_common_ok [OF assms(2)]
  by (intro bucket_prefix_iff) (auto simp: RatePrefix_eq split: if_splits)

theorem bucket_key_subtree_witness:
  "\<not> HasPrefix (Bucket ''rl:v1:{ns/gw}:b/r:gcra:60:'' [''alice2''])
      (Bucket ''rl:v1:{ns/gw}:b/r:gcra:60:'' [''alice''])"
  using bucket_key_subtree [OF sample_window_ok sample_window_ok sample_rate_prefix
      sample_rate_prefix, of "[''alice2'']" "[''alice'']"]
  by simp

text \<open>
  The management prefixes scope correctly: a bucket key lies under the prefix of a rule,
  of a block or of a domain exactly when the bucket belongs to that rule, block or domain.
\<close>

theorem management_prefix_scope:
  assumes "RatePrefix j b v = Some q" "RulePrefix i = Some rp"
    and "BlockPrefix ns d blk = Some bp" "DomainPrefix ns' d' = Some dp"
  shows "(HasPrefix (Bucket q ys) rp \<longleftrightarrow> i = j) \<and>
    (HasPrefix (Bucket q ys) bp \<longleftrightarrow> ns = Namespace j \<and> d = Domain j \<and> blk = id_Block j) \<and>
    (HasPrefix (Bucket q ys) dp \<longleftrightarrow> ns' = Namespace j \<and> d' = Domain j)"
proof -
  have q: "Bucket q ys = rule_text j @ rate_text b (quo64 (Period v) Second) @ axes_text ys"
    using assms(1) by (auto simp: Bucket_eq RatePrefix_eq split: if_splits)
  have "HasPrefix (Bucket q ys) rp \<longleftrightarrow> i = j"
    using assms(2) by (auto simp: q RulePrefix_eq split: if_splits)
  moreover have "HasPrefix (Bucket q ys) bp \<longleftrightarrow>
      ns = Namespace j \<and> d = Domain j \<and> blk = id_Block j"
    using assms(3) by (auto simp: q BlockPrefix_def DomainPrefix_def DomainTag_def
        schemaVersion_def rule_text_def split: if_splits)
  moreover have "HasPrefix (Bucket q ys) dp \<longleftrightarrow> ns' = Namespace j \<and> d' = Domain j"
    using assms(4) by (auto simp: q DomainPrefix_def DomainTag_def schemaVersion_def
        rule_text_def split: if_splits)
  ultimately show ?thesis by blast
qed

theorem management_prefix_scope_witness:
  "\<not> HasPrefix (Bucket ''rl:v1:{ns/gw}:b/r:gcra:60:'' []) ''rl:v1:{ns/gw2}:''"
proof -
  have "RulePrefix sample_ident = Some ''rl:v1:{ns/gw}:b/r:''"
    "BlockPrefix ''ns'' ''gw'' ''b'' = Some ''rl:v1:{ns/gw}:b/''"
    "DomainPrefix ''ns'' ''gw2'' = Some ''rl:v1:{ns/gw2}:''"
    by (simp_all add: RulePrefix_eq rule_text_def ident_ok_def sample_ident_def BlockPrefix_def
        DomainPrefix_def DomainTag_def schemaVersion_def escape_byte_cases)
  from management_prefix_scope [OF sample_rate_prefix this, of "[]"] show ?thesis
    by (simp add: sample_ident_def)
qed

end
