(* ===== verification/Compile_Rules.thy ===== *)
theory Compile_Rules
  imports Compile_Routes Keys "HOL-Library.Monad_Syntax"
begin

text \<open>
  Compiling the rules of a block (\<open>engine/compile/blocks.go\<close>). Every operation returns its result
  with the problems it reported, in the order of the source. Compiling a rate builds the
  key prefix of its buckets, which panics on an empty namespace or domain; \<open>None\<close> is that
  panic, for the operations that reach it.
\<close>

section \<open>Compiled rules\<close>

record c_predicate =
  cp_Key :: string
  cp_Operator :: string
  cp_Value :: string
  cp_Values :: "string list"

record c_rate =
  ct_Algorithm :: algorithm
  ct_Window :: window
  ct_Prefix :: string

record c_rule =
  cu_Name :: string
  cu_Behavior :: string
  cu_Matches :: "c_predicate list"
  cu_Counters :: "string list"
  cu_Rates :: "c_rate list"
  cu_ReplacedRules :: "string list"

record c_block =
  cb_Name :: string
  cb_Mode :: string
  cb_Routes :: "c_route list"
  cb_Captures :: "string list"
  cb_Rules :: "c_rule list"

section \<open>Predicates and counters\<close>

definition toSet :: "string list \<Rightarrow> string list" where
  "toSet values = fold (\<lambda>v out. List.insert v out) values []"

text \<open>The problem an operator's parameters raise, if any.\<close>

definition operatorArity :: "string \<Rightarrow> string \<Rightarrow> predicate \<Rightarrow> problem option" where
  "operatorArity bname rname p =
     (let bad = (\<lambda>fmt args. Some (fail bname rname InvalidSpec fmt args)); op = pd_Operator p in
      if op = OperatorEquals \<or> op = OperatorContains \<or> op = OperatorInGroup then
        if pd_Value p = [] \<or> pd_Values p \<noteq> [] then bad ''%s takes value and nothing else'' [FStr op] else None
      else if op = OperatorIn then
        if pd_Values p = [] \<or> pd_Value p \<noteq> []
        then bad ''In takes a non-empty values list and nothing else'' [] else None
      else if op = OperatorExists \<or> op = OperatorDoesNotExist then
        if pd_Value p \<noteq> [] \<or> pd_Values p \<noteq> [] then bad ''%s takes no parameters'' [FStr op] else None
      else bad ''unknown operator %q'' [FStr op])"

definition compilePredicate ::
  "environment \<Rightarrow> string \<Rightarrow> string \<Rightarrow> bool gomap \<Rightarrow> predicate \<Rightarrow> c_predicate option \<times> problem list" where
  "compilePredicate env bname rname blockKeys p =
     (let compiled = \<lparr>cp_Key = pd_Key p, cp_Operator = pd_Operator p, cp_Value = pd_Value p, cp_Values = []\<rparr>;
          op = pd_Operator p in
      if pd_Key p = KeyPath \<or> pd_Key p = KeyMethod \<or> pd_Key p = KeyToken then
        (None, [fail bname rname InvalidSpec
           ''matches key %q belongs to the target, not to matches'' [FStr (pd_Key p)]])
      else case map_of blockKeys (pd_Key p) of
        None \<Rightarrow> (None, [fail bname rname UnresolvedKeyReference
           ''key %q is not in the effective set of the domain'' [FStr (pd_Key p)]])
      | Some isArray \<Rightarrow>
          (case operatorArity bname rname p of
             Some problem \<Rightarrow> (None, [problem])
           | None \<Rightarrow>
               if op = OperatorEquals then
                 (Some compiled,
                  if isArray then [fail bname rname IncompatibleOperator
                    ''Equals cannot apply to the array-valued key %q'' [FStr (pd_Key p)]] else [])
               else if op = OperatorIn then
                 (Some (compiled\<lparr>cp_Values := toSet (pd_Values p)\<rparr>), [])
               else if op = OperatorInGroup then
                 (case map_of (env_groups env) (pd_Value p) of
                    None \<Rightarrow> (None, [fail bname rname UnresolvedGroupReference
                      ''InGroup names %q, which no group declares'' [FStr (pd_Value p)]])
                  | Some values \<Rightarrow> (Some (compiled\<lparr>cp_Values := toSet values\<rparr>), []))
               else (Some compiled, [])))"

fun compileMatches ::
  "environment \<Rightarrow> string \<Rightarrow> string \<Rightarrow> bool gomap \<Rightarrow> predicate list \<Rightarrow> c_predicate list \<times> problem list" where
  "compileMatches env bname rname blockKeys [] = ([], [])"
| "compileMatches env bname rname blockKeys (p # ps) =
     (let (compiled, p1) = compilePredicate env bname rname blockKeys p;
          (out, p2) = compileMatches env bname rname blockKeys ps
      in (case compiled of Some c \<Rightarrow> c # out | None \<Rightarrow> out, p1 @ p2))"

fun compileCounters :: "string \<Rightarrow> string \<Rightarrow> bool gomap \<Rightarrow> string list \<Rightarrow> problem list" where
  "compileCounters bname rname blockKeys [] = []"
| "compileCounters bname rname blockKeys (axis # axes) =
     (case map_of blockKeys axis of
        None \<Rightarrow> [fail bname rname UnresolvedKeyReference
          ''counter axis %q is not in the effective set of the domain'' [FStr axis]]
      | Some isArray \<Rightarrow>
          if isArray then [fail bname rname InvalidCounterAxis
            ''the array-valued key %q cannot be a counter axis'' [FStr axis]] else [])
     @ compileCounters bname rname blockKeys axes"

section \<open>Rates\<close>

definition ratesCompilable :: "string \<Rightarrow> rule \<Rightarrow> string \<Rightarrow> bool \<times> problem list" where
  "ratesCompilable bname r behavior =
     (if behavior = BehaviorBypass then
        (False, if ru_Rates r \<noteq> [] then [fail bname (ru_Name r) InvalidSpec ''a Bypass rule carries no rates'' []]
                else [])
      else if ru_Rates r = [] then
        (False, [fail bname (ru_Name r) InvalidSpec ''a counting rule carries at least one rates entry'' []])
      else (True, []))"

definition compileRate ::
  "string \<Rightarrow> string \<Rightarrow> rate \<Rightarrow> ident \<Rightarrow> (c_rate option \<times> problem list) option" where
  "compileRate bname rname r i =
     (let name = (if ra_Algorithm r = [] then ''GCRA'' else ra_Algorithm r) in
      case ByName the_registry name of
        None \<Rightarrow> Some (None, [fail bname rname InvalidSpec ''unknown algorithm %q; known: %v''
                  [FStr (ra_Algorithm r), FStrs (Names the_registry)]])
      | Some a \<Rightarrow>
          let w0 = \<lparr>Requests = ra_Requests r, Period = ra_Period r, Burst = ra_Burst r\<rparr>;
              w = (if alg_ID a = GCRAID \<and> Burst w0 = 0 then w0\<lparr>Burst := Requests w0\<rparr> else w0)
          in case Check a w of
               Some err \<Rightarrow> Some (None, [fail bname rname InvalidWindow ''window %s/%s: %v''
                              [FStr name, FDur (ra_Period r), FErr err]])
             | None \<Rightarrow> do {
                 prefix \<leftarrow> RatePrefix i a w;
                 Some (Some \<lparr>ct_Algorithm = a, ct_Window = w, ct_Prefix = prefix\<rparr>, [])
               })"

fun compileRates_loop ::
  "string \<Rightarrow> string \<Rightarrow> ident \<Rightarrow> int list \<Rightarrow> rate list \<Rightarrow> (c_rate list \<times> problem list) option" where
  "compileRates_loop bname rname i periods [] = Some ([], [])"
| "compileRates_loop bname rname i periods (r # rs) =
     (if ra_Period r \<in> set periods then do {
        (out, ps) \<leftarrow> compileRates_loop bname rname i periods rs;
        Some (out, fail bname rname InvalidSpec ''two rates entries share the period %s'' [FDur (ra_Period r)] # ps)
      }
      else do {
        (compiled, p1) \<leftarrow> compileRate bname rname r i;
        (out, p2) \<leftarrow> compileRates_loop bname rname i (ra_Period r # periods) rs;
        Some (case compiled of Some c \<Rightarrow> c # out | None \<Rightarrow> out, p1 @ p2)
      })"

definition compileRates ::
  "string \<Rightarrow> string \<Rightarrow> string \<Rightarrow> rule \<Rightarrow> string \<Rightarrow> (c_rate list \<times> problem list) option" where
  "compileRates namespace domain bname r behavior =
     (case ratesCompilable bname r behavior of
        (False, ps) \<Rightarrow> Some ([], ps)
      | (True, ps) \<Rightarrow>
          compileRates_loop bname (ru_Name r)
            \<lparr>Namespace = namespace, Domain = domain, id_Block = bname, id_Rule = ru_Name r\<rparr> [] (ru_Rates r))"

section \<open>Rules\<close>

definition compileRule :: "string \<Rightarrow> string \<Rightarrow> environment \<Rightarrow> block \<Rightarrow> bool gomap \<Rightarrow> rule \<Rightarrow>
    (c_rule \<times> problem list) option" where
  "compileRule namespace domain env b blockKeys r =
     (let behavior = (if ru_Behavior r = [] then BehaviorEnforce else ru_Behavior r);
          p0 = (if behavior \<notin> {BehaviorEnforce, BehaviorShadow, BehaviorBypass}
                then [fail (b_Name b) (ru_Name r) InvalidSpec ''unknown behavior %q'' [FStr (ru_Behavior r)]]
                else []);
          p1 = (if behavior = BehaviorBypass \<and> b_Mode b \<noteq> ModeFirstMatch \<and> ru_ReplacedRules r = []
                then [fail (b_Name b) (ru_Name r) InvalidSpec
                  ''a Bypass rule under All names the rules it exempts from in replacedRules'' []]
                else []);
          (matches, p2) = compileMatches env (b_Name b) (ru_Name r) blockKeys (ru_Matches r);
          p3 = compileCounters (b_Name b) (ru_Name r) blockKeys (ru_Counters r)
      in do {
        (rates, p4) \<leftarrow> compileRates namespace domain (b_Name b) r behavior;
        Some (\<lparr>cu_Name = ru_Name r, cu_Behavior = behavior, cu_Matches = matches, cu_Counters = ru_Counters r,
               cu_Rates = rates, cu_ReplacedRules = ru_ReplacedRules r\<rparr>, p0 @ p1 @ p2 @ p3 @ p4)
      })"

fun compileRules_loop :: "string \<Rightarrow> string \<Rightarrow> environment \<Rightarrow> block \<Rightarrow> bool gomap \<Rightarrow> string list \<Rightarrow> rule list \<Rightarrow>
    (c_rule list \<times> problem list) option" where
  "compileRules_loop namespace domain env b blockKeys names [] = Some ([], [])"
| "compileRules_loop namespace domain env b blockKeys names (r # rs) =
     (if ru_Name r \<in> set names then do {
        (out, ps) \<leftarrow> compileRules_loop namespace domain env b blockKeys names rs;
        Some (out, fail (b_Name b) (ru_Name r) InvalidSpec ''rule %q is declared twice'' [FStr (ru_Name r)] # ps)
      }
      else do {
        (compiled, p1) \<leftarrow> compileRule namespace domain env b blockKeys r;
        (out, p2) \<leftarrow> compileRules_loop namespace domain env b blockKeys (ru_Name r # names) rs;
        Some (compiled # out, p1 @ p2)
      })"

fun checkReplacedRules_loop :: "string \<Rightarrow> string \<Rightarrow> string list \<Rightarrow> rule list \<Rightarrow> problem list" where
  "checkReplacedRules_loop bname mode names [] = []"
| "checkReplacedRules_loop bname mode names (r # rs) =
     (if ru_ReplacedRules r = [] then []
      else if mode = ModeFirstMatch then
        [fail bname (ru_Name r) InvalidSpec
           ''replacedRules is not available under FirstMatch, where the order of the rules already decides'' []]
      else map (\<lambda>target. fail bname (ru_Name r) UnresolvedReplacedRules
                 ''replacedRules names %q, which is not another rule of this block'' [FStr target])
             (filter (\<lambda>target. target \<notin> set names \<or> target = ru_Name r) (ru_ReplacedRules r)))
     @ checkReplacedRules_loop bname mode names rs"

definition checkReplacedRules :: "block \<Rightarrow> string \<Rightarrow> string list \<Rightarrow> problem list" where
  "checkReplacedRules b mode names = checkReplacedRules_loop (b_Name b) mode names (b_Rules b)"

section \<open>Cost warnings\<close>

fun windowBelow_loop :: "c_rate list \<Rightarrow> int \<Rightarrow> (c_rate \<times> int) option" where
  "windowBelow_loop [] cost = None"
| "windowBelow_loop (r # rs) cost =
     (let capacity = (if Burst (ct_Window r) = 0 then Requests (ct_Window r) else Burst (ct_Window r))
      in if cost > capacity then Some (r, capacity) else windowBelow_loop rs cost)"

definition windowBelow :: "c_rule \<Rightarrow> int \<Rightarrow> (c_rate \<times> int) option" where
  "windowBelow rule cost = windowBelow_loop (cu_Rates rule) cost"

definition checkCostCapacity :: "c_block \<Rightarrow> problem list" where
  "checkCostCapacity b =
     concat (map (\<lambda>route.
       case cr_Cost route of
         None \<Rightarrow> []
       | Some c \<Rightarrow> concat (map (\<lambda>rule.
           case windowBelow rule (cc_Default c) of
             None \<Rightarrow> []
           | Some (rate, capacity) \<Rightarrow>
               [fail (cb_Name b) (cu_Name rule) CostExceedsCapacity
                  ''route %q reads a default cost of %d, above the capacity %d of the %s window of %s''
                  [FStr (cr_Value route), FInt (cc_Default c), FInt capacity,
                   FStr (alg_Name (ct_Algorithm rate)), FDur (Period (ct_Window rate))]])
           (cb_Rules b)))
       (cb_Routes b))"

section \<open>Blocks\<close>

definition blockKeys_of :: "environment \<Rightarrow> string list \<Rightarrow> bool gomap" where
  "blockKeys_of env captures = fold (\<lambda>capture keys. AList.update capture False keys) captures (env_keys env)"

definition compileBlock ::
  "string \<Rightarrow> string \<Rightarrow> environment \<Rightarrow> block \<Rightarrow> (c_block \<times> problem list) option" where
  "compileBlock namespace domain env b =
     (let mode = (if b_Mode b = [] then ModeAll else b_Mode b);
          p0 = (if mode \<noteq> ModeAll \<and> mode \<noteq> ModeFirstMatch
                then [fail (b_Name b) [] InvalidSpec ''unknown mode %q'' [FStr (b_Mode b)]] else []);
          (routes, captures, p1) = compileRoutes env b;
          blockKeys = blockKeys_of env captures;
          p2 = (if b_Rules b = [] then [fail (b_Name b) [] InvalidSpec ''a block without rules'' []] else [])
      in do {
        (rules, p3) \<leftarrow> compileRules_loop namespace domain env b blockKeys [] (b_Rules b);
        let out = \<lparr>cb_Name = b_Name b, cb_Mode = mode, cb_Routes = routes, cb_Captures = captures, cb_Rules = rules\<rparr>;
        Some (out, p0 @ p1 @ p2 @ p3 @ checkReplacedRules b mode (map ru_Name (b_Rules b)) @ checkCostCapacity out)
      })"

fun compileBlocks_loop :: "string \<Rightarrow> string \<Rightarrow> environment \<Rightarrow> string list \<Rightarrow> block list \<Rightarrow>
    (c_block list \<times> problem list) option" where
  "compileBlocks_loop namespace domain env seen [] = Some ([], [])"
| "compileBlocks_loop namespace domain env seen (b # bs) =
     (if b_Name b \<in> set seen then do {
        (out, ps) \<leftarrow> compileBlocks_loop namespace domain env seen bs;
        Some (out, fail (b_Name b) [] InvalidSpec ''block %q is declared twice'' [FStr (b_Name b)] # ps)
      }
      else do {
        (compiled, p1) \<leftarrow> compileBlock namespace domain env b;
        (out, p2) \<leftarrow> compileBlocks_loop namespace domain env (b_Name b # seen) bs;
        Some (compiled # out, p1 @ p2)
      })"

definition compileBlocks ::
  "string \<Rightarrow> string \<Rightarrow> policy \<Rightarrow> environment \<Rightarrow> (c_block list \<times> problem list) option" where
  "compileBlocks namespace domain p env =
     (let p0 = (if p_Blocks p = [] then [fail [] [] InvalidSpec ''a policy without blocks'' []] else [])
      in do {
        (blocks, ps) \<leftarrow> compileBlocks_loop namespace domain env [] (p_Blocks p);
        Some (blocks, p0 @ ps)
      })"

section \<open>The decision budget\<close>

fun blockDecision_loop :: "string \<Rightarrow> nat \<Rightarrow> nat \<Rightarrow> c_rule list \<Rightarrow> nat \<times> nat" where
  "blockDecision_loop mode always widest [] = (always, widest)"
| "blockDecision_loop mode always widest (r # rs) =
     (if mode \<noteq> ModeFirstMatch then blockDecision_loop mode (always + length (cu_Rates r)) widest rs
      else if cu_Behavior r = BehaviorShadow then blockDecision_loop mode (always + length (cu_Rates r)) widest rs
      else blockDecision_loop mode always (max widest (length (cu_Rates r))) rs)"

definition blockDecisionBuckets :: "c_block \<Rightarrow> nat" where
  "blockDecisionBuckets b =
     (case blockDecision_loop (cb_Mode b) 0 0 (cb_Rules b) of (always, widest) \<Rightarrow> always + widest)"

definition decisionBuckets :: "c_block list \<Rightarrow> nat" where
  "decisionBuckets blocks = fold (\<lambda>b total. total + blockDecisionBuckets b) blocks 0"

end
