(* ===== verification/Compile.thy ===== *)
theory Compile
  imports Compile_Rules
begin

text \<open>
  The policy compiler (\<open>engine/compile/compile.go\<close>) and what a generation it accepts looks like.
  \<open>Compile\<close> returns \<open>None\<close> for a panic, which the proofs rule out, and otherwise the snapshot
  with every problem found. The relations \<open>rate_kept\<close>, \<open>rule_kept\<close> and \<open>block_kept\<close> say what of
  the authored policy the snapshot carries.
\<close>

section \<open>Compilation\<close>

record snapshot =
  sn_Domain :: string
  sn_EffectiveKeys :: "string list"
  sn_Blocks :: "c_block list"
  sn_Extraction :: "key_extraction list"
  sn_DecisionBuckets :: nat

definition domainName_text :: string where "domainName_text = ''^[a-z0-9]([a-z0-9.-]*[a-z0-9])?$''"

definition domainName :: "string \<Rightarrow> bool" where
  "domainName s \<longleftrightarrow> s \<noteq> [] \<and> (isLower (hd s) \<or> isDigit (hd s)) \<and> (isLower (last s) \<or> isDigit (last s)) \<and>
     list_all (\<lambda>c. isLower c \<or> isDigit c \<or> c = CHR ''.'' \<or> c = CHR ''-'') s"

definition empty_snapshot :: "string \<Rightarrow> snapshot" where
  "empty_snapshot domain =
     \<lparr>sn_Domain = domain, sn_EffectiveKeys = [], sn_Blocks = [], sn_Extraction = [], sn_DecisionBuckets = 0\<rparr>"

definition Compile :: "string \<Rightarrow> string \<Rightarrow> policy option \<Rightarrow> (snapshot \<times> problem list) option" where
  "Compile namespace domain p =
     (if namespace = [] then
        Some (empty_snapshot domain,
          [spec_problem ''the component's own namespace is empty; it is a segment of every counter key'' []])
      else if length domain > 63 \<or> \<not> domainName domain then
        Some (empty_snapshot domain,
          [spec_problem ''domain %q does not match %s or exceeds 63 characters'' [FStr domain, FStr domainName_text]])
      else
        let (env, p0) = compileEnvironment domain p;
            snap = (empty_snapshot domain)\<lparr>sn_EffectiveKeys := effectiveKeys env, sn_Extraction := env_extraction env\<rparr>
        in case p of
             None \<Rightarrow> Some (snap, p0)
           | Some p \<Rightarrow> do {
               (blocks, p1) \<leftarrow> compileBlocks namespace domain p env;
               let n = decisionBuckets blocks;
               let p2 = (if n > MaxDomainDecisionBuckets
                         then [\<lparr>pr_Block = [], pr_Rule = [], pr_Reason = DomainBudgetExceeded,
                                pr_Message = (''one decision can collect up to %d buckets across the domain; the budget is %d'',
                                  [FInt (int n), FInt (int MaxDomainDecisionBuckets)]), pr_Blocking = True\<rparr>]
                         else []);
               let problems = p0 @ p1 @ p2;
               if blocking problems then Some (snap, problems)
               else Some (snap\<lparr>sn_Blocks := blocks, sn_DecisionBuckets := n\<rparr>, problems)
             })"

section \<open>Rates\<close>

definition resolved_window :: "rate \<Rightarrow> algorithm \<Rightarrow> window" where
  "resolved_window r a =
     \<lparr>Requests = ra_Requests r, Period = ra_Period r,
      Burst = (if a = gcra \<and> ra_Burst r = 0 then ra_Requests r else ra_Burst r)\<rparr>"

definition rate_kept :: "ident \<Rightarrow> rate \<Rightarrow> c_rate \<Rightarrow> bool" where
  "rate_kept i r ct \<longleftrightarrow>
     alg_Name (ct_Algorithm ct) = (if ra_Algorithm r = [] then ''GCRA'' else ra_Algorithm r) \<and>
     ct_Window ct = resolved_window r (ct_Algorithm ct) \<and>
     Check (ct_Algorithm ct) (ct_Window ct) = None \<and>
     RatePrefix i (ct_Algorithm ct) (ct_Window ct) = Some (ct_Prefix ct)"

lemma alg_ID_gcra [simp]: "alg_ID a = GCRAID \<longleftrightarrow> a = gcra"
  by (cases a) simp_all

lemma compileRate_total: "ident_ok i \<Longrightarrow> \<exists>c ps. compileRate bname rname r i = Some (c, ps)"
  by (auto simp: compileRate_def Let_def RatePrefix_eq split: option.split)

lemma compileRate_accepted:
  assumes "compileRate bname rname r i = Some (c, ps)" "\<not> blocking ps"
  shows "\<exists>ct. c = Some ct \<and> rate_kept i r ct"
proof -
  define name where "name = (if ra_Algorithm r = [] then ''GCRA'' else ra_Algorithm r)"
  obtain a where a: "ByName the_registry name = Some a"
    using assms by (cases "ByName the_registry name") (auto simp: compileRate_def name_def [symmetric])
  define w where "w = resolved_window r a"
  have w: "(if alg_ID a = GCRAID \<and> Burst w0 = 0 then w0\<lparr>Burst := Requests w0\<rparr> else w0) = w"
    if "w0 = \<lparr>Requests = ra_Requests r, Period = ra_Period r, Burst = ra_Burst r\<rparr>" for w0
    by (simp add: that w_def resolved_window_def)
  note eq = assms(1) [unfolded compileRate_def Let_def name_def [symmetric] a option.case w [OF refl]]
  then obtain prefix where "Check a w = None" "RatePrefix i a w = Some prefix"
    "c = Some \<lparr>ct_Algorithm = a, ct_Window = w, ct_Prefix = prefix\<rparr>"
    using assms(2) by (auto simp: bind_eq_Some_conv split: option.splits)
  then show ?thesis
    using a [unfolded ByName_the_registry] by (simp add: rate_kept_def name_def [symmetric] w_def)
qed

lemma compileRates_loop_total:
  "ident_ok i \<Longrightarrow> \<exists>c ps. compileRates_loop bname rname i periods rs = Some (c, ps)"
proof (induction rs arbitrary: periods)
  case (Cons r rs)
  obtain c p where "compileRate bname rname r i = Some (c, p)" using compileRate_total [OF Cons.prems] by blast
  with Cons.IH [OF Cons.prems, of periods] Cons.IH [OF Cons.prems, of "ra_Period r # periods"]
  show ?case by auto
qed simp

lemma compileRates_loop_accepted:
  assumes "compileRates_loop bname rname i periods rs = Some (cts, ps)" "\<not> blocking ps"
  shows "list_all2 (rate_kept i) rs cts \<and> distinct (map ra_Period rs) \<and> set periods \<inter> ra_Period ` set rs = {}"
  using assms
proof (induction rs arbitrary: periods cts ps)
  case (Cons r rs)
  have new: "ra_Period r \<notin> set periods"
  proof
    assume "ra_Period r \<in> set periods"
    with Cons.prems show False by (auto simp: bind_eq_Some_conv)
  qed
  with Cons.prems(1) obtain c p1 out p2 where r: "compileRate bname rname r i = Some (c, p1)"
    and l: "compileRates_loop bname rname i (ra_Period r # periods) rs = Some (out, p2)"
    and eq: "cts = (case c of Some c \<Rightarrow> c # out | None \<Rightarrow> out)" "ps = p1 @ p2"
    by (auto simp: bind_eq_Some_conv)
  have nb: "\<not> blocking p1" "\<not> blocking p2" using Cons.prems(2) eq by auto
  obtain ct where "c = Some ct" "rate_kept i r ct" using compileRate_accepted [OF r nb(1)] by blast
  with Cons.IH [OF l nb(2)] new eq(1) show ?case by auto
qed simp

section \<open>Predicates and counters\<close>

lemma set_toSet [simp]: "set (toSet vs) = set vs"
proof -
  have "set (fold (\<lambda>v out. List.insert v out) vs acc) = set acc \<union> set vs" for acc
    by (induction vs arbitrary: acc) auto
  then show ?thesis by (simp add: toSet_def)
qed

definition operators :: "string set" where
  "operators = {OperatorEquals, OperatorIn, OperatorInGroup, OperatorContains, OperatorExists, OperatorDoesNotExist}"

definition pred_kept :: "environment \<Rightarrow> bool gomap \<Rightarrow> predicate \<Rightarrow> c_predicate \<Rightarrow> bool" where
  "pred_kept env blockKeys p cp \<longleftrightarrow>
     cp_Key cp = pd_Key p \<and> cp_Operator cp = pd_Operator p \<and> cp_Value cp = pd_Value p \<and>
     pd_Key p \<notin> {KeyPath, KeyMethod, KeyToken} \<and> pd_Operator p \<in> operators \<and>
     (\<exists>isArray. map_of blockKeys (pd_Key p) = Some isArray \<and> (pd_Operator p = OperatorEquals \<longrightarrow> \<not> isArray)) \<and>
     (pd_Operator p = OperatorIn \<longrightarrow> set (cp_Values cp) = set (pd_Values p)) \<and>
     (pd_Operator p = OperatorInGroup \<longrightarrow>
        (\<exists>vs. map_of (env_groups env) (pd_Value p) = Some vs \<and> set (cp_Values cp) = set vs))"

lemma operators_distinct [simp]:
  "OperatorIn \<noteq> OperatorEquals" "OperatorInGroup \<noteq> OperatorEquals" "OperatorInGroup \<noteq> OperatorIn"
  "OperatorEquals \<noteq> OperatorIn" "OperatorEquals \<noteq> OperatorInGroup" "OperatorIn \<noteq> OperatorInGroup"
  by (simp_all add: model_consts)

lemma operatorArity_None: "operatorArity bname rname p = None \<Longrightarrow> pd_Operator p \<in> operators"
  by (auto simp: operatorArity_def operators_def Let_def split: if_splits)

lemma operatorArity_blocking: "operatorArity bname rname p = Some problem \<Longrightarrow> pr_Blocking problem"
  by (auto simp: operatorArity_def Let_def split: if_splits)

lemma compilePredicate_accepted:
  assumes "compilePredicate env bname rname blockKeys p = (c, ps)" "\<not> blocking ps"
  shows "\<exists>cp. c = Some cp \<and> pred_kept env blockKeys p cp"
proof -
  have key: "pd_Key p \<notin> {KeyPath, KeyMethod, KeyToken}"
    using assms by (auto simp: compilePredicate_def Let_def split: if_splits)
  obtain isArray where arr: "map_of blockKeys (pd_Key p) = Some isArray"
    using assms key by (cases "map_of blockKeys (pd_Key p)") (auto simp: compilePredicate_def Let_def)
  have ar: "operatorArity bname rname p = None"
    using assms key arr operatorArity_blocking [of bname rname p]
    by (cases "operatorArity bname rname p") (auto simp: compilePredicate_def Let_def)
  show ?thesis
    using assms key operatorArity_None [OF ar]
    by (auto simp: compilePredicate_def arr ar pred_kept_def Let_def split: if_splits option.splits)
qed

lemma compileMatches_accepted:
  assumes "compileMatches env bname rname blockKeys preds = (out, ps)" "\<not> blocking ps"
  shows "list_all2 (pred_kept env blockKeys) preds out"
  using assms
proof (induction preds arbitrary: out ps)
  case (Cons p preds)
  obtain c p1 where c: "compilePredicate env bname rname blockKeys p = (c, p1)" by fastforce
  obtain o2 p2 where l: "compileMatches env bname rname blockKeys preds = (o2, p2)" by fastforce
  have eq: "out = (case c of Some c \<Rightarrow> c # o2 | None \<Rightarrow> o2)" "ps = p1 @ p2"
    using Cons.prems(1) by (auto simp: c l)
  with Cons.prems(2) have "\<not> blocking p1" "\<not> blocking p2" by auto
  with compilePredicate_accepted [OF c] Cons.IH [OF l] eq(1) show ?case by auto
qed simp

lemma compileCounters_accepted:
  "\<not> blocking (compileCounters bname rname blockKeys axes) \<Longrightarrow>
     (\<forall>axis \<in> set axes. map_of blockKeys axis = Some False)"
  by (induction axes) (auto split: option.splits if_splits)

section \<open>Rules\<close>

definition rule_kept :: "string \<Rightarrow> string \<Rightarrow> environment \<Rightarrow> block \<Rightarrow> bool gomap \<Rightarrow> rule \<Rightarrow> c_rule \<Rightarrow> bool" where
  "rule_kept namespace domain env b blockKeys r cu \<longleftrightarrow>
     cu_Name cu = ru_Name r \<and> cu_Counters cu = ru_Counters r \<and> cu_ReplacedRules cu = ru_ReplacedRules r \<and>
     cu_Behavior cu = (if ru_Behavior r = [] then BehaviorEnforce else ru_Behavior r) \<and>
     cu_Behavior cu \<in> {BehaviorEnforce, BehaviorShadow, BehaviorBypass} \<and>
     (cu_Behavior cu = BehaviorBypass \<and> b_Mode b \<noteq> ModeFirstMatch \<longrightarrow> ru_ReplacedRules r \<noteq> []) \<and>
     list_all2 (pred_kept env blockKeys) (ru_Matches r) (cu_Matches cu) \<and>
     (\<forall>axis \<in> set (ru_Counters r). map_of blockKeys axis = Some False) \<and>
     list_all2 (rate_kept \<lparr>Namespace = namespace, Domain = domain, id_Block = b_Name b, id_Rule = ru_Name r\<rparr>)
       (ru_Rates r) (cu_Rates cu) \<and>
     distinct (map ra_Period (ru_Rates r)) \<and> (cu_Rates cu = [] \<longleftrightarrow> cu_Behavior cu = BehaviorBypass)"

lemma compileRates_total:
  "namespace \<noteq> [] \<Longrightarrow> domain \<noteq> [] \<Longrightarrow> \<exists>c ps. compileRates namespace domain bname r behavior = Some (c, ps)"
  using compileRates_loop_total [of "\<lparr>Namespace = namespace, Domain = domain, id_Block = bname, id_Rule = ru_Name r\<rparr>"]
  by (auto simp: compileRates_def ident_ok_def split: prod.split bool.split)

lemma compileRates_accepted:
  assumes "compileRates namespace domain bname r behavior = Some (cts, ps)" "\<not> blocking ps"
  shows "list_all2 (rate_kept \<lparr>Namespace = namespace, Domain = domain, id_Block = bname, id_Rule = ru_Name r\<rparr>)
      (ru_Rates r) cts \<and> distinct (map ra_Period (ru_Rates r)) \<and> (cts = [] \<longleftrightarrow> behavior = BehaviorBypass)"
proof (cases "behavior = BehaviorBypass \<or> ru_Rates r = []")
  case True
  then have "behavior = BehaviorBypass" "ru_Rates r = []" "cts = []"
    using assms by (auto simp: compileRates_def ratesCompilable_def split: if_splits)
  then show ?thesis by simp
next
  case False
  then have l: "compileRates_loop bname (ru_Name r)
      \<lparr>Namespace = namespace, Domain = domain, id_Block = bname, id_Rule = ru_Name r\<rparr> [] (ru_Rates r) = Some (cts, ps)"
    using assms(1) by (simp add: compileRates_def ratesCompilable_def)
  from compileRates_loop_accepted [OF l assms(2)] False show ?thesis by auto
qed

lemma compileRule_total:
  assumes "namespace \<noteq> []" "domain \<noteq> []"
  shows "\<exists>c ps. compileRule namespace domain env b blockKeys r = Some (c, ps)"
  using compileRates_total [OF assms, of "b_Name b" r "if ru_Behavior r = [] then BehaviorEnforce else ru_Behavior r"]
  by (auto simp: compileRule_def Let_def split: prod.split)

lemma compileRule_accepted:
  assumes "compileRule namespace domain env b blockKeys r = Some (cu, ps)" "\<not> blocking ps"
  shows "rule_kept namespace domain env b blockKeys r cu"
proof -
  define behavior where "behavior = (if ru_Behavior r = [] then BehaviorEnforce else ru_Behavior r)"
  obtain ms p2 where m: "compileMatches env (b_Name b) (ru_Name r) blockKeys (ru_Matches r) = (ms, p2)" by fastforce
  note eq = assms(1) [unfolded compileRule_def Let_def m prod.case behavior_def [symmetric]]
  then obtain rates p4 where rt: "compileRates namespace domain (b_Name b) r behavior = Some (rates, p4)"
    by (auto simp: bind_eq_Some_conv)
  have cu: "cu = \<lparr>cu_Name = ru_Name r, cu_Behavior = behavior, cu_Matches = ms, cu_Counters = ru_Counters r,
      cu_Rates = rates, cu_ReplacedRules = ru_ReplacedRules r\<rparr>"
    using eq by (auto simp: rt)
  have nb: "behavior \<in> {BehaviorEnforce, BehaviorShadow, BehaviorBypass}"
    "behavior = BehaviorBypass \<and> b_Mode b \<noteq> ModeFirstMatch \<longrightarrow> ru_ReplacedRules r \<noteq> []"
    "\<not> blocking p2" "\<not> blocking (compileCounters (b_Name b) (ru_Name r) blockKeys (ru_Counters r))" "\<not> blocking p4"
    using eq assms(2) by (auto simp: rt split: if_splits)
  show ?thesis
    using compileMatches_accepted [OF m nb(3)] compileCounters_accepted [OF nb(4)]
      compileRates_accepted [OF rt nb(5)] nb(1,2)
    unfolding rule_kept_def cu behavior_def [symmetric] c_rule.simps by blast
qed

lemma compileRules_loop_total:
  assumes "namespace \<noteq> []" "domain \<noteq> []"
  shows "\<exists>c ps. compileRules_loop namespace domain env b blockKeys names rs = Some (c, ps)"
proof (induction rs arbitrary: names)
  case (Cons r rs)
  obtain c p where "compileRule namespace domain env b blockKeys r = Some (c, p)"
    using compileRule_total [OF assms] by blast
  with Cons.IH [of names] Cons.IH [of "ru_Name r # names"] show ?case by auto
qed simp

lemma compileRules_loop_accepted:
  assumes "compileRules_loop namespace domain env b blockKeys names rs = Some (cus, ps)" "\<not> blocking ps"
  shows "list_all2 (rule_kept namespace domain env b blockKeys) rs cus \<and> distinct (map ru_Name rs) \<and>
    set names \<inter> ru_Name ` set rs = {}"
  using assms
proof (induction rs arbitrary: names cus ps)
  case (Cons r rs)
  have new: "ru_Name r \<notin> set names"
  proof
    assume "ru_Name r \<in> set names"
    with Cons.prems show False by (auto simp: bind_eq_Some_conv)
  qed
  with Cons.prems(1) obtain c p1 out p2 where r: "compileRule namespace domain env b blockKeys r = Some (c, p1)"
    and l: "compileRules_loop namespace domain env b blockKeys (ru_Name r # names) rs = Some (out, p2)"
    and eq: "cus = c # out" "ps = p1 @ p2"
    by (auto simp: bind_eq_Some_conv)
  have nb: "\<not> blocking p1" "\<not> blocking p2" using Cons.prems(2) eq by auto
  from compileRule_accepted [OF r nb(1)] Cons.IH [OF l nb(2)] new eq(1) show ?case by auto
qed simp

definition replaced_ok :: "string \<Rightarrow> string list \<Rightarrow> rule \<Rightarrow> bool" where
  "replaced_ok mode names r \<longleftrightarrow> ru_ReplacedRules r \<noteq> [] \<longrightarrow>
     mode \<noteq> ModeFirstMatch \<and> (\<forall>target \<in> set (ru_ReplacedRules r). target \<in> set names \<and> target \<noteq> ru_Name r)"

lemma checkReplacedRules_accepted:
  "\<not> blocking (checkReplacedRules_loop bname mode names rs) \<Longrightarrow> \<forall>r \<in> set rs. replaced_ok mode names r"
proof (induction rs)
  case (Cons r rs)
  then show ?case
    by (auto simp: replaced_ok_def blocking_def [of "map _ _"] split: if_splits)
qed simp

lemma checkCostCapacity_informational: "\<not> blocking (checkCostCapacity b)"
  by (auto simp: blocking_def checkCostCapacity_def split: option.splits)

section \<open>Blocks\<close>

definition block_kept :: "string \<Rightarrow> string \<Rightarrow> environment \<Rightarrow> block \<Rightarrow> c_block \<Rightarrow> bool" where
  "block_kept namespace domain env b cb \<longleftrightarrow>
     cb_Name cb = b_Name b \<and> cb_Mode cb = (if b_Mode b = [] then ModeAll else b_Mode b) \<and>
     cb_Mode cb \<in> {ModeAll, ModeFirstMatch} \<and>
     list_all2 route_kept (t_Routes (b_Target b)) (cb_Routes cb) \<and>
     set (cb_Captures cb) = (\<Union>cr \<in> set (cb_Routes cb). set (seg_captures (cr_Segments cr))) \<and>
     sorted (cb_Captures cb) \<and> distinct (cb_Captures cb) \<and>
     list_all2 (rule_kept namespace domain env b (blockKeys_of env (cb_Captures cb))) (b_Rules b) (cb_Rules cb) \<and>
     b_Rules b \<noteq> [] \<and> distinct (map ru_Name (b_Rules b)) \<and>
     (\<forall>r \<in> set (b_Rules b). replaced_ok (cb_Mode cb) (map ru_Name (b_Rules b)) r)"

lemma compileBlock_total:
  assumes "namespace \<noteq> []" "domain \<noteq> []"
  shows "\<exists>c ps. compileBlock namespace domain env b = Some (c, ps)"
proof -
  obtain routes captures p1 where r: "compileRoutes env b = (routes, captures, p1)" using prod_cases3 by blast
  obtain rules p3 where
    "compileRules_loop namespace domain env b (blockKeys_of env captures) [] (b_Rules b) = Some (rules, p3)"
    using compileRules_loop_total [OF assms] by blast
  then show ?thesis by (simp add: compileBlock_def r Let_def)
qed

lemma compileBlock_accepted:
  assumes "compileBlock namespace domain env b = Some (cb, ps)" "\<not> blocking ps"
  shows "block_kept namespace domain env b cb"
proof -
  define mode where "mode = (if b_Mode b = [] then ModeAll else b_Mode b)"
  obtain routes captures p1 where r: "compileRoutes env b = (routes, captures, p1)" using prod_cases3 by blast
  note eq = assms(1) [unfolded compileBlock_def Let_def r prod.case mode_def [symmetric]]
  then obtain rules p3 where
    l: "compileRules_loop namespace domain env b (blockKeys_of env captures) [] (b_Rules b) = Some (rules, p3)"
    by (auto simp: bind_eq_Some_conv)
  have cb: "cb = \<lparr>cb_Name = b_Name b, cb_Mode = mode, cb_Routes = routes, cb_Captures = captures, cb_Rules = rules\<rparr>"
    using eq by (auto simp: l)
  have nb: "mode \<in> {ModeAll, ModeFirstMatch}" "\<not> blocking p1" "b_Rules b \<noteq> []" "\<not> blocking p3"
    "\<not> blocking (checkReplacedRules b mode (map ru_Name (b_Rules b)))"
    using eq assms(2) by (auto simp: l split: if_splits)
  note replaced = checkReplacedRules_accepted [OF nb(5) [unfolded checkReplacedRules_def]]
  show ?thesis
    using compileRoutes_accepted [OF r nb(2)] compileRules_loop_accepted [OF l nb(4)] nb(1,3) replaced
    unfolding block_kept_def cb mode_def [symmetric] c_block.simps by blast
qed

lemma compileBlocks_loop_total:
  assumes "namespace \<noteq> []" "domain \<noteq> []"
  shows "\<exists>c ps. compileBlocks_loop namespace domain env seen bs = Some (c, ps)"
proof (induction bs arbitrary: seen)
  case (Cons b bs)
  obtain c p where "compileBlock namespace domain env b = Some (c, p)" using compileBlock_total [OF assms] by blast
  with Cons.IH [of seen] Cons.IH [of "b_Name b # seen"] show ?case by auto
qed simp

lemma compileBlocks_loop_accepted:
  assumes "compileBlocks_loop namespace domain env seen bs = Some (cbs, ps)" "\<not> blocking ps"
  shows "list_all2 (block_kept namespace domain env) bs cbs \<and> distinct (map b_Name bs) \<and>
    set seen \<inter> b_Name ` set bs = {}"
  using assms
proof (induction bs arbitrary: seen cbs ps)
  case (Cons b bs)
  have new: "b_Name b \<notin> set seen"
  proof
    assume "b_Name b \<in> set seen"
    with Cons.prems show False by (auto simp: bind_eq_Some_conv)
  qed
  with Cons.prems(1) obtain c p1 out p2 where b: "compileBlock namespace domain env b = Some (c, p1)"
    and l: "compileBlocks_loop namespace domain env (b_Name b # seen) bs = Some (out, p2)"
    and eq: "cbs = c # out" "ps = p1 @ p2"
    by (auto simp: bind_eq_Some_conv)
  have nb: "\<not> blocking p1" "\<not> blocking p2" using Cons.prems(2) eq by auto
  from compileBlock_accepted [OF b nb(1)] Cons.IH [OF l nb(2)] new eq(1) show ?case by auto
qed simp

section \<open>Accepted generations\<close>

lemma compileBlocks_accepted:
  assumes "compileBlocks namespace domain p env = Some (cbs, ps)" "\<not> blocking ps"
  shows "list_all2 (block_kept namespace domain env) (p_Blocks p) cbs" "distinct (map b_Name (p_Blocks p))"
    "p_Blocks p \<noteq> []"
proof -
  obtain qs where l: "compileBlocks_loop namespace domain env [] (p_Blocks p) = Some (cbs, qs)"
    and nb: "\<not> blocking qs" "p_Blocks p \<noteq> []"
    using assms by (auto simp: compileBlocks_def bind_eq_Some_conv split: if_splits)
  show "list_all2 (block_kept namespace domain env) (p_Blocks p) cbs" "distinct (map b_Name (p_Blocks p))"
    "p_Blocks p \<noteq> []"
    using compileBlocks_loop_accepted [OF l nb(1)] nb(2) by auto
qed

lemma domainName_not_Nil: "domainName d \<Longrightarrow> d \<noteq> []"
  by (simp add: domainName_def)

definition domain_ok :: "string \<Rightarrow> string \<Rightarrow> bool" where
  "domain_ok namespace domain \<longleftrightarrow> namespace \<noteq> [] \<and> length domain \<le> 63 \<and> domainName domain"

lemma Compile_cases:
  assumes "Compile namespace domain (Some p) = Some (snap, ps)"
  obtains (refused) "blocking ps" "sn_Blocks snap = []" "sn_DecisionBuckets snap = 0"
  | (accepted) env p0 p1 where "domain_ok namespace domain" "compileEnvironment domain (Some p) = (env, p0)"
    "compileBlocks namespace domain p env = Some (sn_Blocks snap, p1)" "ps = p0 @ p1" "\<not> blocking ps"
    "decisionBuckets (sn_Blocks snap) \<le> MaxDomainDecisionBuckets"
    "snap = \<lparr>sn_Domain = domain, sn_EffectiveKeys = effectiveKeys env, sn_Blocks = sn_Blocks snap,
       sn_Extraction = env_extraction env, sn_DecisionBuckets = decisionBuckets (sn_Blocks snap)\<rparr>"
proof (cases "domain_ok namespace domain")
  case False
  then show thesis
    using assms refused by (auto simp: Compile_def empty_snapshot_def domain_ok_def split: if_splits)
next
  case True
  then have guards: "(namespace = []) = False" "(63 < length domain \<or> \<not> domainName domain) = False"
    by (auto simp: domain_ok_def)
  obtain env p0 where e: "compileEnvironment domain (Some p) = (env, p0)" by fastforce
  note eq = assms [unfolded Compile_def guards if_False e Let_def prod.case option.case]
  then obtain cbs p1 where b: "compileBlocks namespace domain p env = Some (cbs, p1)"
    by (auto simp: bind_eq_Some_conv)
  note eq' = eq [unfolded b Option.bind.simps prod.case]
  show thesis
  proof (cases "blocking ps")
    case True
    then show thesis using eq' by (intro refused) (auto simp: empty_snapshot_def split: if_splits)
  next
    case False
    then show thesis
      using eq' b e \<open>domain_ok namespace domain\<close>
      by (intro accepted [of env p0 p1]) (auto simp: empty_snapshot_def split: if_splits)
  qed
qed

text \<open>
  What the rest of the engine relies on: distinct block and rule names, resolved modes and
  behaviors, checked windows under their key prefixes with distinct periods, default costs
  in range, and a worst case within the budget.
\<close>

definition c_rule_ok :: "string \<Rightarrow> string \<Rightarrow> string \<Rightarrow> c_rule \<Rightarrow> bool" where
  "c_rule_ok namespace domain bname cu \<longleftrightarrow>
     cu_Behavior cu \<in> {BehaviorEnforce, BehaviorShadow, BehaviorBypass} \<and>
     (cu_Rates cu = [] \<longleftrightarrow> cu_Behavior cu = BehaviorBypass) \<and>
     (\<forall>ct \<in> set (cu_Rates cu). Check (ct_Algorithm ct) (ct_Window ct) = None \<and>
        RatePrefix \<lparr>Namespace = namespace, Domain = domain, id_Block = bname, id_Rule = cu_Name cu\<rparr>
          (ct_Algorithm ct) (ct_Window ct) = Some (ct_Prefix ct)) \<and>
     distinct (map (Period \<circ> ct_Window) (cu_Rates cu))"

definition c_block_ok :: "string \<Rightarrow> string \<Rightarrow> c_block \<Rightarrow> bool" where
  "c_block_ok namespace domain cb \<longleftrightarrow>
     cb_Mode cb \<in> {ModeAll, ModeFirstMatch} \<and> distinct (map cu_Name (cb_Rules cb)) \<and>
     (\<forall>cu \<in> set (cb_Rules cb). c_rule_ok namespace domain (cb_Name cb) cu) \<and>
     (\<forall>cr \<in> set (cb_Routes cb). \<forall>c. cr_Cost cr = Some c \<longrightarrow>
        cc_Parameter c \<noteq> [] \<and> 1 \<le> cc_Default c \<and> cc_Default c \<le> MaxCost)"

definition snapshot_ok :: "string \<Rightarrow> snapshot \<Rightarrow> bool" where
  "snapshot_ok namespace snap \<longleftrightarrow>
     distinct (map cb_Name (sn_Blocks snap)) \<and>
     (\<forall>cb \<in> set (sn_Blocks snap). c_block_ok namespace (sn_Domain snap) cb) \<and>
     decisionBuckets (sn_Blocks snap) \<le> MaxDomainDecisionBuckets"

lemma rule_kept_ok:
  assumes "rule_kept namespace domain env b blockKeys r cu"
  shows "c_rule_ok namespace domain (b_Name b) cu"
proof -
  let ?i = "\<lparr>Namespace = namespace, Domain = domain, id_Block = b_Name b, id_Rule = ru_Name r\<rparr>"
  have rates: "list_all2 (rate_kept ?i) (ru_Rates r) (cu_Rates cu)" "distinct (map ra_Period (ru_Rates r))"
    and name: "cu_Name cu = ru_Name r"
    and beh: "cu_Behavior cu \<in> {BehaviorEnforce, BehaviorShadow, BehaviorBypass}"
      "cu_Rates cu = [] \<longleftrightarrow> cu_Behavior cu = BehaviorBypass"
    using assms unfolding rule_kept_def by blast+
  have "map (Period \<circ> ct_Window) (cu_Rates cu) = map ra_Period (ru_Rates r)"
    by (rule list_all2_map_eq [OF rates(1), symmetric]) (simp add: rate_kept_def resolved_window_def)
  moreover have "Check (ct_Algorithm ct) (ct_Window ct) = None \<and>
      RatePrefix ?i (ct_Algorithm ct) (ct_Window ct) = Some (ct_Prefix ct)" if "ct \<in> set (cu_Rates cu)" for ct
    using list_all2_right_mem [OF rates(1) that] by (auto simp: rate_kept_def)
  ultimately show ?thesis
    using beh rates(2) unfolding c_rule_ok_def name by simp
qed

lemma block_kept_ok:
  assumes "block_kept namespace domain env b cb"
  shows "c_block_ok namespace domain cb"
proof -
  let ?K = "rule_kept namespace domain env b (blockKeys_of env (cb_Captures cb))"
  have rules: "list_all2 ?K (b_Rules b) (cb_Rules cb)" "distinct (map ru_Name (b_Rules b))"
    and routes: "list_all2 route_kept (t_Routes (b_Target b)) (cb_Routes cb)"
    and name: "cb_Name cb = b_Name b" and mode: "cb_Mode cb \<in> {ModeAll, ModeFirstMatch}"
    using assms unfolding block_kept_def by blast+
  have "map cu_Name (cb_Rules cb) = map ru_Name (b_Rules b)"
    by (rule list_all2_map_eq [OF rules(1), symmetric]) (simp add: rule_kept_def)
  moreover have "c_rule_ok namespace domain (b_Name b) cu" if "cu \<in> set (cb_Rules cb)" for cu
    using list_all2_right_mem [OF rules(1) that] rule_kept_ok by blast
  moreover have "cc_Parameter c \<noteq> [] \<and> 1 \<le> cc_Default c \<and> cc_Default c \<le> MaxCost"
    if cr: "cr \<in> set (cb_Routes cb)" "cr_Cost cr = Some c" for cr c
  proof -
    obtain r where "route_kept r cr" using list_all2_right_mem [OF routes cr(1)] by blast
    with cr(2) show ?thesis
      by (auto simp: route_kept_def cost_kept_def costParameter_def split: option.splits)
  qed
  ultimately show ?thesis
    using mode rules(2) unfolding c_block_ok_def name by simp
qed

lemma Compile_snapshot_ok:
  assumes "Compile namespace domain p = Some (snap, ps)"
  shows "snapshot_ok namespace snap"
proof (cases p)
  case None
  then have "sn_Blocks snap = []"
    using assms by (auto simp: Compile_def empty_snapshot_def split: if_splits prod.splits)
  then show ?thesis by (simp add: snapshot_ok_def decisionBuckets_def)
next
  case (Some pol)
  from assms [unfolded Some] show ?thesis
  proof (cases rule: Compile_cases)
    case refused
    then show ?thesis by (simp add: snapshot_ok_def decisionBuckets_def)
  next
    case (accepted env p0 p1)
    have kept: "list_all2 (block_kept namespace domain env) (p_Blocks pol) (sn_Blocks snap)"
      "distinct (map b_Name (p_Blocks pol))"
      using compileBlocks_accepted [OF accepted(3)] accepted(4,5) by auto
    have "map cb_Name (sn_Blocks snap) = map b_Name (p_Blocks pol)"
      by (rule list_all2_map_eq [OF kept(1), symmetric]) (simp add: block_kept_def)
    moreover have "c_block_ok namespace domain cb" if "cb \<in> set (sn_Blocks snap)" for cb
      using list_all2_right_mem [OF kept(1) that] block_kept_ok by blast
    moreover have "sn_Domain snap = domain" by (subst accepted(7)) simp
    ultimately show ?thesis using kept(2) accepted(6) by (simp add: snapshot_ok_def)
  qed
qed

lemma Compile_defined: "\<exists>snap ps. Compile namespace domain p = Some (snap, ps)"
proof (cases "domain_ok namespace domain")
  case False
  then show ?thesis by (auto simp: Compile_def domain_ok_def)
next
  case True
  obtain env p0 where e: "compileEnvironment domain p = (env, p0)" by fastforce
  show ?thesis
  proof (cases p)
    case None
    then show ?thesis using e by (simp add: Compile_def Let_def)
  next
    case (Some pol)
    obtain cbs qs where "compileBlocks_loop namespace domain env [] (p_Blocks pol) = Some (cbs, qs)"
      using compileBlocks_loop_total [of namespace domain env "[]" "p_Blocks pol"] True domainName_not_Nil
      by (auto simp: domain_ok_def)
    then show ?thesis
      using e True by (simp add: Compile_def Some compileBlocks_def Let_def domain_ok_def)
  qed
qed

section \<open>A sample policy\<close>

definition sample_policy :: policy where
  "sample_policy =
     \<lparr>p_Domain = ''gw'',
      p_Mappings = [\<lparr>km_Key = ''plan'', km_Claim = ''ext.plan'', km_ClaimPath = [], km_Type = [],
        km_Normalization = [], km_Fallbacks = []\<rparr>],
      p_Groups = [\<lparr>g_Name = ''vip'', g_Values = [''gold'', ''silver'']\<rparr>],
      p_Blocks = [\<lparr>b_Name = ''orders'',
        b_Target = \<lparr>t_Routes = [\<lparr>r_Path = \<lparr>pm_Type = ''Template'', pm_Value = ''/orders/{orderId}''\<rparr>,
          r_Methods = [''GET''], r_Cost = Some \<lparr>rc_Source = ''QueryParameter'', rc_Name = ''n'', rc_Default = 2\<rparr>\<rparr>]\<rparr>,
        b_Mode = ''FirstMatch'',
        b_Rules = [
          \<lparr>ru_Name = ''trial'', ru_Matches = [], ru_Counters = [''sub''],
           ru_Rates = [\<lparr>ra_Requests = 5, ra_Period = 60000000000, ra_Burst = 0, ra_Algorithm = ''FixedWindow''\<rparr>],
           ru_Behavior = ''Shadow'', ru_ReplacedRules = []\<rparr>,
          \<lparr>ru_Name = ''vip'', ru_Matches = [\<lparr>pd_Key = ''plan'', pd_Operator = ''InGroup'', pd_Value = ''vip'', pd_Values = []\<rparr>],
           ru_Counters = [''sub'', ''orderId''],
           ru_Rates = [\<lparr>ra_Requests = 7, ra_Period = 60000000000, ra_Burst = 3, ra_Algorithm = []\<rparr>],
           ru_Behavior = [], ru_ReplacedRules = []\<rparr>]\<rparr>]\<rparr>"

definition sample_block :: c_block where
  "sample_block =
     \<lparr>cb_Name = ''orders'', cb_Mode = ''FirstMatch'',
      cb_Routes = [\<lparr>cr_Type = ''Template'', cr_Value = ''/orders/{orderId}'',
        cr_Segments = [\<lparr>sg_Literal = ''orders'', sg_Capture = []\<rparr>, \<lparr>sg_Literal = [], sg_Capture = ''orderId''\<rparr>],
        cr_Methods = [''GET''], cr_Cost = Some \<lparr>cc_Parameter = ''n'', cc_Default = 2\<rparr>\<rparr>],
      cb_Captures = [''orderId''],
      cb_Rules = [
        \<lparr>cu_Name = ''trial'', cu_Behavior = ''Shadow'', cu_Matches = [], cu_Counters = [''sub''],
         cu_Rates = [\<lparr>ct_Algorithm = fixedWindow, ct_Window = \<lparr>Requests = 5, Period = 60000000000, Burst = 0\<rparr>,
           ct_Prefix = ''rl:v1:{ns/gw}:orders/trial:fixedwindow:60:''\<rparr>],
         cu_ReplacedRules = []\<rparr>,
        \<lparr>cu_Name = ''vip'', cu_Behavior = ''Enforce'',
         cu_Matches = [\<lparr>cp_Key = ''plan'', cp_Operator = ''InGroup'', cp_Value = ''vip'',
           cp_Values = [''silver'', ''gold'']\<rparr>],
         cu_Counters = [''sub'', ''orderId''],
         cu_Rates = [\<lparr>ct_Algorithm = gcra, ct_Window = \<lparr>Requests = 7, Period = 60000000000, Burst = 3\<rparr>,
           ct_Prefix = ''rl:v1:{ns/gw}:orders/vip:gcra:60:''\<rparr>],
         cu_ReplacedRules = []\<rparr>]\<rparr>"

definition sample_snapshot :: snapshot where
  "sample_snapshot =
     \<lparr>sn_Domain = ''gw'', sn_EffectiveKeys = [''method'', ''path'', ''plan'', ''sub''], sn_Blocks = [sample_block],
      sn_Extraction = [builtinSub, \<lparr>ke_Key = ''plan'', ke_Path = [''ext'', ''plan''], ke_Type = ''String'',
        ke_Normalization = ''None'', ke_Fallbacks = []\<rparr>],
      sn_DecisionBuckets = 2\<rparr>"

lemma sample_compiled: "Compile ''ns'' ''gw'' (Some sample_policy) = Some (sample_snapshot, [])"
  by code_simp

section \<open>Properties\<close>

text \<open>C19. Compilation always answers: no policy, namespace or domain makes it panic, and every
  snapshot it returns, of a valid generation or not, satisfies the invariant the request
  path relies on: unique block and rule names, resolved modes and behaviors, windows
  \<open>Check\<close> accepts under the key prefix of their rule, unique periods within a rule, default
  costs between 1 and the maximum, and a worst case within the bucket budget.\<close>

theorem Compile_total_invariant:
  "\<exists>snap problems. Compile namespace domain p = Some (snap, problems) \<and> snapshot_ok namespace snap"
  using Compile_defined [of namespace domain p] Compile_snapshot_ok by blast

text \<open>C18. A generation compiles whole or not at all. With a blocking problem the snapshot
  carries no block. Without one it carries every block, route, rule, predicate and rate of
  the policy, in authored order, with nothing dropped: each under its own name, with its
  defaults resolved and its group values in place.\<close>

theorem Compile_all_or_nothing:
  assumes "Compile namespace domain (Some p) = Some (snap, problems)"
  shows "if blocking problems then sn_Blocks snap = [] \<and> sn_DecisionBuckets snap = 0
    else \<exists>env. fst (compileEnvironment domain (Some p)) = env \<and> sn_Extraction snap = env_extraction env \<and>
      sn_EffectiveKeys snap = effectiveKeys env \<and>
      list_all2 (block_kept namespace domain env) (p_Blocks p) (sn_Blocks snap) \<and>
      sn_DecisionBuckets snap = decisionBuckets (sn_Blocks snap)"
  using assms
proof (cases rule: Compile_cases)
  case (accepted env p0 p1)
  have "list_all2 (block_kept namespace domain env) (p_Blocks p) (sn_Blocks snap)"
    using compileBlocks_accepted [OF accepted(3)] accepted(4,5) by auto
  moreover have "sn_Extraction snap = env_extraction env" "sn_EffectiveKeys snap = effectiveKeys env"
    "sn_DecisionBuckets snap = decisionBuckets (sn_Blocks snap)"
    by (subst accepted(7), simp)+
  ultimately show ?thesis using accepted(2,5) by simp
qed simp

theorem Compile_all_or_nothing_witness:
  "\<exists>env. sn_Extraction sample_snapshot = env_extraction env \<and>
     list_all2 (block_kept ''ns'' ''gw'' env) (p_Blocks sample_policy) (sn_Blocks sample_snapshot)"
  using Compile_all_or_nothing [OF sample_compiled] by auto

end
