(* ===== verification/Match.thy ===== *)
theory Match
  imports Compile Store_Contract
begin

text \<open>
  Matching a request against a snapshot (\<open>engine/match\<close>): the target phase over path and
  method, the cost a route reads from the query string, and the rule phase that expands the
  rules of every targeted block into buckets. A pointer into the snapshot is the value it
  points to. \<open>None\<close> is the panic of indexing an empty value list.
\<close>

section \<open>Query costs\<close>

definition fromHex :: "char \<Rightarrow> nat option" where
  "fromHex c =
     (if isDigit c then Some (of_char c - 48)
      else if CHR ''a'' \<le> c \<and> c \<le> CHR ''f'' then Some (of_char c - 97 + 10)
      else if CHR ''A'' \<le> c \<and> c \<le> CHR ''F'' then Some (of_char c - 65 + 10)
      else None)"

text \<open>\<open>url.QueryUnescape\<close>; \<open>None\<close> is its error on a malformed escape.\<close>

fun QueryUnescape :: "string \<Rightarrow> string option" where
  "QueryUnescape [] = Some []"
| "QueryUnescape (c # s) =
     (if c = CHR ''%'' then
        (case s of
           h # l # r \<Rightarrow>
             (case (fromHex h, fromHex l) of
                (Some hi, Some lo) \<Rightarrow> map_option (\<lambda>t. char_of (16 * hi + lo) # t) (QueryUnescape r)
              | _ \<Rightarrow> None)
         | _ \<Rightarrow> None)
      else map_option (\<lambda>t. (if c = CHR ''+'' then CHR '' '' else c) # t) (QueryUnescape s))"

definition unescape :: "string \<Rightarrow> string" where
  "unescape s =
     (if \<not> ContainsAny s ''%+'' then s
      else case QueryUnescape s of Some decoded \<Rightarrow> decoded | None \<Rightarrow> [])"

fun positiveInteger_loop :: "int \<Rightarrow> string \<Rightarrow> int option" where
  "positiveInteger_loop n [] = Some n"
| "positiveInteger_loop n (d # s) =
     (if d < CHR ''0'' \<or> d > CHR ''9'' then None
      else positiveInteger_loop
        (min (add64 (mul64 n 10) (int (of_char d - 48))) (MaxCost + 1)) s)"

definition positiveInteger :: "string \<Rightarrow> int" where
  "positiveInteger s =
     (if s = [] then 0
      else case positiveInteger_loop 0 s of None \<Rightarrow> 0 | Some n \<Rightarrow> min n MaxCost)"

function queryCost_loop :: "c_cost \<Rightarrow> bool \<Rightarrow> int \<Rightarrow> string \<Rightarrow> bool \<times> int" where
  "queryCost_loop cost found largest query =
     (if query = [] then (found, largest)
      else
        let (pair, query', _) = Cut query (CHR ''&''); (name, val, _) = Cut pair (CHR ''='') in
        if unescape name \<noteq> cc_Parameter cost then queryCost_loop cost found largest query'
        else
          let n = positiveInteger (unescape val); occurrence = (if n = 0 then cc_Default cost else n)
          in queryCost_loop cost True (max largest occurrence) query')"
  by pat_completeness auto
termination
  by (relation "measure (\<lambda>(cost, found, largest, query). length query)")
    (auto intro: Cut_shorter [OF _ sym])

definition queryCost :: "c_cost \<Rightarrow> string \<Rightarrow> int" where
  "queryCost cost query =
     (case queryCost_loop cost False 0 query of (found, largest) \<Rightarrow>
        if \<not> found then cc_Default cost else largest)"

section \<open>The target phase\<close>

definition matchPrefix :: "string \<Rightarrow> string \<Rightarrow> bool" where
  "matchPrefix val path =
     (if \<not> HasPrefix path val then False
      else length path = length val \<or> HasSuffix val ''/'' \<or> path ! length val = CHR ''/'')"

fun matchSegments :: "segment list \<Rightarrow> string list \<Rightarrow> string gomap \<Rightarrow> string gomap option" where
  "matchSegments (s # ss) (part # parts) captures =
     (if sg_Capture s = [] then
        if part \<noteq> sg_Literal s then None else matchSegments ss parts captures
      else if part = [] then None
      else matchSegments ss parts (AList.update (sg_Capture s) part captures))"
| "matchSegments [] [] captures = Some captures"
| "matchSegments _ _ captures = None"

definition matchTemplate :: "segment list \<Rightarrow> string \<Rightarrow> string gomap option" where
  "matchTemplate segments path =
     (if \<not> HasPrefix path ''/'' then None
      else
        let parts = Split (tl path) (CHR ''/'')
        in if length parts \<noteq> length segments then None else matchSegments segments parts [])"

definition matchPath :: "c_route \<Rightarrow> string \<Rightarrow> string gomap option" where
  "matchPath route path =
     (if cr_Type route = PathExact then (if path = cr_Value route then Some [] else None)
      else if cr_Type route = PathPrefix then (if matchPrefix (cr_Value route) path then Some [] else None)
      else if cr_Type route = PathTemplate then matchTemplate (cr_Segments route) path
      else None)"

fun matchTarget_loop :: "string \<Rightarrow> string \<Rightarrow> c_route list \<Rightarrow> (c_route option \<times> string \<times> string gomap) option" where
  "matchTarget_loop path method [] = None"
| "matchTarget_loop path method (route # routes) =
     (if cr_Methods route \<noteq> [] \<and> method \<notin> set (cr_Methods route) then matchTarget_loop path method routes
      else case matchPath route path of
        None \<Rightarrow> matchTarget_loop path method routes
      | Some captures \<Rightarrow>
          Some (Some route, if cr_Type route = PathTemplate then cr_Value route else path, captures))"

definition matchTarget ::
  "c_block \<Rightarrow> string \<Rightarrow> string \<Rightarrow> (c_route option \<times> string \<times> string gomap) option" where
  "matchTarget block path method =
     (if cb_Routes block = [] then Some (None, path, [])
      else matchTarget_loop path method (cb_Routes block))"

record hit =
  h_block :: c_block
  h_pathAxis :: string
  h_captures :: "string gomap"
  h_cost :: int

record candidates =
  cd_method :: string
  cd_hits :: "hit list"

definition matchBlock :: "string \<Rightarrow> string \<Rightarrow> string \<Rightarrow> c_block \<Rightarrow> hit option" where
  "matchBlock path query method block =
     (case matchTarget block path method of
        None \<Rightarrow> None
      | Some (route, pathAxis, captures) \<Rightarrow>
          Some \<lparr>h_block = block, h_pathAxis = pathAxis, h_captures = captures,
                h_cost = (case route of
                   Some r \<Rightarrow> (case cr_Cost r of Some c \<Rightarrow> queryCost c query | None \<Rightarrow> 0)
                 | None \<Rightarrow> 0)\<rparr>)"

definition Match :: "snapshot \<Rightarrow> string \<Rightarrow> string \<Rightarrow> candidates" where
  "Match snap path method =
     (case Cut path (CHR ''?'') of (path', query, _) \<Rightarrow>
        \<lparr>cd_method = method, cd_hits = List.map_filter (matchBlock path' query method) (sn_Blocks snap)\<rparr>)"

definition Empty :: "candidates \<Rightarrow> bool" where
  "Empty c \<longleftrightarrow> length (cd_hits c) = 0"

definition Blocks :: "candidates \<Rightarrow> c_block list" where
  "Blocks c = map h_block (cd_hits c)"

section \<open>Targets under any method\<close>

record match_target =
  mt_Block :: c_block
  mt_Captures :: "string gomap"
  mt_Undecided :: "string list"

definition Targets :: "candidates \<Rightarrow> match_target list" where
  "Targets c = map (\<lambda>h. \<lparr>mt_Block = h_block h, mt_Captures = h_captures h, mt_Undecided = []\<rparr>) (cd_hits c)"

record decider_state =
  ds_deciders :: nat
  ds_claimed :: "string list"
  ds_values :: "string gomap"
  ds_produced :: "nat gomap"
  ds_conflict :: "string list"

definition gm_count :: "nat gomap \<Rightarrow> string \<Rightarrow> nat" where
  "gm_count m k = (case map_of m k of Some n \<Rightarrow> n | None \<Rightarrow> 0)"

definition note_capture :: "string \<times> string \<Rightarrow> decider_state \<Rightarrow> decider_state" where
  "note_capture nv s =
     (case nv of (name, val) \<Rightarrow>
        s\<lparr>ds_conflict := (case map_of (ds_values s) name of
             Some previous \<Rightarrow> if previous \<noteq> val then List.insert name (ds_conflict s) else ds_conflict s
           | None \<Rightarrow> ds_conflict s),
          ds_values := AList.update name val (ds_values s),
          ds_produced := AList.update name (Suc (gm_count (ds_produced s) name)) (ds_produced s)\<rparr>)"

fun targetByPath_loop :: "string \<Rightarrow> decider_state \<Rightarrow> c_route list \<Rightarrow> decider_state" where
  "targetByPath_loop path s [] = s"
| "targetByPath_loop path s (route # routes) =
     (case matchPath route path of
        None \<Rightarrow> targetByPath_loop path s routes
      | Some captures \<Rightarrow>
          let fresh = filter (\<lambda>m. m \<notin> set (ds_claimed s)) (cr_Methods route);
              s1 = s\<lparr>ds_claimed := ds_claimed s @ fresh\<rparr>
          in if cr_Methods route \<noteq> [] \<and> fresh = [] then targetByPath_loop path s1 routes
             else
               let s2 = fold note_capture captures (s1\<lparr>ds_deciders := Suc (ds_deciders s1)\<rparr>)
               in if cr_Methods route = [] then s2 else targetByPath_loop path s2 routes)"

definition no_deciders :: decider_state where
  "no_deciders = \<lparr>ds_deciders = 0, ds_claimed = [], ds_values = [], ds_produced = [], ds_conflict = []\<rparr>"

definition decided :: "decider_state \<Rightarrow> string \<Rightarrow> bool" where
  "decided s name \<longleftrightarrow> gm_count (ds_produced s) name = ds_deciders s \<and> name \<notin> set (ds_conflict s)"

definition targetByPath :: "c_block \<Rightarrow> string \<Rightarrow> match_target option" where
  "targetByPath block path =
     (if cb_Routes block = [] then Some \<lparr>mt_Block = block, mt_Captures = [], mt_Undecided = []\<rparr>
      else
        let s = targetByPath_loop path no_deciders (cb_Routes block) in
        if ds_deciders s = 0 then None
        else Some \<lparr>mt_Block = block,
          mt_Captures = List.map_filter (\<lambda>name. if decided s name
             then map_option (Pair name) (map_of (ds_values s) name) else None) (cb_Captures block),
          mt_Undecided = filter (\<lambda>name. \<not> decided s name \<and> gm_count (ds_produced s) name \<noteq> 0) (cb_Captures block)\<rparr>)"

definition TargetsByPath :: "snapshot \<Rightarrow> string \<Rightarrow> match_target list" where
  "TargetsByPath snap path =
     List.map_filter (\<lambda>block. targetByPath block (fst (Cut path (CHR ''?'')))) (sn_Blocks snap)"

definition BlocksByPath :: "snapshot \<Rightarrow> string \<Rightarrow> c_block list" where
  "BlocksByPath snap path = map mt_Block (TargetsByPath snap path)"

section \<open>The rule phase\<close>

record block_ctx =
  bc_method :: string
  bc_keys :: "string list gomap"
  bc_pathAxis :: string
  bc_captures :: "string gomap"
  bc_cost :: int

record matched_rule =
  mr_Block :: string
  mr_Rule :: string
  mr_Shadow :: bool
  mr_Cost :: int
  mr_Buckets :: "bucket list"

definition valueOf :: "block_ctx \<Rightarrow> string \<Rightarrow> string list" where
  "valueOf c k =
     (if k = KeyPath then [bc_pathAxis c]
      else if k = KeyMethod then [bc_method c]
      else case map_of (bc_captures c) k of
        Some v \<Rightarrow> [v]
      | None \<Rightarrow> (case map_of (bc_keys c) k of Some vs \<Rightarrow> vs | None \<Rightarrow> []))"

definition predicateHolds :: "c_predicate \<Rightarrow> block_ctx \<Rightarrow> bool" where
  "predicateHolds c ctx =
     (let vs = valueOf ctx (cp_Key c); op = cp_Operator c in
      if op = OperatorEquals then vs = [cp_Value c]
      else if op = OperatorIn \<or> op = OperatorInGroup then list_ex (\<lambda>v. v \<in> set (cp_Values c)) vs
      else if op = OperatorContains then cp_Value c \<in> set vs
      else if op = OperatorExists then vs \<noteq> []
      else if op = OperatorDoesNotExist then vs = []
      else False)"

definition ruleMatches :: "c_rule \<Rightarrow> block_ctx \<Rightarrow> bool" where
  "ruleMatches rule ctx \<longleftrightarrow>
     list_all (\<lambda>p. predicateHolds p ctx) (cu_Matches rule) \<and>
     list_all (\<lambda>axis. length (valueOf ctx axis) = 1) (cu_Counters rule)"

definition axis_value :: "block_ctx \<Rightarrow> string \<Rightarrow> string option" where
  "axis_value ctx axis = (case valueOf ctx axis of v # _ \<Rightarrow> Some v | [] \<Rightarrow> None)"

definition matchedRule :: "c_block \<Rightarrow> c_rule \<Rightarrow> block_ctx \<Rightarrow> matched_rule option" where
  "matchedRule block rule ctx = do {
     axes \<leftarrow> those (map (axis_value ctx) (cu_Counters rule));
     let shadow = (cu_Behavior rule = BehaviorShadow);
     Some \<lparr>mr_Block = cb_Name block, mr_Rule = cu_Name rule, mr_Shadow = shadow, mr_Cost = bc_cost ctx,
           mr_Buckets = map (\<lambda>rate.
             \<lparr>bk_Key = Bucket (ct_Prefix rate) axes, bk_Algorithm = alg_ID (ct_Algorithm rate),
              bk_Window = ct_Window rate, bk_Shadow = shadow, bk_Cost = bc_cost ctx\<rparr>) (cu_Rates rule)\<rparr>
   }"

fun evalFirstMatch :: "c_block \<Rightarrow> block_ctx \<Rightarrow> c_rule list \<Rightarrow> matched_rule list option" where
  "evalFirstMatch block ctx [] = Some []"
| "evalFirstMatch block ctx (rule # rules) =
     (if \<not> ruleMatches rule ctx then evalFirstMatch block ctx rules
      else if cu_Behavior rule = BehaviorBypass then Some []
      else do {
        m \<leftarrow> matchedRule block rule ctx;
        if cu_Behavior rule \<noteq> BehaviorShadow then Some [m]
        else map_option ((#) m) (evalFirstMatch block ctx rules)
      })"

text \<open>The loop of \<open>evalAll\<close>: the applied rules and the names they suppress.\<close>

fun evalAll_loop :: "c_block \<Rightarrow> block_ctx \<Rightarrow> c_rule list \<Rightarrow> (matched_rule list \<times> string list) option" where
  "evalAll_loop block ctx [] = Some ([], [])"
| "evalAll_loop block ctx (rule # rules) =
     (if \<not> ruleMatches rule ctx then evalAll_loop block ctx rules
      else do {
        out \<leftarrow> (if cu_Behavior rule \<noteq> BehaviorBypass
                then map_option (\<lambda>m. [m]) (matchedRule block rule ctx) else Some []);
        let sup = (if cu_Behavior rule = BehaviorShadow then [] else cu_ReplacedRules rule);
        (outs, sups) \<leftarrow> evalAll_loop block ctx rules;
        Some (out @ outs, sup @ sups)
      })"

definition evalAll_match :: "c_block \<Rightarrow> block_ctx \<Rightarrow> matched_rule list option" where
  "evalAll_match block ctx = do {
     (out, suppressed) \<leftarrow> evalAll_loop block ctx (cb_Rules block);
     Some (if suppressed = [] then out else filter (\<lambda>m. mr_Rule m \<notin> set suppressed) out)
   }"

definition evalBlock :: "c_block \<Rightarrow> block_ctx \<Rightarrow> matched_rule list option" where
  "evalBlock block ctx =
     (if cb_Mode block = ModeFirstMatch then evalFirstMatch block ctx (cb_Rules block)
      else evalAll_match block ctx)"

definition hit_ctx :: "candidates \<Rightarrow> string list gomap \<Rightarrow> int \<Rightarrow> hit \<Rightarrow> block_ctx" where
  "hit_ctx c keys cost h =
     \<lparr>bc_method = cd_method c, bc_keys = keys, bc_pathAxis = h_pathAxis h, bc_captures = h_captures h,
      bc_cost = (if h_cost h = 0 then cost else h_cost h)\<rparr>"

definition Evaluate :: "candidates \<Rightarrow> string list gomap \<Rightarrow> int \<Rightarrow> matched_rule list option" where
  "Evaluate c keys cost =
     map_option concat (those (map (\<lambda>h. evalBlock (h_block h) (hit_ctx c keys cost h)) (cd_hits c)))"

definition Buckets :: "matched_rule list \<Rightarrow> bucket list" where
  "Buckets rules = concat (map mr_Buckets rules)"

end
