(* ===== verification/Match_Target.thy ===== *)
theory Match_Target
  imports Match
begin

text \<open>
  What the target phase of \<open>engine/match\<close> computes: the cost read from a query string, the
  paths a prefix and a template cover, and the agreement of the any-method view of a block
  with the decision for each single method.
\<close>

section \<open>Costs\<close>


definition decimal :: "string \<Rightarrow> int" where
  "decimal s = foldl (\<lambda>n d. n * 10 + int (of_char d - 48)) 0 s"

lemma digit_range: "isDigit d \<Longrightarrow> 0 \<le> int (of_char d - 48) \<and> int (of_char d - 48) \<le> 9"
  by (auto simp: isDigit_def less_eq_char_def)

lemma not_digit: "d < CHR ''0'' \<or> d > CHR ''9'' \<longleftrightarrow> \<not> isDigit d"
  by (auto simp: isDigit_def)

lemma capped_step:
  fixes n m d :: int
  assumes "0 \<le> d" "d \<le> 9" "0 \<le> n" "m = min n 1000000001"
  shows "min (m * 10 + d) 1000000001 = min (n * 10 + d) 1000000001"
  using assms by (cases "n \<le> 1000000001") auto

lemma positiveInteger_loop_spec:
  assumes "0 \<le> n" "m = min n (MaxCost + 1)"
  shows "positiveInteger_loop m s =
    (if list_all isDigit s then Some (min (foldl (\<lambda>n d. n * 10 + int (of_char d - 48)) n s) (MaxCost + 1))
     else None)"
  using assms
proof (induction s arbitrary: n m)
  case (Cons d s)
  show ?case
  proof (cases "isDigit d")
    case True
    define k where "k = int (of_char d - 48 :: nat)"
    have k: "0 \<le> k" "k \<le> 9" using digit_range [OF True] by (auto simp: k_def)
    have m: "0 \<le> m" "m \<le> 1000000001" using Cons.prems by (auto simp: MaxCost_def)
    then have "add64 (mul64 m 10) k = m * 10 + k"
      using k by (subst mul64_id, simp add: in64_def, subst add64_id) (auto simp: in64_def)
    moreover have "min (m * 10 + k) (MaxCost + 1) = min (n * 10 + k) (MaxCost + 1)"
      using capped_step [OF k Cons.prems(1), of m] Cons.prems(2) by (simp add: MaxCost_def)
    ultimately show ?thesis
      using True Cons.IH [of "n * 10 + k" "min (n * 10 + k) (MaxCost + 1)"] Cons.prems(1) k not_digit [of d]
      by (simp add: k_def [symmetric])
  next
    case False
    then show ?thesis using not_digit [of d] by simp
  qed
qed simp

lemma positiveInteger_spec:
  "positiveInteger s = (if s \<noteq> [] \<and> list_all isDigit s then min (decimal s) MaxCost else 0)"
  using positiveInteger_loop_spec [of 0 0 s]
  by (auto simp: positiveInteger_def decimal_def MaxCost_def)

lemma decimal_nonneg: "list_all isDigit s \<Longrightarrow> 0 \<le> decimal s"
proof -
  have "0 \<le> n \<Longrightarrow> list_all isDigit s \<Longrightarrow> 0 \<le> foldl (\<lambda>n d. n * 10 + int (of_char d - 48)) n s" for n
    by (induction s arbitrary: n) auto
  then show "list_all isDigit s \<Longrightarrow> 0 \<le> decimal s" by (simp add: decimal_def)
qed

lemma positiveInteger_range: "0 \<le> positiveInteger s" "positiveInteger s \<le> MaxCost"
  using decimal_nonneg [of s] by (auto simp: positiveInteger_spec MaxCost_def)

text \<open>The cost of each occurrence of the parameter, in the order of the query string.\<close>

definition occurrence :: "c_cost \<Rightarrow> string \<Rightarrow> int option" where
  "occurrence cost pair =
     (case Cut pair (CHR ''='') of (name, val, _) \<Rightarrow>
        if unescape name = cc_Parameter cost
        then Some (let n = positiveInteger (unescape val) in if n = 0 then cc_Default cost else n)
        else None)"

definition occurrences :: "c_cost \<Rightarrow> string \<Rightarrow> int list" where
  "occurrences cost query = List.map_filter (occurrence cost) (Split query (CHR ''&''))"

lemma unescape_Nil [simp]: "unescape [] = []"
  by (simp add: unescape_def ContainsAny_def)

lemma occurrence_Nil: "cc_Parameter cost \<noteq> [] \<Longrightarrow> occurrence cost [] = None"
  by (simp add: occurrence_def)

lemma Split_Cut: "Cut s c = (b, a, True) \<Longrightarrow> Split s c = b # Split a c"
  using Cut_found [of s c b a] by (simp add: Split_append)

declare queryCost_loop.simps [simp del]

lemma queryCost_loop_spec:
  "cc_Parameter cost \<noteq> [] \<Longrightarrow>
   queryCost_loop cost found largest query =
     (found \<or> occurrences cost query \<noteq> [], foldl max largest (occurrences cost query))"
proof (induction cost found largest query rule: queryCost_loop.induct)
  case (1 cost found largest query)
  show ?case
  proof (cases "query = []")
    case True
    then show ?thesis using 1(3) by (simp add: queryCost_loop.simps [of _ _ _ "[]"] occurrences_def occurrence_Nil map_filter_simps)
  next
    case False
    obtain pair rest f where cut: "Cut query (CHR ''&'') = (pair, rest, f)" using prod_cases3 by blast
    obtain name val g where cut2: "Cut pair (CHR ''='') = (name, val, g)" using prod_cases3 by blast
    have occ: "occurrences cost query =
        (case occurrence cost pair of None \<Rightarrow> occurrences cost rest | Some n \<Rightarrow> n # occurrences cost rest)"
    proof (cases f)
      case True
      then show ?thesis
        using Split_Cut [of query "CHR ''&''" pair rest] cut
        by (simp add: occurrences_def map_filter_simps split: option.split)
    next
      case False
      then have "pair = query" "rest = []" "CHR ''&'' \<notin> set query"
        using Cut_not_found [of query "CHR ''&''" pair rest] cut by auto
      then show ?thesis
        using 1(3) by (simp add: occurrences_def map_filter_simps occurrence_Nil Split_single split: option.split)
    qed
    show ?thesis
    proof (cases "unescape name = cc_Parameter cost")
      case True
      then show ?thesis
        using False 1(2) [OF False cut [symmetric] refl refl cut2 [symmetric] refl refl _ refl refl 1(3)]
        by (subst queryCost_loop.simps) (simp add: cut cut2 occ occurrence_def Let_def)
    next
      case neq: False
      then show ?thesis
        using False 1(1) [OF False cut [symmetric] refl refl cut2 [symmetric] refl refl _ 1(3)]
        by (subst queryCost_loop.simps) (simp add: cut cut2 occ occurrence_def)
    qed
  qed
qed

lemma queryCost_spec:
  assumes "cc_Parameter cost \<noteq> []"
  shows "queryCost cost query =
    (if occurrences cost query = [] then cc_Default cost else foldl max 0 (occurrences cost query))"
  by (simp add: queryCost_def queryCost_loop_spec [OF assms])

lemma occurrence_range:
  assumes "1 \<le> cc_Default cost" "cc_Default cost \<le> MaxCost" "n \<in> set (occurrences cost query)"
  shows "1 \<le> n \<and> n \<le> MaxCost"
proof -
  obtain pair where occ: "occurrence cost pair = Some n"
    using assms(3) by (auto simp: occurrences_def map_filter_mem)
  obtain name val f where "Cut pair (CHR ''='') = (name, val, f)" using prod_cases3 by blast
  with occ show ?thesis
    using assms(1,2) positiveInteger_range [of "unescape val"]
    by (auto simp: occurrence_def Let_def split: if_splits)
qed

lemma foldl_max: "foldl max a xs = Max (set (a # xs) :: int set)"
  unfolding Max.set_eq_fold foldl_conv_fold by (simp add: max.commute)

lemma queryCost_range:
  assumes "cc_Parameter cost \<noteq> []" "1 \<le> cc_Default cost" "cc_Default cost \<le> MaxCost"
  shows "1 \<le> queryCost cost query \<and> queryCost cost query \<le> MaxCost \<and>
    queryCost cost query =
      (if occurrences cost query = [] then cc_Default cost else Max (set (occurrences cost query)))"
proof (cases "occurrences cost query")
  case Nil
  then show ?thesis using assms by (simp add: queryCost_spec)
next
  case (Cons n ns)
  have range: "\<forall>k \<in> set (n # ns). 1 \<le> k \<and> k \<le> MaxCost"
    using occurrence_range [OF assms(2,3), of _ query] Cons by auto
  have "foldl max 0 (n # ns) = Max (set (n # ns))"
    using range foldl_max [of "max 0 n" ns] by (simp add: max_def)
  moreover have "Max (set (n # ns)) \<in> set (n # ns)" by (rule Max_in) auto
  ultimately show ?thesis
    using range Cons by (auto simp: queryCost_spec [OF assms(1)])
qed

section \<open>Prefix routes\<close>

lemma matchPrefix_spec:
  "matchPrefix val path \<longleftrightarrow>
     path = val \<or> HasSuffix val ''/'' \<and> HasPrefix path val \<or> HasPrefix path (val @ ''/'')"
proof (cases "HasPrefix path val")
  case True
  then obtain r where "path = val @ r" by (auto simp: HasPrefix_iff)
  then show ?thesis by (cases r) (auto simp: matchPrefix_def HasPrefix_iff)
next
  case False
  then show ?thesis by (auto simp: matchPrefix_def HasPrefix_iff)
qed

section \<open>Template routes\<close>

text \<open>A template with its placeholders filled in.\<close>

definition fill :: "(string \<rightharpoonup> string) \<Rightarrow> segment \<Rightarrow> string" where
  "fill v sg = (if sg_Capture sg = [] then sg_Literal sg else (case v (sg_Capture sg) of Some x \<Rightarrow> x | None \<Rightarrow> []))"

definition fillable :: "segment list \<Rightarrow> (string \<rightharpoonup> string) \<Rightarrow> bool" where
  "fillable sgs v \<longleftrightarrow> dom v = set (seg_captures sgs) \<and> (\<forall>x \<in> ran v. x \<noteq> [] \<and> CHR ''/'' \<notin> set x)"

lemma matchSegments_captures:
  assumes "matchSegments sgs parts captures = Some res" "distinct (seg_captures sgs)"
    "dom (map_of captures) \<inter> set (seg_captures sgs) = {}"
  shows "parts = map (fill (map_of res)) sgs \<and> dom (map_of res) = dom (map_of captures) \<union> set (seg_captures sgs) \<and>
    (\<forall>k \<in> dom (map_of captures). map_of res k = map_of captures k) \<and>
    (\<forall>k \<in> set (seg_captures sgs). map_of res k \<noteq> Some [] \<and> (\<exists>p \<in> set parts. map_of res k = Some p))"
  using assms
proof (induction sgs parts captures rule: matchSegments.induct)
  case (1 s ss part parts captures)
  show ?case
  proof (cases "sg_Capture s = []")
    case True
    then show ?thesis using 1 by (auto simp: fill_def split: if_splits)
  next
    case False
    define c where "c = AList.update (sg_Capture s) part captures"
    have mc: "map_of c = (map_of captures)(sg_Capture s \<mapsto> part)" by (simp add: c_def)
    have dom_c: "dom (map_of c) = insert (sg_Capture s) (dom (map_of captures))" unfolding mc by simp
    have ne: "part \<noteq> []" and m: "matchSegments ss parts c = Some res"
      using 1(3) False by (auto simp: c_def split: if_splits)
    have d: "distinct (seg_captures ss)" "dom (map_of c) \<inter> set (seg_captures ss) = {}"
      using 1(4,5) False unfolding dom_c by auto
    note IH = 1(2) [OF False ne, folded c_def, OF m d]
    note keep = IH [THEN conjunct2, THEN conjunct2, THEN conjunct1, rule_format, unfolded dom_c mc]
    have here: "map_of res (sg_Capture s) = Some part" using keep [of "sg_Capture s"] by simp
    have old: "map_of res k = map_of captures k" if "k \<in> dom (map_of captures)" for k
    proof -
      have "k \<noteq> sg_Capture s" using 1(5) False that by auto
      then show ?thesis using keep [of k] that by simp
    qed
    have "map (fill (map_of res)) (s # ss) = part # parts" using IH False here by (simp add: fill_def)
    moreover have "dom (map_of res) = dom (map_of captures) \<union> set (seg_captures (s # ss))"
      using IH False unfolding dom_c by simp
    ultimately show ?thesis using IH False ne here old by (simp only: seg_captures_simps) auto
  qed
qed auto

lemma matchSegments_fill:
  assumes "distinct (seg_captures sgs)" "dom (map_of captures) \<inter> set (seg_captures sgs) = {}"
    and "\<forall>k \<in> set (seg_captures sgs). \<exists>x. v k = Some x \<and> x \<noteq> []"
  shows "\<exists>res. matchSegments sgs (map (fill v) sgs) captures = Some res \<and>
    map_of res = map_of captures ++ (v |` set (seg_captures sgs))"
  using assms
proof (induction sgs arbitrary: captures)
  case (Cons s sgs)
  show ?case
  proof (cases "sg_Capture s = []")
    case True
    then show ?thesis using Cons by (simp add: fill_def)
  next
    case False
    then obtain x where x: "v (sg_Capture s) = Some x" "x \<noteq> []" using Cons.prems(3) by auto
    define c where "c = AList.update (sg_Capture s) x captures"
    have mc: "map_of c = (map_of captures)(sg_Capture s \<mapsto> x)" by (simp add: c_def)
    have "dom (map_of c) \<inter> set (seg_captures sgs) = {}"
      using Cons.prems(1,2) False unfolding mc by auto
    from Cons.IH [OF _ this] Cons.prems(1,3) False obtain res where
      res: "matchSegments sgs (map (fill v) sgs) c = Some res" "map_of res = map_of c ++ (v |` set (seg_captures sgs))"
      by auto
    have "map_of c ++ (v |` set (seg_captures sgs)) = map_of captures ++ (v |` set (seg_captures (s # sgs)))"
      using False x Cons.prems(1,2) unfolding mc
      by (auto simp: map_add_def restrict_map_def fun_eq_iff split: option.splits)
    moreover have "fill v s = x" using False x by (simp add: fill_def)
    ultimately show ?thesis using False x res by (simp add: c_def)
  qed
qed simp

lemma matchSegments_length: "matchSegments sgs parts c = Some res \<Longrightarrow> length parts = length sgs"
  by (induction sgs parts c rule: matchSegments.induct) (auto split: if_splits)

lemma matchTemplate_iff:
  assumes ok: "template_ok sgs"
  shows "(\<exists>caps. matchTemplate sgs path = Some caps \<and> map_of caps = v) \<longleftrightarrow>
    fillable sgs v \<and> path = ''/'' @ Join (map (fill v) sgs) (CHR ''/'')"
proof
  assume "\<exists>caps. matchTemplate sgs path = Some caps \<and> map_of caps = v"
  then obtain caps where path: "HasPrefix path ''/''"
    and m: "matchSegments sgs (Split (tl path) (CHR ''/'')) [] = Some caps" and v: "map_of caps = v"
    by (auto simp: matchTemplate_def Let_def split: if_splits)
  note c = matchSegments_captures [OF m, unfolded v]
  have "distinct (seg_captures sgs)" using ok by (simp add: template_ok_def)
  then have parts: "Split (tl path) (CHR ''/'') = map (fill v) sgs" "dom v = set (seg_captures sgs)"
    and vals: "\<forall>k \<in> set (seg_captures sgs). v k \<noteq> Some [] \<and> (\<exists>p \<in> set (Split (tl path) (CHR ''/'')). v k = Some p)"
    using c by auto
  have "x \<noteq> [] \<and> CHR ''/'' \<notin> set x" if "x \<in> ran v" for x
  proof -
    obtain k where k: "v k = Some x" using \<open>x \<in> ran v\<close> by (auto simp: ran_def)
    then have "k \<in> set (seg_captures sgs)" using parts(2) by blast
    then have "x \<noteq> []" "x \<in> set (Split (tl path) (CHR ''/''))" using vals k by auto
    then show ?thesis using Split_no_sep by blast
  qed
  moreover have "path = ''/'' @ Join (map (fill v) sgs) (CHR ''/'')"
    unfolding parts(1) [symmetric] using path by (auto simp: HasPrefix_iff)
  ultimately show "fillable sgs v \<and> path = ''/'' @ Join (map (fill v) sgs) (CHR ''/'')"
    using parts(2) by (simp add: fillable_def)
next
  assume f: "fillable sgs v \<and> path = ''/'' @ Join (map (fill v) sgs) (CHR ''/'')"
  have "CHR ''/'' \<notin> set p" if "p \<in> set (map (fill v) sgs)" for p
  proof -
    obtain sg where sg: "sg \<in> set sgs" "p = fill v sg" using \<open>p \<in> set (map (fill v) sgs)\<close> by auto
    have "CHR ''/'' \<notin> set x" if "v k = Some x" for k x using f that by (auto simp: fillable_def ran_def)
    moreover have "CHR ''/'' \<notin> set (seg_text sg)" using ok sg(1) by (simp add: template_ok_def)
    ultimately show ?thesis by (auto simp: sg(2) fill_def seg_text_def split: option.splits if_splits)
  qed
  then have split: "Split (tl path) (CHR ''/'') = map (fill v) sgs"
    using f ok Split_Join [of "map (fill v) sgs" "CHR ''/''"] by (simp add: template_ok_def)
  have "\<exists>res. matchSegments sgs (map (fill v) sgs) [] = Some res \<and>
      map_of res = map_of [] ++ (v |` set (seg_captures sgs))"
  proof (rule matchSegments_fill)
    show "\<forall>k \<in> set (seg_captures sgs). \<exists>x. v k = Some x \<and> x \<noteq> []"
      using f by (auto simp: fillable_def ran_def)
  qed (use ok in \<open>auto simp: template_ok_def\<close>)
  moreover have "v |` set (seg_captures sgs) = v"
    using f by (intro ext) (metis domIff fillable_def restrict_in restrict_out)
  ultimately show "\<exists>caps. matchTemplate sgs path = Some caps \<and> map_of caps = v"
    using f split by (auto simp: matchTemplate_def fillable_def)
qed

section \<open>Properties of costs and paths\<close>

text \<open>C28. The cost a route reads from a query string. For every query string, well-formed or
  not, it lies between 1 and the maximum; without an occurrence of the parameter it is the
  default, and otherwise it is the largest over the occurrences of the decimal value
  capped at the maximum, an occurrence that is no positive decimal number counting as the
  default. Reading it never overflows, however many digits a value has.\<close>

theorem queryCost_correct:
  assumes "cc_Parameter cost \<noteq> []" "1 \<le> cc_Default cost" "cc_Default cost \<le> MaxCost"
  shows "1 \<le> queryCost cost query \<and> queryCost cost query \<le> MaxCost \<and>
    queryCost cost query =
      (if occurrences cost query = [] then cc_Default cost else Max (set (occurrences cost query))) \<and>
    (\<forall>s. positiveInteger s = (if s \<noteq> [] \<and> list_all isDigit s then min (decimal s) MaxCost else 0))"
  using queryCost_range [OF assms, of query] positiveInteger_spec by blast

theorem queryCost_correct_witness:
  "queryCost \<lparr>cc_Parameter = ''n'', cc_Default = 2\<rparr> ''n=7&x=9&n=99999999999999999999'' = 1000000000"
proof -
  have "occurrences \<lparr>cc_Parameter = ''n'', cc_Default = 2\<rparr> ''n=7&x=9&n=99999999999999999999'' = [7, 1000000000]"
    by code_simp
  with queryCost_correct [of "\<lparr>cc_Parameter = ''n'', cc_Default = 2\<rparr>" "''n=7&x=9&n=99999999999999999999''"]
  show ?thesis by (simp add: MaxCost_def)
qed

text \<open>C24. A template route and its captures determine each other. Against a compiled template,
  a path matches with captures \<open>v\<close> exactly when \<open>v\<close> assigns every placeholder a non-empty
  value without a slash and nothing else, and the path is the template with the
  placeholders replaced by those values.\<close>

theorem matchTemplate_roundtrip:
  assumes "template_ok segments"
  shows "(\<exists>captures. matchTemplate segments path = Some captures \<and> map_of captures = v) \<longleftrightarrow>
    fillable segments v \<and> path = ''/'' @ Join (map (fill v) segments) (CHR ''/'')"
  using matchTemplate_iff [OF assms] .

theorem matchTemplate_roundtrip_witness:
  "\<exists>captures. matchTemplate [\<lparr>sg_Literal = ''orders'', sg_Capture = []\<rparr>, \<lparr>sg_Literal = [], sg_Capture = ''id''\<rparr>]
     ''/orders/42'' = Some captures \<and> map_of captures = [''id'' \<mapsto> ''42'']"
proof -
  let ?t = "[\<lparr>sg_Literal = ''orders'', sg_Capture = []\<rparr>, \<lparr>sg_Literal = [], sg_Capture = ''id''\<rparr>]"
  have "template_ok ?t" by code_simp
  moreover have "fillable ?t [''id'' \<mapsto> ''42'']" by (simp add: fillable_def)
  moreover have "''/orders/42'' = ''/'' @ Join (map (fill [''id'' \<mapsto> ''42'']) ?t) (CHR ''/'')"
    by (simp add: fill_def)
  ultimately show ?thesis using matchTemplate_roundtrip [of ?t "''/orders/42''" "[''id'' \<mapsto> ''42'']"] by blast
qed

text \<open>A prefix route covers its own path and the paths below it on a segment boundary, and no
  sibling that merely starts with the same bytes.\<close>

theorem matchPrefix_boundary:
  "matchPrefix val path \<longleftrightarrow>
     path = val \<or> HasSuffix val ''/'' \<and> HasPrefix path val \<or> HasPrefix path (val @ ''/'')"
  by (rule matchPrefix_spec)

end
