(* ===== verification/Match_Any.thy ===== *)
theory Match_Any
  imports Match
begin

text \<open>
  The introspection view of a target (\<open>targetByPath\<close> of \<open>engine/match\<close>) against the decision
  path (\<open>matchTarget\<close>): the view under any method is exactly what the decisions under the
  single methods agree on.
\<close>

section \<open>The deciding routes\<close>

fun deciders :: "string \<Rightarrow> string list \<Rightarrow> c_route list \<Rightarrow> string gomap list" where
  "deciders path claimed [] = []"
| "deciders path claimed (r # rs) =
     (case matchPath r path of
        None \<Rightarrow> deciders path claimed rs
      | Some caps \<Rightarrow>
          let fresh = filter (\<lambda>m. m \<notin> set claimed) (cr_Methods r) in
          if cr_Methods r \<noteq> [] \<and> fresh = [] then deciders path claimed rs
          else if cr_Methods r = [] then [caps] else caps # deciders path (claimed @ fresh) rs)"

lemma decider_found:
  "matchTarget_loop path m routes = Some (r, axis, caps) \<Longrightarrow> m \<notin> set claimed \<Longrightarrow>
     caps \<in> set (deciders path claimed routes)"
proof (induction path claimed routes rule: deciders.induct)
  case (2 path claimed r0 rs)
  show ?case
  proof (cases "matchPath r0 path")
    case None
    then show ?thesis using 2 by (auto split: if_splits)
  next
    case (Some caps0)
    show ?thesis
    proof (cases "cr_Methods r0 \<noteq> [] \<and> m \<notin> set (cr_Methods r0)")
      case True
      then show ?thesis using 2 Some by (auto simp: Let_def)
    next
      case False
      then have "caps = caps0" using 2(4) Some by (auto split: if_splits)
      moreover have "cr_Methods r0 = [] \<or> filter (\<lambda>m. m \<notin> set claimed) (cr_Methods r0) \<noteq> []"
        using False 2(5) by (auto simp: filter_empty_conv)
      ultimately show ?thesis using Some by (auto simp: Let_def)
    qed
  qed
qed simp

lemma fresh_method: "\<exists>m :: string. m \<notin> set claimed"
  by (rule ex_new_if_finite) (auto simp: infinite_UNIV_listI)

lemma decider_decides:
  "caps \<in> set (deciders path claimed routes) \<Longrightarrow>
     \<exists>m r axis. m \<notin> set claimed \<and> matchTarget_loop path m routes = Some (r, axis, caps)"
proof (induction path claimed routes rule: deciders.induct)
  case (2 path claimed r0 rs)
  show ?case
  proof (cases "matchPath r0 path")
    case None
    then show ?thesis using 2 by auto
  next
    case (Some caps0)
    define fresh where "fresh = filter (\<lambda>m. m \<notin> set claimed) (cr_Methods r0)"
    consider (taken) "cr_Methods r0 \<noteq> []" "fresh = []" | (any) "cr_Methods r0 = []"
      | (some) "cr_Methods r0 \<noteq> []" "fresh \<noteq> []" by blast
    then show ?thesis
    proof cases
      case taken
      then obtain m r axis where m: "m \<notin> set claimed" "matchTarget_loop path m rs = Some (r, axis, caps)"
        using 2(2) [OF Some fresh_def] 2(4) Some by (auto simp: Let_def fresh_def)
      then have "m \<notin> set (cr_Methods r0)" using taken(2) by (auto simp: fresh_def filter_empty_conv)
      with m taken(1) show ?thesis by (intro exI [of _ m]) auto
    next
      case any
      then show ?thesis using fresh_method [of claimed] 2(4) Some by (auto simp: Let_def)
    next
      case some
      show ?thesis
      proof (cases "caps = caps0")
        case True
        obtain m where "m \<in> set fresh" using some(2) by (cases fresh) auto
        then show ?thesis using Some True by (intro exI [of _ m]) (auto simp: fresh_def)
      next
        case False
        then have "caps \<in> set (deciders path (claimed @ fresh) rs)"
          using 2(4) Some some by (simp add: Let_def fresh_def)
        then obtain m r axis where "m \<notin> set (claimed @ fresh)" "matchTarget_loop path m rs = Some (r, axis, caps)"
          using 2(3) [OF Some fresh_def] some by blast
        then show ?thesis using some(1) by (intro exI [of _ m]) (auto simp: fresh_def)
      qed
    qed
  qed
qed simp

section \<open>The loop counts the deciding routes\<close>

definition note_decider :: "string gomap \<Rightarrow> decider_state \<Rightarrow> decider_state" where
  "note_decider caps s = fold note_capture caps (s\<lparr>ds_deciders := Suc (ds_deciders s)\<rparr>)"

lemma note_capture_claimed: "note_capture nv (s\<lparr>ds_claimed := c\<rparr>) = (note_capture nv s)\<lparr>ds_claimed := c\<rparr>"
  by (cases nv; cases s) (simp add: note_capture_def split: option.split)

lemma notes_claimed: "fold note_capture caps (s\<lparr>ds_claimed := c\<rparr>) = (fold note_capture caps s)\<lparr>ds_claimed := c\<rparr>"
  by (induction caps arbitrary: s) (simp_all add: note_capture_claimed)

lemma note_decider_claimed: "note_decider caps (s\<lparr>ds_claimed := c\<rparr>) = (note_decider caps s)\<lparr>ds_claimed := c\<rparr>"
  using notes_claimed [where caps = caps and c = c and s = "s\<lparr>ds_deciders := Suc (ds_deciders s)\<rparr>"]
  by (cases s) (simp add: note_decider_def)

lemma fold_decider_claimed:
  "fold note_decider cs (s\<lparr>ds_claimed := c\<rparr>) = (fold note_decider cs s)\<lparr>ds_claimed := c\<rparr>"
  by (induction cs arbitrary: s) (simp_all add: note_decider_claimed)

lemma ds_claimed_note: "ds_claimed (fold note_capture caps s) = ds_claimed s"
  by (induction caps arbitrary: s) (simp_all add: note_capture_def split: prod.split)

lemma loop_deciders:
  "(targetByPath_loop path s routes)\<lparr>ds_claimed := []\<rparr> =
     (fold note_decider (deciders path (ds_claimed s) routes) s)\<lparr>ds_claimed := []\<rparr>"
proof (induction path s routes rule: targetByPath_loop.induct)
  case (2 path s r rs)
  show ?case
  proof (cases "matchPath r path")
    case None
    then show ?thesis using 2 by simp
  next
    case (Some caps)
    define fresh where "fresh = filter (\<lambda>m. m \<notin> set (ds_claimed s)) (cr_Methods r)"
    define s1 where "s1 = s\<lparr>ds_claimed := ds_claimed s @ fresh\<rparr>"
    define s2 where "s2 = fold note_capture caps (s1\<lparr>ds_deciders := Suc (ds_deciders s1)\<rparr>)"
    have s2: "s2 = note_decider caps s1" by (simp add: s2_def note_decider_def)
    have cl: "ds_claimed s2 = ds_claimed s @ fresh" by (simp add: s2_def s1_def ds_claimed_note)
    have unclaim: "(fold note_decider cs (note_decider caps s1))\<lparr>ds_claimed := []\<rparr> =
        (fold note_decider cs (note_decider caps s))\<lparr>ds_claimed := []\<rparr>" for cs
      by (simp add: s1_def note_decider_claimed fold_decider_claimed)
    show ?thesis
    proof (cases "cr_Methods r \<noteq> [] \<and> fresh = []")
      case True
      then have "s1 = s" by (simp add: s1_def)
      then show ?thesis
        using True 2(2) [OF Some fresh_def s1_def] Some by (simp add: Let_def fresh_def [symmetric] s1_def [symmetric])
    next
      case False
      show ?thesis
      proof (cases "cr_Methods r = []")
        case True
        then show ?thesis
          using Some by (simp add: Let_def note_decider_def)
      next
        case some: False
        then show ?thesis
          using Some 2(3) [OF Some fresh_def s1_def False s2_def some] unclaim s2 cl False
          by (simp add: Let_def fresh_def [symmetric] s1_def [symmetric] s2_def [symmetric])
      qed
    qed
  qed
qed simp

section \<open>What the counts mean\<close>

lemma note_capture_fields:
  "ds_deciders (note_capture (n, v) s) = ds_deciders s"
  "gm_count (ds_produced (note_capture (n, v) s)) k = (if k = n then Suc (gm_count (ds_produced s) k) else gm_count (ds_produced s) k)"
  "map_of (ds_values (note_capture (n, v) s)) k = (if k = n then Some v else map_of (ds_values s) k)"
  "k \<in> set (ds_conflict (note_capture (n, v) s)) \<longleftrightarrow>
     k \<in> set (ds_conflict s) \<or> k = n \<and> (\<exists>u. map_of (ds_values s) k = Some u \<and> u \<noteq> v)"
  by (auto simp: note_capture_def gm_count_def update_conv' split: option.splits)

lemma notes_fields:
  assumes "gm_ok caps"
  shows "ds_deciders (fold note_capture caps s) = ds_deciders s"
    and "gm_count (ds_produced (fold note_capture caps s)) k =
           gm_count (ds_produced s) k + (if map_of caps k = None then 0 else 1)"
    and "map_of (ds_values (fold note_capture caps s)) k =
           (case map_of caps k of None \<Rightarrow> map_of (ds_values s) k | Some v \<Rightarrow> Some v)"
    and "k \<in> set (ds_conflict (fold note_capture caps s)) \<longleftrightarrow> k \<in> set (ds_conflict s) \<or>
           (\<exists>u v. map_of caps k = Some v \<and> map_of (ds_values s) k = Some u \<and> u \<noteq> v)"
proof (goal_cases)
  case 1 show ?case by (induction caps arbitrary: s) (auto simp: note_capture_fields)
next
  case 2 show ?case using assms
    by (induction caps arbitrary: s) (auto simp: note_capture_fields gm_ok_def map_of_eq_None_iff image_iff)
next
  case 3 show ?case using assms
    by (induction caps arbitrary: s)
      (auto simp: note_capture_fields gm_ok_def split: option.splits dest: map_of_SomeD intro: rev_image_eqI)
next
  case 4 show ?case using assms
    by (induction caps arbitrary: s)
      (auto simp: note_capture_fields gm_ok_def split: if_splits dest: map_of_SomeD intro: rev_image_eqI)
qed

definition summarises :: "string gomap list \<Rightarrow> decider_state \<Rightarrow> bool" where
  "summarises cs s \<longleftrightarrow> ds_deciders s = length cs \<and>
     (\<forall>k. gm_count (ds_produced s) k = length (filter (\<lambda>c. map_of c k \<noteq> None) cs)) \<and>
     (\<forall>k v. map_of (ds_values s) k = Some v \<longrightarrow> (\<exists>c\<in>set cs. map_of c k = Some v)) \<and>
     (\<forall>k c v. k \<notin> set (ds_conflict s) \<longrightarrow> c \<in> set cs \<longrightarrow> map_of c k = Some v \<longrightarrow> map_of (ds_values s) k = Some v) \<and>
     (\<forall>k. k \<in> set (ds_conflict s) \<longrightarrow> (\<exists>c\<in>set cs. \<exists>c'\<in>set cs. map_of c k \<noteq> map_of c' k))"

lemma summarises_note:
  assumes s: "summarises cs s" and ok: "gm_ok caps"
  shows "summarises (cs @ [caps]) (note_decider caps s)"
proof -
  define s0 where "s0 = s\<lparr>ds_deciders := Suc (ds_deciders s)\<rparr>"
  note f = notes_fields [OF ok, where s = s0]
  have vals: "map_of (ds_values s) k = Some v \<Longrightarrow> \<exists>c\<in>set cs. map_of c k = Some v"
    and conf: "k \<in> set (ds_conflict s) \<Longrightarrow> \<exists>c\<in>set cs. \<exists>c'\<in>set cs. map_of c k \<noteq> map_of c' k"
    and agree: "k \<notin> set (ds_conflict s) \<Longrightarrow> c \<in> set cs \<Longrightarrow> map_of c k = Some v \<Longrightarrow> map_of (ds_values s) k = Some v"
    for k v c using s unfolding summarises_def by blast+
  have n: "note_decider caps s = fold note_capture caps s0" by (simp add: note_decider_def s0_def)
  have s0: "ds_produced s0 = ds_produced s" "ds_values s0 = ds_values s" "ds_conflict s0 = ds_conflict s"
    "ds_deciders s0 = Suc (ds_deciders s)" by (simp_all add: s0_def)
  show ?thesis unfolding summarises_def n f s0
  proof (intro conjI allI impI)
    show "Suc (ds_deciders s) = length (cs @ [caps])" using s by (simp add: summarises_def)
  next
    fix k show "gm_count (ds_produced s) k + (if map_of caps k = None then 0 else 1) =
      length (filter (\<lambda>c. map_of c k \<noteq> None) (cs @ [caps]))" using s by (simp add: summarises_def)
  next
    fix k v assume "(case map_of caps k of None \<Rightarrow> map_of (ds_values s) k | Some v \<Rightarrow> Some v) = Some v"
    then show "\<exists>c\<in>set (cs @ [caps]). map_of c k = Some v"
      using vals [of k v] by (auto split: option.splits)
  next
    fix k c v
    assume "\<not> (k \<in> set (ds_conflict s) \<or> (\<exists>u v. map_of caps k = Some v \<and> map_of (ds_values s) k = Some u \<and> u \<noteq> v))"
      "c \<in> set (cs @ [caps])" "map_of c k = Some v"
    then show "(case map_of caps k of None \<Rightarrow> map_of (ds_values s) k | Some v \<Rightarrow> Some v) = Some v"
      using agree [of k c v] by (cases "map_of caps k"; cases "c = caps") auto
  next
    fix k
    assume "k \<in> set (ds_conflict s) \<or> (\<exists>u v. map_of caps k = Some v \<and> map_of (ds_values s) k = Some u \<and> u \<noteq> v)"
    then show "\<exists>c\<in>set (cs @ [caps]). \<exists>c'\<in>set (cs @ [caps]). map_of c k \<noteq> map_of c' k"
    proof
      assume "k \<in> set (ds_conflict s)"
      from conf [OF this] show ?thesis unfolding set_append by blast
    next
      assume "\<exists>u v. map_of caps k = Some v \<and> map_of (ds_values s) k = Some u \<and> u \<noteq> v"
      then obtain u v c where "map_of caps k = Some v" "c \<in> set cs" "map_of c k = Some u" "u \<noteq> v"
        using vals by blast
      then show ?thesis by (intro bexI [of _ c] bexI [of _ caps]) auto
    qed
  qed
qed

lemma summarises_fold:
  "summarises cs s \<Longrightarrow> list_all gm_ok ds \<Longrightarrow> summarises (cs @ ds) (fold note_decider ds s)"
proof (induction ds arbitrary: cs s)
  case (Cons d ds)
  then have "summarises ((cs @ [d]) @ ds) (fold note_decider ds (note_decider d s))"
    by (intro Cons.IH summarises_note) simp_all
  then show ?case by simp
qed simp

lemma summarises_none: "summarises [] no_deciders"
  by (simp add: summarises_def no_deciders_def gm_count_def)

lemma summarises_claimed: "summarises cs (s\<lparr>ds_claimed := c\<rparr>) = summarises cs s"
  by (simp add: summarises_def)

section \<open>The introspection view\<close>

lemma matchSegments_gm_ok: "matchSegments ss ps c = Some c' \<Longrightarrow> gm_ok c \<Longrightarrow> gm_ok c'"
  by (induction ss ps c rule: matchSegments.induct) (auto split: if_splits)

lemma matchPath_gm_ok: "matchPath r path = Some caps \<Longrightarrow> gm_ok caps"
  by (auto simp: matchPath_def matchTemplate_def Let_def split: if_splits dest: matchSegments_gm_ok)

lemma deciders_gm_ok: "list_all gm_ok (deciders path claimed routes)"
  by (induction path claimed routes rule: deciders.induct)
    (auto simp: Let_def matchPath_gm_ok split: option.splits)

lemma loop_summarises:
  "summarises (deciders path [] routes) (targetByPath_loop path no_deciders routes)"
proof -
  have "summarises (deciders path [] routes) (fold note_decider (deciders path [] routes) no_deciders)"
    using summarises_fold [OF summarises_none deciders_gm_ok] by simp
  then show ?thesis
    using loop_deciders [of path no_deciders routes] summarises_claimed
    by (metis decider_state.select_convs(2) no_deciders_def)
qed

lemma map_of_decided:
  "map_of (List.map_filter (\<lambda>name. if P name then map_option (Pair name) (g name) else None) ns) n =
     (if n \<in> set ns \<and> P n then g n else None)"
proof (induction ns)
  case (Cons a ns)
  then show ?case by (cases "P a"; cases "g a") (simp_all add: map_filter_simps)
qed (simp add: map_filter_simps)

lemma decided_iff:
  assumes s: "summarises cs s" and ne: "cs \<noteq> []"
  shows "decided s n \<Longrightarrow> c \<in> set cs \<Longrightarrow> map_of c n = map_of (ds_values s) n"
    and "\<not> decided s n \<Longrightarrow> gm_count (ds_produced s) n \<noteq> 0 \<Longrightarrow>
      \<exists>c\<in>set cs. \<exists>c'\<in>set cs. map_of c n \<noteq> map_of c' n"
    and "gm_count (ds_produced s) n = 0 \<Longrightarrow> c \<in> set cs \<Longrightarrow> map_of c n = None"
    and "gm_count (ds_produced s) n = 0 \<Longrightarrow> \<not> decided s n"
proof -
  have len: "ds_deciders s = length cs"
    and prod: "gm_count (ds_produced s) n = length (filter (\<lambda>c. map_of c n \<noteq> None) cs)"
    and agree: "n \<notin> set (ds_conflict s) \<Longrightarrow> c \<in> set cs \<Longrightarrow> map_of c n = Some v \<Longrightarrow> map_of (ds_values s) n = Some v"
    and conf: "n \<in> set (ds_conflict s) \<Longrightarrow> \<exists>c\<in>set cs. \<exists>c'\<in>set cs. map_of c n \<noteq> map_of c' n"
    for c v using s unfolding summarises_def by blast+
  have all: "gm_count (ds_produced s) n = ds_deciders s \<longleftrightarrow> (\<forall>c\<in>set cs. map_of c n \<noteq> None)"
    unfolding len prod by (metis (mono_tags, lifting) filter_True length_filter_less less_irrefl)
  have none: "gm_count (ds_produced s) n = 0 \<longleftrightarrow> (\<forall>c\<in>set cs. map_of c n = None)"
    unfolding prod by (simp add: filter_empty_conv)
  show "map_of c n = map_of (ds_values s) n" if "decided s n" "c \<in> set cs"
    using that all agree unfolding decided_def by fastforce
  show "\<exists>c\<in>set cs. \<exists>c'\<in>set cs. map_of c n \<noteq> map_of c' n"
    if "\<not> decided s n" "gm_count (ds_produced s) n \<noteq> 0"
  proof (cases "n \<in> set (ds_conflict s)")
    case True then show ?thesis by (rule conf)
  next
    case False
    have "\<not> (\<forall>c\<in>set cs. map_of c n \<noteq> None)" using that(1) False all by (simp add: decided_def)
    moreover have "\<not> (\<forall>c\<in>set cs. map_of c n = None)" using that(2) none by simp
    ultimately obtain c c' where "c \<in> set cs" "map_of c n = None" "c' \<in> set cs" "map_of c' n \<noteq> None"
      by blast
    then show ?thesis by (intro bexI [of _ c] bexI [of _ c']) simp_all
  qed
  show "map_of c n = None" if "gm_count (ds_produced s) n = 0" "c \<in> set cs" using that none by blast
  show "\<not> decided s n" if "gm_count (ds_produced s) n = 0"
    using that len ne by (simp add: decided_def)
qed

definition capture_of :: "c_block \<Rightarrow> string \<Rightarrow> string \<Rightarrow> string \<Rightarrow> string option" where
  "capture_of block path name method =
     (case matchTarget block path method of None \<Rightarrow> None | Some (_, _, caps) \<Rightarrow> map_of caps name)"

lemma capture_found:
  assumes "cb_Routes block \<noteq> []" "matchTarget block path m \<noteq> None"
  shows "\<exists>caps\<in>set (deciders path [] (cb_Routes block)). \<forall>n. capture_of block path n m = map_of caps n"
  using assms decider_found [of path m "cb_Routes block" _ _ _ "[]"]
  by (fastforce simp: matchTarget_def capture_of_def)

lemma capture_decides:
  assumes "cb_Routes block \<noteq> []" "caps \<in> set (deciders path [] (cb_Routes block))"
  shows "\<exists>m. matchTarget block path m \<noteq> None \<and> (\<forall>n. capture_of block path n m = map_of caps n)"
  using assms decider_decides [of caps path "[]" "cb_Routes block"]
  by (fastforce simp: matchTarget_def capture_of_def)

lemma targetByPath_view:
  assumes routes: "cb_Routes block \<noteq> []"
    and t: "targetByPath block path = Some t" and n: "n \<in> set (cb_Captures block)"
  shows "n \<in> set (mt_Undecided t) \<Longrightarrow>
      \<exists>m m'. matchTarget block path m \<noteq> None \<and> matchTarget block path m' \<noteq> None \<and>
             capture_of block path n m \<noteq> capture_of block path n m'"
    and "n \<notin> set (mt_Undecided t) \<Longrightarrow> matchTarget block path m \<noteq> None \<Longrightarrow>
      capture_of block path n m = map_of (mt_Captures t) n"
proof -
  define cs where "cs = deciders path [] (cb_Routes block)"
  define s where "s = targetByPath_loop path no_deciders (cb_Routes block)"
  have s: "summarises cs s" unfolding cs_def s_def by (rule loop_summarises)
  have ne: "cs \<noteq> []"
    using t routes s by (auto simp: targetByPath_def s_def [symmetric] summarises_def split: if_splits)
  note d = decided_iff [OF s ne]
  have und: "n \<in> set (mt_Undecided t) \<longleftrightarrow> \<not> decided s n \<and> gm_count (ds_produced s) n \<noteq> 0"
    and caps: "map_of (mt_Captures t) n = (if decided s n then map_of (ds_values s) n else None)"
    using t routes n by (auto simp: targetByPath_def s_def [symmetric] Let_def map_of_decided split: if_splits)
  show "\<exists>m m'. matchTarget block path m \<noteq> None \<and> matchTarget block path m' \<noteq> None \<and>
      capture_of block path n m \<noteq> capture_of block path n m'" if "n \<in> set (mt_Undecided t)"
  proof -
    obtain c c' where c: "c \<in> set cs" "c' \<in> set cs" "map_of c n \<noteq> map_of c' n"
      using d(2) [of n] \<open>n \<in> set (mt_Undecided t)\<close> und by blast
    obtain m m' where "matchTarget block path m \<noteq> None" "capture_of block path n m = map_of c n"
      "matchTarget block path m' \<noteq> None" "capture_of block path n m' = map_of c' n"
      using capture_decides [OF routes c(1) [unfolded cs_def]] capture_decides [OF routes c(2) [unfolded cs_def]] by blast
    then show ?thesis using c(3) by (intro exI [of _ m] exI [of _ m']) simp
  qed
  show "capture_of block path n m = map_of (mt_Captures t) n"
    if out: "n \<notin> set (mt_Undecided t)" and m: "matchTarget block path m \<noteq> None"
  proof -
    obtain c where "c \<in> set cs" "capture_of block path n m = map_of c n"
      using capture_found [OF routes m] unfolding cs_def by blast
    then show ?thesis using out und caps d(1) [of n c] d(3) [of n c] by auto
  qed
qed

lemma targetByPath_admits:
  "targetByPath block path = None \<longleftrightarrow> (\<forall>m. matchTarget block path m = None)"
proof (cases "cb_Routes block = []")
  case True
  then show ?thesis by (simp add: targetByPath_def matchTarget_def)
next
  case False
  have "targetByPath block path = None \<longleftrightarrow> deciders path [] (cb_Routes block) = []"
    using False loop_summarises [of path "cb_Routes block"]
    by (simp add: targetByPath_def Let_def summarises_def)
  also have "\<dots> \<longleftrightarrow> (\<forall>m. matchTarget block path m = None)"
  proof (cases "deciders path [] (cb_Routes block)")
    case Nil
    then have "matchTarget block path m = None" for m
      using capture_found [OF False, of path m] by (cases "matchTarget block path m") simp_all
    with Nil show ?thesis by simp
  next
    case (Cons c cs)
    then obtain m where "matchTarget block path m \<noteq> None"
      using capture_decides [OF False, of c path] by auto
    with Cons show ?thesis by auto
  qed
  finally show ?thesis .
qed

text \<open>
  A block whose \<open>GET\<close> route names one more capture than its route for the other methods.
\<close>

definition split_block :: c_block where
  "split_block = \<lparr>cb_Name = ''orders'', cb_Mode = [],
     cb_Routes =
       [\<lparr>cr_Type = PathTemplate, cr_Value = ''/{kind}/{id}'',
         cr_Segments = [\<lparr>sg_Literal = [], sg_Capture = ''kind''\<rparr>, \<lparr>sg_Literal = [], sg_Capture = ''id''\<rparr>],
         cr_Methods = [''GET''], cr_Cost = None\<rparr>,
        \<lparr>cr_Type = PathTemplate, cr_Value = ''/orders/{id}'',
         cr_Segments = [\<lparr>sg_Literal = ''orders'', sg_Capture = []\<rparr>, \<lparr>sg_Literal = [], sg_Capture = ''id''\<rparr>],
         cr_Methods = [], cr_Cost = None\<rparr>],
     cb_Captures = [''kind'', ''id''], cb_Rules = []\<rparr>"

text \<open>
  The any-method view of a block is what its decisions agree on. \<open>targetByPath\<close> admits the
  path exactly when \<open>matchTarget\<close> admits it under some method; a capture it reports undecided
  really differs between two admitted methods; and a capture it does not report undecided has, in
  the view, the value (or the absence) that every admitted method gives it.
\<close>
theorem targetByPath_agrees:
  "case targetByPath block path of
     None \<Rightarrow> (\<forall>m. matchTarget block path m = None)
   | Some t \<Rightarrow>
       (\<exists>m. matchTarget block path m \<noteq> None) \<and>
       (\<forall>n \<in> set (cb_Captures block).
          if n \<in> set (mt_Undecided t) then
            \<exists>m m'. matchTarget block path m \<noteq> None \<and> matchTarget block path m' \<noteq> None \<and>
                   capture_of block path n m \<noteq> capture_of block path n m'
          else \<forall>m. matchTarget block path m \<noteq> None \<longrightarrow>
                 capture_of block path n m = map_of (mt_Captures t) n)"
proof (cases "targetByPath block path")
  case None
  from targetByPath_admits [THEN iffD1, OF None] show ?thesis unfolding None by simp
next
  case (Some t)
  then have "\<exists>m. matchTarget block path m \<noteq> None" using targetByPath_admits [of block path] by simp
  moreover have "cb_Routes block = [] \<Longrightarrow> mt_Undecided t = [] \<and> mt_Captures t = []"
    using Some by (auto simp: targetByPath_def)
  moreover have "cb_Routes block = [] \<Longrightarrow> capture_of block path n m = None" for n m
    by (simp add: capture_of_def matchTarget_def)
  ultimately show ?thesis
    using targetByPath_view [OF _ Some] unfolding Some option.case
    by (cases "cb_Routes block = []") (simp, auto)
qed

theorem targetByPath_agrees_witness:
  "map_option mt_Undecided (targetByPath split_block ''/orders/7'') = Some [''kind''] \<and>
   (\<exists>m m'. capture_of split_block ''/orders/7'' ''kind'' m \<noteq> capture_of split_block ''/orders/7'' ''kind'' m') \<and>
   capture_of split_block ''/orders/7'' ''id'' ''POST'' = Some ''7''"
proof -
  have "map_option (\<lambda>t. (mt_Undecided t, map_of (mt_Captures t) ''id'')) (targetByPath split_block ''/orders/7'') =
      Some ([''kind''], Some ''7'')" by code_simp
  then obtain t where t: "targetByPath split_block ''/orders/7'' = Some t" "mt_Undecided t = [''kind'']"
    "map_of (mt_Captures t) ''id'' = Some ''7''" by auto
  have m: "matchTarget split_block ''/orders/7'' ''POST'' \<noteq> None" by code_simp
  have c: "cb_Captures split_block = [''kind'', ''id'']" by (simp add: split_block_def)
  show ?thesis using targetByPath_agrees [of split_block "''/orders/7''"] t m
    unfolding t(1) option.case c by auto
qed

end
