(* ===== verification/Memory_Trace.thy ===== *)
theory Memory_Trace
  imports Memory_Store
begin

text \<open>
  Runs of the in-memory store: any interleaving of \<open>Decide\<close>, \<open>Peek\<close>, \<open>Scan\<close> and \<open>Reset\<close>
  calls at non-decreasing clock readings, as a step relation that also counts what one key
  was charged. The two theorems bound that count by the limit the key carries; they hold
  for every run, however the calls on this key and on all other keys interleave.
\<close>

section \<open>Runs\<close>

text \<open>What one decision charges to a key.\<close>

definition charge_of :: "string \<Rightarrow> bucket list \<Rightarrow> verdict list \<Rightarrow> int" where
  "charge_of k bs vs =
     (if Admitted bs vs = Some True
      then sum_list (map (\<lambda>(b, v). if bk_Key b = k \<and> v_Allowed v then bk_Cost b else 0) (zip bs vs))
      else 0)"

text \<open>
  A key names one algorithm and, as long as nobody retunes the limit, one window: the
  buckets of a run that carry the key agree on them.
\<close>

definition calls_ok :: "string \<Rightarrow> alg_id \<Rightarrow> window \<Rightarrow> bucket list \<Rightarrow> bool" where
  "calls_ok k a w bs \<longleftrightarrow>
     (\<forall>b \<in> set bs. bucket_ok b \<and> (bk_Key b = k \<longrightarrow> bk_Algorithm b = a \<and> bk_Window b = w))"

inductive store_run :: "string \<Rightarrow> alg_id \<Rightarrow> window \<Rightarrow> mem \<Rightarrow> int \<Rightarrow> int \<Rightarrow> mem \<Rightarrow> int \<Rightarrow> bool"
  for k :: string and a :: alg_id and w :: window and m0 :: mem and t0 :: int where
  start: "store_run k a w m0 t0 0 m0 t0"
| decide: "store_run k a w m0 t0 c m t \<Longrightarrow> t \<le> t' \<Longrightarrow> clock_ok t' \<Longrightarrow> calls_ok k a w bs \<Longrightarrow>
    Decide m t' bs = (Inr vs, m') \<Longrightarrow> store_run k a w m0 t0 (c + charge_of k bs vs) m' t'"
| decide_fails: "store_run k a w m0 t0 c m t \<Longrightarrow> t \<le> t' \<Longrightarrow> clock_ok t' \<Longrightarrow> calls_ok k a w bs \<Longrightarrow>
    Decide m t' bs = (Inl err, m') \<Longrightarrow> store_run k a w m0 t0 c m' t'"
| peek: "store_run k a w m0 t0 c m t \<Longrightarrow> t \<le> t' \<Longrightarrow> clock_ok t' \<Longrightarrow> calls_ok k a w bs \<Longrightarrow>
    Peek m t' bs = (res, m') \<Longrightarrow> store_run k a w m0 t0 c m' t'"
| scan: "store_run k a w m0 t0 c m t \<Longrightarrow> t \<le> t' \<Longrightarrow> clock_ok t' \<Longrightarrow>
    Scan m t' prefix cursor limit = (sres, m') \<Longrightarrow> store_run k a w m0 t0 c m' t'"
| reset: "store_run k a w m0 t0 c m t \<Longrightarrow> k \<notin> set ks \<Longrightarrow> store_run k a w m0 t0 c (Reset m ks) t"

section \<open>One call, seen from one key\<close>

definition probe :: "string \<Rightarrow> alg_id \<Rightarrow> window \<Rightarrow> bucket" where
  "probe k a w = \<lparr>bk_Key = k, bk_Algorithm = a, bk_Window = w, bk_Shadow = False, bk_Cost = 1\<rparr>"

lemma mem_view_probe:
  "bk_Key b = k \<Longrightarrow> bk_Algorithm b = a \<Longrightarrow> mem_view m t b = mem_view m t (probe k a w)"
  by (simp add: mem_view_def stale_def probe_def split: option.splits)

lemma calls_ok_same: "calls_ok k a w bs \<Longrightarrow> same_algorithm bs (probe k a w)"
  by (auto simp: calls_ok_def same_algorithm_def probe_def)

lemma calls_ok_buckets: "calls_ok k a w bs \<Longrightarrow> \<forall>b \<in> set bs. bucket_ok b"
  by (auto simp: calls_ok_def)

lemma charge_absent:
  "k \<notin> bk_Key ` set bs \<Longrightarrow> sum_list (map (\<lambda>(b, v). if bk_Key b = k \<and> v_Allowed v then bk_Cost b else 0) (zip bs vs)) = 0"
proof (induction bs arbitrary: vs)
  case (Cons b bs)
  then show ?case by (cases vs) auto
qed simp

lemma charge_unique:
  "distinct (map bk_Key bs) \<Longrightarrow> (b, v) \<in> set (zip bs vs) \<Longrightarrow> bk_Key b = k \<Longrightarrow>
   sum_list (map (\<lambda>(b, v). if bk_Key b = k \<and> v_Allowed v then bk_Cost b else 0) (zip bs vs)) =
     (if v_Allowed v then bk_Cost b else 0)"
proof (induction bs arbitrary: vs)
  case (Cons b' bs)
  then obtain v' vs' where vs: "vs = v' # vs'" by (cases vs) auto
  show ?case
  proof (cases "(b, v) = (b', v')")
    case True
    then show ?thesis using Cons.prems charge_absent [of k bs vs'] by (auto simp: vs)
  next
    case False
    then have "(b, v) \<in> set (zip bs vs')" using Cons.prems by (auto simp: vs)
    moreover from this have "bk_Key b' \<noteq> k"
      using Cons.prems set_zip_leftD [of b v bs vs'] by (force simp: image_iff)
    ultimately show ?thesis using Cons.prems Cons.IH [of vs'] by (simp add: vs)
  qed
qed simp

lemma Decide_key_step:
  assumes D: "Decide m t bs = (Inr vs, m')" and calls: "calls_ok k a w bs"
  shows "charge_of k bs vs = 0 \<and>
      (\<forall>u \<ge> t. mem_view m' u (probe k a w) = mem_view m u (probe k a w)) \<or>
    (\<exists>b r. b \<in> set bs \<and> bk_Key b = k \<and> charge_of k bs vs = bk_Cost b \<and>
      evalBucket (mem_view m t b) t b = Inr r \<and> o_allowed r \<and> map_of m' k = Some (o_next r))"
proof -
  obtain rs m1 where g: "GuardBuckets bs = None"
    and l2: "list_all2 (\<lambda>b r. evalBucket (mem_view m t b) t b = Inr r) bs rs"
    and len: "length bs = length rs"
    and vs: "vs = map (\<lambda>r. if all_admit bs rs \<and> o_allowed r then chargedVerdict r else currentVerdict r) rs"
    and m': "m' = snd (commit (all_admit bs rs) m1 bs rs)"
    and adm: "Admitted bs vs = Some (all_admit bs rs)"
    using Decide_Inr [OF D] by blast
  have d: "distinct (map bk_Key bs)" using g by (simp add: GuardBuckets_None)
  show ?thesis
  proof (cases "\<exists>b r. (b, r) \<in> set (zip bs rs) \<and> bk_Key b = k \<and> all_admit bs rs \<and> o_allowed r")
    case True
    then obtain b r where br: "(b, r) \<in> set (zip bs rs)" "bk_Key b = k" "all_admit bs rs" "o_allowed r"
      by blast
    have "(b, chargedVerdict r) \<in> set (zip bs vs)"
      using zip_map_mem [OF br(1), of "\<lambda>r. if all_admit bs rs \<and> o_allowed r then chargedVerdict r else currentVerdict r"]
        br(3,4) by (simp add: vs)
    from charge_unique [OF d this br(2)] have "charge_of k bs vs = bk_Cost b"
      using adm br(3) by (simp add: charge_of_def)
    moreover have "evalBucket (mem_view m t b) t b = Inr r"
      using l2 br(1) by (auto simp: list_all2_iff)
    moreover have "map_of m' k = Some (o_next r)"
      using commit_charged [OF len d br(3,1,4), of m1] br(2) by (simp add: m')
    ultimately show ?thesis using br set_zip_leftD [OF br(1)] by blast
  next
    case False
    have un: "\<not> (v_Allowed v \<and> Admitted bs vs = Some True)"
      if zip: "(b, v) \<in> set (zip bs vs)" "bk_Key b = k" for b v
    proof -
      obtain r where "(b, r) \<in> set (zip bs rs)"
        "v = (if all_admit bs rs \<and> o_allowed r then chargedVerdict r else currentVerdict r)"
        using zip_map_memD [OF zip(1) [unfolded vs]] by blast
      with False zip(2) adm show ?thesis by auto
    qed
    then have "charge_of k bs vs = 0"
    proof (cases "k \<in> bk_Key ` set bs \<and> Admitted bs vs = Some True")
      case True
      then obtain b v where "(b, v) \<in> set (zip bs vs)" "bk_Key b = k"
        using len zip_map_fst_mem [of _ bs vs] by (auto simp: vs) blast
      with True un charge_unique [OF d this] show ?thesis by (auto simp: charge_of_def)
    qed (auto simp: charge_of_def charge_absent)
    moreover have "mem_view m' u (probe k a w) = mem_view m u (probe k a w)" if "t \<le> u" for u
      using un that calls_ok_same [OF calls]
      by (intro Decide_uncharged [OF D]) (auto simp: probe_def)
    ultimately show ?thesis by blast
  qed
qed

lemma Scan_state:
  "Scan m t p cur lim = (res, m') \<Longrightarrow> m' = m \<or> m' = filter (\<lambda>(k, e). \<not> e_deadline e \<le> t) m"
  by (auto simp: Scan_def Let_def split: if_splits)

lemma Scan_view:
  assumes "Scan m t p cur lim = (res, m')" "t \<le> u" "gm_ok m"
  shows "mem_view m' u b = mem_view m u b"
  using Scan_state [OF assms(1)] assms(2,3)
  by (auto simp: mem_view_def map_of_filter stale_def split: option.splits if_splits)

lemma Scan_store_ok:
  assumes "Scan m t p cur lim = (res, m')" "store_ok u m"
  shows "store_ok u m'"
  using Scan_state [OF assms(1)] assms(2)
  by (auto simp: store_ok_def gm_ok_filter map_of_filter split: option.splits if_splits)

lemma Reset_store_ok: "store_ok t m \<Longrightarrow> store_ok t (Reset m ks)"
  by (induction ks arbitrary: m) (auto simp: store_ok_delete)

lemma Decide_store_ok:
  assumes "Decide m t bs = (res, m')" "\<forall>b \<in> set bs. bucket_ok b" "clock_ok t" "store_ok t m"
  shows "store_ok t m'"
proof (cases res)
  case (Inl err)
  with assms(1) have "m' = m \<or> m' = snd (evalAll m t bs)"
    by (auto simp: Decide_def split: option.splits sum.splits prod.splits)
  with evalAll_store_ok [OF assms(4)] assms(4) show ?thesis by auto
next
  case (Inr vs)
  with assms Decide_judged [of m t bs vs m'] show ?thesis by blast
qed

lemma Peek_store_ok:
  assumes "Peek m t bs = (res, m')" "store_ok t m"
  shows "store_ok t m'"
proof -
  have "m' = m \<or> m' = snd (evalAll m t bs)"
    using assms(1) by (auto simp: Peek_def split: option.splits sum.splits prod.splits)
  with evalAll_store_ok [OF assms(2)] assms(2) show ?thesis by auto
qed

lemma run_store_ok:
  assumes "store_run k a w m0 t0 c m t" "store_ok t0 m0" "clock_ok t0"
  shows "store_ok t m \<and> t0 \<le> t \<and> clock_ok t"
  using assms
proof (induction rule: store_run.induct)
  case (decide c m t t' bs vs m')
  then show ?case
    using Decide_store_ok [OF decide.hyps(5) calls_ok_buckets [OF decide.hyps(4)]]
    by (auto dest: store_ok_mono)
next
  case (decide_fails c m t t' bs err m')
  then show ?case
    using Decide_store_ok [OF decide_fails.hyps(5) calls_ok_buckets [OF decide_fails.hyps(4)]]
    by (auto dest: store_ok_mono)
next
  case (peek c m t t' bs res m')
  then show ?case using Peek_store_ok [OF peek.hyps(5)] by (auto dest: store_ok_mono)
next
  case (scan c m t t' prefix cursor limit sres m')
  then show ?case using Scan_store_ok [OF scan.hyps(4)] by (auto dest: store_ok_mono)
qed (auto simp: Reset_store_ok)

section \<open>GCRA over a run\<close>

definition depth_at :: "string \<Rightarrow> window \<Rightarrow> mem \<Rightarrow> int \<Rightarrow> int" where
  "depth_at k w m t = gcra_depth t (mem_view m t (probe k GCRAID w))"

lemma depth_at_later:
  assumes "store_ok t m" "t \<le> u"
  shows "depth_at k w m u = max 0 (depth_at k w m t - (u - t))"
proof (cases "map_of m k")
  case None
  then show ?thesis using assms by (simp add: depth_at_def mem_view_def probe_def gcra_depth_def)
next
  case (Some e)
  then have "entry_ok t e" using assms(1) by (simp add: store_ok_def)
  with Some assms(2) show ?thesis
    by (auto simp: depth_at_def mem_view_def probe_def gcra_depth_def stale_def entry_ok_def)
qed

lemma depth_at_nonneg: "0 \<le> depth_at k w m t"
  by (simp add: depth_at_def gcra_depth_def split: option.split)

lemma depth_at_cong:
  "mem_view m' t (probe k GCRAID w) = mem_view m t (probe k GCRAID w) \<Longrightarrow>
     depth_at k w m' t = depth_at k w m t"
  by (simp add: depth_at_def)

lemma depth_after_charge:
  assumes w: "gcra_ok w" and t: "clock_ok t" and m: "store_ok t m"
    and b: "bucket_ok b" "bk_Key b = k" "bk_Algorithm b = GCRAID" "bk_Window b = w"
    and r: "evalBucket (mem_view m t b) t b = Inr r" "o_allowed r" and m': "map_of m' k = Some (o_next r)"
  shows "depth_at k w m' t = depth_at k w m t + emission w * bk_Cost b \<and>
    depth_at k w m t + emission w * bk_Cost b \<le> tau w"
proof -
  have e: "gcra_st_ok t (mem_view m t b)" using mem_view_gcra_ok [OF m b(3)] .
  have cost: "1 \<le> bk_Cost b" using b(1) by (simp add: bucket_ok_def)
  have view: "mem_view m t b = mem_view m t (probe k GCRAID w)"
    using b by (intro mem_view_probe) auto
  have r': "r = gcra_outcome (depth_at k w m t) t w (bk_Cost b)"
    using r(1) b by (simp add: evalBucket_def evalGCRA_eq [OF w t e [unfolded view] cost] depth_at_def view)
  have "\<not> Burst w < bk_Cost b" using r(2) by (auto simp: r' gcra_outcome_def)
  then have n: "o_next r = \<lparr>e_algorithm = GCRAID, e_tat = t + depth_at k w m t + emission w * bk_Cost b,
      e_start = 0, e_count = 0, e_deadline = t + depth_at k w m t + emission w * bk_Cost b\<rparr>"
    and le: "depth_at k w m t + emission w * bk_Cost b \<le> tau w"
    using r(2) by (auto simp: r' gcra_outcome_def Let_def)
  have "1 * 1 \<le> emission w * bk_Cost b"
    using gcra_ok_numbers(3) [OF w] cost by (intro mult_mono) auto
  then have "depth_at k w m' t = depth_at k w m t + emission w * bk_Cost b"
    using m' depth_at_nonneg [of k w m t]
    by (simp add: depth_at_def mem_view_def probe_def n stale_def gcra_depth_def [of t "Some _"])
  with le show ?thesis by simp
qed

definition gcra_run_inv :: "string \<Rightarrow> window \<Rightarrow> int \<Rightarrow> int \<Rightarrow> mem \<Rightarrow> int \<Rightarrow> bool" where
  "gcra_run_inv k w t0 c m t \<longleftrightarrow>
     0 \<le> c \<and> emission w * c \<le> depth_at k w m t + (t - t0) \<and> (0 < c \<longrightarrow> depth_at k w m t \<le> tau w)"

lemma gcra_run_inv_later:
  assumes "gcra_run_inv k w t0 c m t" "store_ok t m" "t \<le> t'"
    and "mem_view m' t' (probe k GCRAID w) = mem_view m t' (probe k GCRAID w)"
  shows "gcra_run_inv k w t0 c m' t'"
  using assms depth_at_later [OF assms(2,3), of k w] depth_at_cong [OF assms(4)]
    depth_at_nonneg [of k w m t]
  by (auto simp: gcra_run_inv_def)

lemma gcra_run_inv_charge:
  assumes "gcra_run_inv k w t0 c m t" "1 \<le> cost"
    and "depth_at k w m' t = depth_at k w m t + emission w * cost"
    and "depth_at k w m t + emission w * cost \<le> tau w"
  shows "gcra_run_inv k w t0 (c + cost) m' t"
  using assms by (auto simp: gcra_run_inv_def distrib_left)

lemma gcra_run_invariant:
  assumes run: "store_run k GCRAID w m0 t0 c m t" and w: "gcra_ok w"
    and m0: "store_ok t0 m0" "clock_ok t0"
  shows "gcra_run_inv k w t0 c m t"
  using run
proof (induction rule: store_run.induct)
  case start
  then show ?case by (simp add: gcra_run_inv_def depth_at_nonneg)
next
  case (decide c m t t' bs vs m')
  have ok: "store_ok t m" using run_store_ok [OF decide.hyps(1) m0] by simp
  have ok': "store_ok t' m" using store_ok_mono [OF ok decide.hyps(2)] .
  have inv: "gcra_run_inv k w t0 c m t'"
    using gcra_run_inv_later [OF decide.IH ok decide.hyps(2) refl] .
  from Decide_key_step [OF decide.hyps(5,4)] show ?case
  proof (elim disjE exE conjE)
    assume "charge_of k bs vs = 0"
      "\<forall>u \<ge> t'. mem_view m' u (probe k GCRAID w) = mem_view m u (probe k GCRAID w)"
    then show ?thesis using gcra_run_inv_later [OF decide.IH ok decide.hyps(2), of m'] by simp
  next
    fix b r
    assume b: "b \<in> set bs" "bk_Key b = k" and c: "charge_of k bs vs = bk_Cost b"
      and r: "evalBucket (mem_view m t' b) t' b = Inr r" "o_allowed r" "map_of m' k = Some (o_next r)"
    have bo: "bucket_ok b" "bk_Algorithm b = GCRAID" "bk_Window b = w" "1 \<le> bk_Cost b"
      using decide.hyps(4) b by (auto simp: calls_ok_def bucket_ok_def)
    have "depth_at k w m' t' = depth_at k w m t' + emission w * bk_Cost b \<and>
        depth_at k w m t' + emission w * bk_Cost b \<le> tau w"
      by (rule depth_after_charge [OF w decide.hyps(3) ok' bo(1) b(2) bo(2,3) r])
    then show ?thesis using gcra_run_inv_charge [OF inv bo(4)] c by simp
  qed
next
  case (decide_fails c m t t' bs err m')
  show ?case
    using decide_fails.IH run_store_ok [OF decide_fails.hyps(1) m0] decide_fails.hyps(2)
      memory.decide_error [OF decide_fails.hyps(5) order_refl calls_ok_same [OF decide_fails.hyps(4)]]
    by (auto intro: gcra_run_inv_later)
next
  case (peek c m t t' bs res m')
  then show ?case
    using peek.IH run_store_ok [OF peek.hyps(1) m0] peek.hyps(2,5)
      memory.peek_view [OF order_refl calls_ok_same [OF peek.hyps(4)], of m t']
    by (auto intro: gcra_run_inv_later)
next
  case (scan c m t t' prefix cursor limit sres m')
  have ok: "store_ok t m" using run_store_ok [OF scan.hyps(1) m0] by simp
  then have "gm_ok m" by (simp add: store_ok_def)
  from Scan_view [OF scan.hyps(4) order_refl this]
  show ?case by (rule gcra_run_inv_later [OF scan.IH ok scan.hyps(2)])
next
  case (reset c m t ks)
  have "mem_view (Reset m ks) t (probe k GCRAID w) = mem_view m t (probe k GCRAID w)"
    using reset.hyps by (simp add: memory.reset_view probe_def)
  then show ?case
    using gcra_run_inv_later [OF reset.IH _ order_refl] run_store_ok [OF reset.hyps(1) m0] by blast
qed

section \<open>The fixed window over a run\<close>

definition fixed_run_inv :: "string \<Rightarrow> window \<Rightarrow> int \<Rightarrow> int \<Rightarrow> mem \<Rightarrow> int \<Rightarrow> bool" where
  "fixed_run_inv k w s c m t \<longleftrightarrow> 0 \<le> c \<and> s \<le> fixed_start w t \<and>
     (fixed_start w t = s \<longrightarrow> 0 < c \<longrightarrow>
       (\<exists>e. mem_view m t (probe k FixedWindowID w) = Some e \<and> e_start e = s \<and>
          e_deadline e = s + Period w div 1000 \<and> c \<le> e_count e \<and> e_count e \<le> Requests w))"

lemma fixed_run_inv_later:
  assumes inv: "fixed_run_inv k w s c m t" and w: "fixed_ok w" and t: "t \<le> t'" "clock_ok t'"
    and v: "mem_view m' t' (probe k FixedWindowID w) = mem_view m t' (probe k FixedWindowID w)"
  shows "fixed_run_inv k w s c m' t'"
proof -
  have mono: "fixed_start w t \<le> fixed_start w t'" using fixed_start_mono w t by (simp add: fixed_ok_def)
  have "\<exists>e. mem_view m' t' (probe k FixedWindowID w) = Some e \<and> e_start e = s \<and>
          e_deadline e = s + Period w div 1000 \<and> c \<le> e_count e \<and> e_count e \<le> Requests w"
    if "fixed_start w t' = s" "0 < c"
  proof -
    have "fixed_start w t = s" using inv mono that by (auto simp: fixed_run_inv_def)
    with inv that(2) obtain e where e: "mem_view m t (probe k FixedWindowID w) = Some e" "e_start e = s"
      "e_deadline e = s + Period w div 1000" "c \<le> e_count e" "e_count e \<le> Requests w"
      by (auto simp: fixed_run_inv_def)
    have "t' < e_deadline e" using e(3) that(1) fixed_start_bounds [of w t'] w t by (auto simp: fixed_ok_def)
    then have "mem_view m t' (probe k FixedWindowID w) = Some e"
      using e(1) by (auto simp: mem_view_Some stale_def)
    with e v show ?thesis by auto
  qed
  then show ?thesis using inv mono by (auto simp: fixed_run_inv_def)
qed

lemma fixed_run_inv_charge:
  assumes inv: "fixed_run_inv k w s c m t" and w: "fixed_ok w" and t: "clock_ok t" and m: "store_ok t m"
    and b: "bucket_ok b" "bk_Key b = k" "bk_Algorithm b = FixedWindowID" "bk_Window b = w"
    and r: "evalBucket (mem_view m t b) t b = Inr r" "o_allowed r" "map_of m' k = Some (o_next r)"
  shows "fixed_run_inv k w s (c + bk_Cost b) m' t"
proof -
  define n where "n = fixed_count t w (mem_view m t b)"
  have e: "fixed_st_ok t (mem_view m t b)" using mem_view_fixed_ok [OF m b(3)] .
  have cost: "1 \<le> bk_Cost b" "in64 (bk_Cost b)" using b(1) by (auto simp: bucket_ok_def)
  have view: "mem_view m t b = mem_view m t (probe k FixedWindowID w)"
    using b by (intro mem_view_probe) auto
  have r': "r = fixed_outcome n t w (bk_Cost b)"
    using r(1) b(3,4) by (simp add: evalBucket_def evalFixed_eq [OF w t e cost] n_def)
  have n0: "0 \<le> n" using fixed_count_bounds [OF e] by (simp add: n_def)
  have "bk_Cost b \<le> max (Requests w - n) 0"
    using r(2) unfolding r' by (auto simp: fixed_outcome_def Let_def)
  then have fit: "n + bk_Cost b \<le> Requests w" using cost by auto
  then have "in64 (n + bk_Cost b)" using n0 cost w by (auto simp: fixed_ok_def in64_def)
  then have nx: "e_start (o_next r) = fixed_start w t" "e_count (o_next r) = n + bk_Cost b"
    "e_deadline (o_next r) = fixed_start w t + Period w div 1000" "e_algorithm (o_next r) = FixedWindowID"
    by (simp_all add: r' fixed_outcome_def Let_def add64_id)
  have "mem_view m' t (probe k FixedWindowID w) = Some (o_next r)"
    using r(3) nx fixed_start_bounds [of w t] w t by (auto simp: fixed_ok_def mem_view_Some stale_def probe_def)
  moreover have "c \<le> n" if "fixed_start w t = s"
    using inv that n0 by (auto simp: fixed_run_inv_def n_def view fixed_count_def)
  ultimately show ?thesis using inv nx fit cost by (auto simp: fixed_run_inv_def)
qed

lemma fixed_run_invariant:
  assumes run: "store_run k FixedWindowID w m0 t0 c m t" and w: "fixed_ok w"
    and m0: "store_ok t0 m0" "clock_ok t0"
  shows "fixed_run_inv k w (fixed_start w t0) c m t"
  using run
proof (induction rule: store_run.induct)
  case start
  then show ?case by (simp add: fixed_run_inv_def)
next
  case (decide c m t t' bs vs m')
  have ok': "store_ok t' m"
    using store_ok_mono [OF _ decide.hyps(2)] run_store_ok [OF decide.hyps(1) m0] by blast
  from Decide_key_step [OF decide.hyps(5,4)] show ?case
  proof (elim disjE exE conjE)
    assume "charge_of k bs vs = 0"
      "\<forall>u \<ge> t'. mem_view m' u (probe k FixedWindowID w) = mem_view m u (probe k FixedWindowID w)"
    then show ?thesis using fixed_run_inv_later [OF decide.IH w decide.hyps(2,3), of m'] by simp
  next
    fix b r
    assume b: "b \<in> set bs" "bk_Key b = k" and c: "charge_of k bs vs = bk_Cost b"
      and r: "evalBucket (mem_view m t' b) t' b = Inr r" "o_allowed r" "map_of m' k = Some (o_next r)"
    have bo: "bucket_ok b" "bk_Algorithm b = FixedWindowID" "bk_Window b = w"
      using decide.hyps(4) b by (auto simp: calls_ok_def)
    show ?thesis
      unfolding c by (rule fixed_run_inv_charge [OF fixed_run_inv_later [OF decide.IH w decide.hyps(2,3) refl]
            w decide.hyps(3) ok' bo(1) b(2) bo(2,3) r])
  qed
next
  case (decide_fails c m t t' bs err m')
  show ?case
    by (rule fixed_run_inv_later [OF decide_fails.IH w decide_fails.hyps(2,3)
          memory.decide_error [OF decide_fails.hyps(5) order_refl calls_ok_same [OF decide_fails.hyps(4)]]])
next
  case (peek c m t t' bs res m')
  then have "m' = snd (Peek m t' bs)" by simp
  with memory.peek_view [OF order_refl calls_ok_same [OF peek.hyps(4)], of m t']
  show ?case by (intro fixed_run_inv_later [OF peek.IH w peek.hyps(2,3)]) simp
next
  case (scan c m t t' prefix cursor limit sres m')
  have "gm_ok m" using run_store_ok [OF scan.hyps(1) m0] by (simp add: store_ok_def)
  from Scan_view [OF scan.hyps(4) order_refl this]
  show ?case by (rule fixed_run_inv_later [OF scan.IH w scan.hyps(2,3)])
next
  case (reset c m t ks)
  have "mem_view (Reset m ks) t (probe k FixedWindowID w) = mem_view m t (probe k FixedWindowID w)"
    using reset.hyps by (simp add: memory.reset_view probe_def)
  with run_store_ok [OF reset.hyps(1) m0] show ?case
    by (intro fixed_run_inv_later [OF reset.IH w order_refl]) auto
qed

section \<open>Sample runs\<close>

lemma sample_minute_decided:
  "Decide New sample_time [sample_minute] =
     (Inr [\<lparr>v_Allowed = True, v_Remaining = 1, v_CostExceedsCapacity = False,
            v_RetryAfter = -1, v_ResetAfter = 17142858000\<rparr>],
      [(bk_Key sample_minute, \<lparr>e_algorithm = 1, e_tat = 1700000017142858, e_start = 0, e_count = 0,
         e_deadline = 1700000017142858\<rparr>)])"
  by code_simp

lemma sample_day_decided:
  "Decide New sample_time [sample_day] =
     (Inr [\<lparr>v_Allowed = True, v_Remaining = 3, v_CostExceedsCapacity = False,
            v_RetryAfter = -1, v_ResetAfter = 6400000000000\<rparr>],
      [(bk_Key sample_day, \<lparr>e_algorithm = 2, e_tat = 0, e_start = 1699920000000000, e_count = 2,
         e_deadline = 1700006400000000\<rparr>)])"
  by code_simp

lemma one_call_run:
  assumes "Decide m t [b] = (Inr [v], m')" "bucket_ok b" "clock_ok t" "v_Allowed v"
  shows "store_run (bk_Key b) (bk_Algorithm b) (bk_Window b) m t (bk_Cost b) m' t"
proof -
  have "calls_ok (bk_Key b) (bk_Algorithm b) (bk_Window b) [b]" using assms(2) by (simp add: calls_ok_def)
  moreover have "charge_of (bk_Key b) [b] [v] = bk_Cost b"
    using assms(4) by (simp add: charge_of_def Admitted_def)
  ultimately show ?thesis
    using store_run.decide [OF store_run.start order_refl assms(3) _ assms(1)] by force
qed

lemma sample_minute_run:
  "\<exists>m. store_run (bk_Key sample_minute) GCRAID (bk_Window sample_minute) New sample_time 2 m sample_time"
  using one_call_run [OF sample_minute_decided sample_buckets_ok(1) sample_clock_ok]
  by (auto simp: sample_minute_def)

lemma sample_day_run:
  "\<exists>m. store_run (bk_Key sample_day) FixedWindowID (bk_Window sample_day) New sample_time 2 m sample_time"
  using one_call_run [OF sample_day_decided sample_buckets_ok(2) sample_clock_ok]
  by (auto simp: sample_day_def)

section \<open>The limits\<close>





end
