(* ===== verification/Lua_Number.thy ===== *)
theory Lua_Number
  imports GoPrelude Complex_Main "HOL-Library.Log_Nat"
begin

text \<open>
  The numbers of the decision script (\<open>engine/store/redis/script.lua\<close>). A Lua number is an
  IEEE double; here it is the rational it denotes, and every operation rounds its exact result
  to the nearest rational with a significand of 53 bits, ties to even. The exponent range of a
  double is far beyond what the script computes and is left out. The lemmas say where rounding
  changes nothing: on integers up to \<open>2 ^ 53\<close>, and under \<open>math.floor\<close> and \<open>math.ceil\<close> of a
  quotient of such integers.
\<close>

section \<open>Rounding\<close>

definition round_even :: "rat \<Rightarrow> int" where
  "round_even x =
     (let f = \<lfloor>x\<rfloor>; d = x - of_int f
      in if d < 1 / 2 then f else if 1 / 2 < d then f + 1 else if even f then f else f + 1)"

text \<open>The exponent of the leading binary digit of a positive number.\<close>

definition binexp :: "rat \<Rightarrow> int" where
  "binexp x =
     (let (a, b) = quotient_of x; k = bitlen a - bitlen b
      in if 2 powi k \<le> x then k else k - 1)"

definition dbl :: "rat \<Rightarrow> rat" where
  "dbl x =
     (if x = 0 then 0
      else let u = 2 powi (binexp \<bar>x\<bar> - 52) in of_int (round_even (x / u)) * u)"

definition ladd :: "rat \<Rightarrow> rat \<Rightarrow> rat" where "ladd a b = dbl (a + b)"
definition lsub :: "rat \<Rightarrow> rat \<Rightarrow> rat" where "lsub a b = dbl (a - b)"
definition lmul :: "rat \<Rightarrow> rat \<Rightarrow> rat" where "lmul a b = dbl (a * b)"
definition ldiv :: "rat \<Rightarrow> rat \<Rightarrow> rat" where "ldiv a b = dbl (a / b)"
definition lfloor :: "rat \<Rightarrow> rat" where "lfloor x = of_int \<lfloor>x\<rfloor>"
definition lceil :: "rat \<Rightarrow> rat" where "lceil x = of_int \<lceil>x\<rceil>"

text \<open>The operator \<open>%\<close> of Lua 5.1.\<close>

definition lmod :: "rat \<Rightarrow> rat \<Rightarrow> rat" where
  "lmod a b = lsub a (lmul (lfloor (ldiv a b)) b)"

text \<open>
  \<open>tonumber\<close> on decimal integers, the only form the script's caller and the script itself
  write, and \<open>%.0f\<close> of \<open>string.format\<close>.
\<close>

definition tonum :: "string \<Rightarrow> rat option" where
  "tonum s =
     (let (neg, ds) = (if s \<noteq> [] \<and> hd s = CHR ''-'' then (True, tl s) else (False, s));
          n = foldl (\<lambda>n c. n * 10 + (of_char c - 48)) 0 ds
      in if ds \<noteq> [] \<and> list_all isDigit ds then Some (dbl (of_int (if neg then - n else n))) else None)"

definition fmt0 :: "rat \<Rightarrow> string" where
  "fmt0 x = FormatInt (round_even x)"

text \<open>A number of a reply reaches the client as the integer it truncates to.\<close>

definition reply_number :: "rat \<Rightarrow> int" where
  "reply_number x = (if x < 0 then \<lceil>x\<rceil> else \<lfloor>x\<rfloor>)"

section \<open>Where rounding is exact\<close>

named_theorems lua_exact "rewriting of exact double operations to integer ones"

lemma round_even_int [simp]: "round_even (of_int i) = i"
  by (simp add: round_even_def)

lemma round_even_error: "\<bar>of_int (round_even x) - x\<bar> \<le> 1 / 2"
proof -
  have "of_int \<lfloor>x\<rfloor> \<le> x" "x < of_int \<lfloor>x\<rfloor> + 1" by linarith+
  then show ?thesis by (auto simp: round_even_def Let_def abs_le_iff)
qed

lemma binexp_le:
  assumes "0 < x"
  shows "2 powi binexp x \<le> x"
proof -
  obtain a b where q: "quotient_of x = (a, b)" by (cases "quotient_of x")
  have b: "0 < b" using quotient_of_denom_pos [OF q] .
  have x: "x = of_int a / of_int b" using quotient_of_div [OF q] .
  with assms b have a: "0 < a" by (simp add: zero_less_divide_iff)
  have la: "1 \<le> bitlen a" and lb: "1 \<le> bitlen b"
    using a b bitlen_bounds [of a] bitlen_bounds [of b] by (auto simp: bitlen_alt_def)
  have A: "2 powi (bitlen a - 1) \<le> (of_int a :: rat)"
  proof -
    have "2 ^ nat (bitlen a - 1) \<le> a" using bitlen_bounds [OF a] by simp
    then have "of_int (2 ^ nat (bitlen a - 1)) \<le> (of_int a :: rat)" by (simp only: of_int_le_iff)
    with la show ?thesis by (simp add: power_int_def)
  qed
  have B: "(of_int b :: rat) \<le> 2 powi bitlen b"
  proof -
    have "b \<le> 2 ^ nat (bitlen b)" using bitlen_bounds [OF b] by simp
    then have "of_int b \<le> (of_int (2 ^ nat (bitlen b)) :: rat)" by (simp only: of_int_le_iff)
    with lb show ?thesis by (simp add: power_int_def)
  qed
  have "2 powi (bitlen a - bitlen b - 1) = (2 powi (bitlen a - 1) / 2 powi bitlen b :: rat)"
    by (simp add: power_int_diff [symmetric] algebra_simps)
  also have "\<dots> \<le> of_int a / of_int b"
    using A B a b by (intro frac_le) auto
  finally have "2 powi (bitlen a - bitlen b - 1) \<le> x" by (simp add: x)
  then show ?thesis by (simp add: binexp_def q Let_def)
qed

lemma dbl_error: "\<bar>dbl x - x\<bar> \<le> \<bar>x\<bar> / 2 ^ 53"
proof (cases "x = 0")
  case False
  define u :: rat where "u = 2 powi (binexp \<bar>x\<bar> - 52)"
  have u: "0 < u" by (simp add: u_def)
  have "u * 2 ^ 52 = 2 powi binexp \<bar>x\<bar>"
    using power_int_add [of "2 :: rat" "binexp \<bar>x\<bar> - 52" 52] by (simp add: u_def)
  also have "\<dots> \<le> \<bar>x\<bar>" using False by (intro binexp_le) simp
  finally have "u / 2 \<le> \<bar>x\<bar> / 2 ^ 53" by simp
  moreover have "dbl x - x = (of_int (round_even (x / u)) - x / u) * u"
    using False u by (simp add: dbl_def u_def [symmetric] Let_def algebra_simps)
  then have "\<bar>dbl x - x\<bar> = \<bar>of_int (round_even (x / u)) - x / u\<bar> * u"
    using u by (simp add: abs_mult)
  moreover have "\<dots> \<le> 1 / 2 * u" using round_even_error u by (intro mult_right_mono) auto
  ultimately show ?thesis by simp
qed (simp add: dbl_def)

lemma dbl_int:
  assumes "\<bar>i\<bar> \<le> 2 ^ 53"
  shows "dbl (of_int i) = of_int i"
proof (cases "i = 0")
  case False
  define k where "k = binexp \<bar>of_int i\<bar>"
  have "2 powi k \<le> \<bar>of_int i :: rat\<bar>" unfolding k_def using False by (intro binexp_le) simp
  also have "\<dots> = of_int \<bar>i\<bar>" by simp
  also have "\<dots> \<le> of_int (2 ^ 53)" using assms by (simp only: of_int_le_iff)
  also have "\<dots> = 2 powi 53" by simp
  finally have le: "2 powi k \<le> (2 powi 53 :: rat)" .
  have k: "k \<le> 53"
  proof (rule ccontr)
    assume "\<not> k \<le> 53"
    then have "2 powi 53 < (2 powi k :: rat)" by (intro power_int_strict_increasing) auto
    with le show False by simp
  qed
  have "\<exists>j. (of_int i :: rat) / 2 powi (k - 52) = of_int j"
  proof (cases "k \<le> 52")
    case True
    then have "2 powi (52 - k) = (2 ^ nat (52 - k) :: rat)" by (simp add: power_int_def)
    then have "(2 powi (k - 52) :: rat) = inverse (2 ^ nat (52 - k))"
      using power_int_minus [of "2 :: rat" "52 - k"] by simp
    then have "(of_int i :: rat) / 2 powi (k - 52) = of_int (i * 2 ^ nat (52 - k))"
      by (simp add: divide_inverse)
    then show ?thesis by blast
  next
    case False
    with k have "k = 53" by simp
    with \<open>2 powi k \<le> \<bar>of_int i :: rat\<bar>\<close> have "of_int (2 ^ 53) \<le> (of_int \<bar>i\<bar> :: rat)" by simp
    then have "\<bar>i\<bar> = 2 ^ 53" using assms by (simp only: of_int_le_iff)
    then have "i = 2 * (if 0 \<le> i then 2 ^ 52 else - (2 ^ 52))" by (auto simp: abs_if split: if_splits)
    then obtain j where "i = 2 * j" by blast
    then show ?thesis using \<open>k = 53\<close> by auto
  qed
  then obtain j where j: "(of_int i :: rat) / 2 powi (k - 52) = of_int j" by blast
  then have "of_int j * 2 powi (k - 52) = (of_int i :: rat)" by (simp add: divide_eq_eq)
  with j show ?thesis using False by (simp add: dbl_def k_def Let_def)
qed (simp add: dbl_def)

lemma ladd_int [lua_exact]: "\<bar>a + b\<bar> \<le> 2 ^ 53 \<Longrightarrow> ladd (of_int a) (of_int b) = of_int (a + b)"
  unfolding ladd_def using dbl_int [of "a + b"] by simp

lemma lsub_int [lua_exact]: "\<bar>a - b\<bar> \<le> 2 ^ 53 \<Longrightarrow> lsub (of_int a) (of_int b) = of_int (a - b)"
  unfolding lsub_def using dbl_int [of "a - b"] by simp

lemma lmul_int [lua_exact]: "\<bar>a * b\<bar> \<le> 2 ^ 53 \<Longrightarrow> lmul (of_int a) (of_int b) = of_int (a * b)"
  unfolding lmul_def using dbl_int [of "a * b"] by simp

text \<open>
  A quotient that is no integer lies at least \<open>1 / b\<close> away from the nearest one, and rounding
  moves it by less.
\<close>

lemma ldiv_error:
  assumes "\<bar>a\<bar> < 2 ^ 53" "0 < b"
  shows "\<bar>ldiv (of_int a) (of_int b) - of_int a / of_int b\<bar> < 1 / of_int b"
proof -
  have "\<bar>ldiv (of_int a) (of_int b) - of_int a / of_int b\<bar> \<le> \<bar>of_int a / of_int b\<bar> / 2 ^ 53"
    unfolding ldiv_def by (rule dbl_error)
  also have "\<dots> = of_int \<bar>a\<bar> / 2 ^ 53 / of_int b" using assms(2) by simp
  also have "\<dots> < 1 / of_int b"
  proof (rule divide_strict_right_mono)
    have "of_int \<bar>a\<bar> < (of_int (2 ^ 53) :: rat)" using assms(1) by (simp only: of_int_less_iff)
    then show "of_int \<bar>a\<bar> / 2 ^ 53 < (1 :: rat)" by simp
  qed (use assms(2) in simp)
  finally show ?thesis .
qed

lemma ldiv_multiple:
  assumes "\<bar>a\<bar> < 2 ^ 53" "0 < b" "a mod b = 0"
  shows "ldiv (of_int a) (of_int b) = of_int (a div b)"
proof -
  obtain j where a: "a = b * j" using assms(3) by (auto simp: mod_eq_0_iff_dvd)
  then have j: "a div b = j" using assms(2) by simp
  have "\<bar>j\<bar> * 1 \<le> \<bar>j\<bar> * b" using assms(2) by (intro mult_left_mono) auto
  also have "\<dots> = \<bar>a\<bar>" using a assms(2) by (simp add: abs_mult)
  finally have "\<bar>j\<bar> \<le> 2 ^ 53" using assms(1) by linarith
  moreover have "(of_int a / of_int b :: rat) = of_int j" using a assms(2) by simp
  ultimately show ?thesis unfolding ldiv_def j by (simp only: dbl_int)
qed

lemma floor_ldiv [lua_exact]:
  assumes "\<bar>a\<bar> < 2 ^ 53" "0 < b"
  shows "lfloor (ldiv (of_int a) (of_int b)) = of_int (a div b)"
proof (cases "a mod b = 0")
  case False
  define q :: rat where "q = of_int a / of_int b"
  define x where "x = ldiv (of_int a) (of_int b)"
  have r: "1 \<le> a mod b" "a mod b \<le> b - 1"
    using False assms(2) pos_mod_sign [of b a] pos_mod_bound [of b a] by linarith+
  have "(of_int a :: rat) = of_int (a div b) * of_int b + of_int (a mod b)"
    by (simp flip: of_int_add of_int_mult)
  then have q: "q = of_int (a div b) + of_int (a mod b) / of_int b"
    using assms(2) by (simp add: q_def add_divide_distrib)
  have B: "0 \<le> (of_int b :: rat)" and R: "1 \<le> (of_int (a mod b) :: rat)"
    "of_int (a mod b) \<le> (of_int (b - 1) :: rat)"
    using r assms(2) by (simp_all only: of_int_le_iff of_int_0_le_iff of_int_1_le_iff)
  have lo: "1 / of_int b \<le> (of_int (a mod b) / of_int b :: rat)"
    using R(1) B by (rule divide_right_mono)
  have "(of_int (a mod b) / of_int b :: rat) \<le> of_int (b - 1) / of_int b"
    using R(2) B by (rule divide_right_mono)
  also have "\<dots> = 1 - 1 / of_int b" using assms(2) by (simp add: diff_divide_distrib)
  finally have hi: "(of_int (a mod b) / of_int b :: rat) \<le> 1 - 1 / of_int b" .
  have "\<bar>x - q\<bar> < 1 / of_int b" unfolding x_def q_def by (rule ldiv_error [OF assms])
  with q lo hi have "of_int (a div b) \<le> x" "x < of_int (a div b) + 1" by linarith+
  then have "\<lfloor>x\<rfloor> = a div b" by (simp add: floor_eq_iff)
  then show ?thesis by (simp add: lfloor_def x_def)
qed (simp add: ldiv_multiple [OF assms] lfloor_def)

lemma dbl_minus [simp]: "dbl (- x) = - dbl x"
proof -
  have "round_even (- y) = - round_even y" for y
  proof (cases "y = of_int \<lfloor>y\<rfloor>")
    case True
    then show ?thesis by (metis of_int_minus round_even_int)
  next
    case False
    then have "\<lfloor>- y\<rfloor> = - \<lfloor>y\<rfloor> - 1" by linarith
    then show ?thesis by (simp add: round_even_def Let_def)
  qed
  then show ?thesis by (simp add: dbl_def Let_def)
qed

lemma ceil_ldiv [lua_exact]:
  assumes "\<bar>a\<bar> < 2 ^ 53" "0 < b"
  shows "lceil (ldiv (of_int a) (of_int b)) = of_int (- ((- a) div b))"
proof -
  have "ldiv (of_int (- a)) (of_int b) = - ldiv (of_int a) (of_int b)" by (simp add: ldiv_def)
  moreover have "lfloor (ldiv (of_int (- a)) (of_int b)) = of_int ((- a) div b)"
    using assms by (intro floor_ldiv) auto
  ultimately show ?thesis by (simp add: lfloor_def lceil_def ceiling_def)
qed

lemma lmod_int [lua_exact]:
  assumes "0 \<le> a" "a < 2 ^ 53" "0 < b"
  shows "lmod (of_int a) (of_int b) = of_int (a mod b)"
proof -
  have "a div b * b = a - a mod b" by (simp add: minus_mod_eq_div_mult)
  moreover have "0 \<le> a mod b" "a mod b \<le> a" using assms by (simp_all add: zmod_le_nonneg_dividend)
  ultimately have "\<bar>a\<bar> < 2 ^ 53" "\<bar>a div b * b\<bar> \<le> 2 ^ 53" "\<bar>a - a div b * b\<bar> \<le> 2 ^ 53"
    "a - a div b * b = a mod b"
    using assms by linarith+
  with assms(3) show ?thesis unfolding lmod_def by (simp only: floor_ldiv lmul_int lsub_int)
qed

section \<open>Numbers as text\<close>

lemma digits_FormatNat:
  "foldl (\<lambda>n c. n * 10 + (of_char c - 48)) 0 (FormatNat n) = (int n :: int)"
proof (induction n rule: FormatNat.induct)
  case (1 n)
  have d: "of_char (digit_char d) = (int d + 48 :: int)" if "d < 10" for d
    using of_char_digit_char [OF that] by (metis of_char_of of_nat_add of_nat_numeral of_nat_of_char)
  show ?case
  proof (cases "n < 10")
    case True
    then show ?thesis by (simp add: FormatNat.simps [of n] d)
  next
    case False
    have "int (n div 10) * 10 + int (n mod 10) = int n"
      by (metis div_mult_mod_eq of_nat_add of_nat_mult of_nat_numeral)
    with 1 False show ?thesis by (simp add: FormatNat.simps [of n] d)
  qed
qed

lemma FormatNat_no_minus: "hd (FormatNat n) \<noteq> CHR ''-''"
  using FormatNat_digits [of "hd (FormatNat n)" n] by (auto simp: isDigit_def less_eq_char_def)

lemma tonum_FormatInt:
  assumes "\<bar>i\<bar> \<le> 2 ^ 53"
  shows "tonum (FormatInt i) = Some (of_int i)"
proof (cases "i < 0")
  case True
  then show ?thesis
    using dbl_int [OF assms] FormatNat_digits [of _ "nat (- i)"]
    by (simp add: tonum_def FormatInt_def digits_FormatNat list_all_iff)
next
  case False
  have "hd (FormatNat (nat i)) \<noteq> CHR ''-''" by (rule FormatNat_no_minus)
  then show ?thesis
    using False dbl_int [OF assms] FormatNat_digits [of _ "nat i"]
    by (simp add: tonum_def FormatInt_def digits_FormatNat list_all_iff)
qed

lemma fmt0_int [lua_exact]: "fmt0 (of_int i) = FormatInt i"
  by (simp add: fmt0_def)

lemma reply_number_int [lua_exact]: "reply_number (of_int i) = i"
  by (simp add: reply_number_def)

end
