(* ===== verification/Redis_Store.thy ===== *)
theory Redis_Store
  imports Memory_Trace Lua_Number "HOL-Library.Monad_Syntax"
begin

text \<open>
  The shared counter store (\<open>engine/store/redis\<close>): the decision script \<open>script.lua\<close>, and the Go
  side that calls it and reads its reply. The Redis server and its client are parameters: what a
  key holds at a time (\<open>get\<close>), the effect of \<open>SET ... PX\<close> (\<open>put\<close>) and \<open>DEL\<close>, and the execution
  of a script (\<open>exec\<close>). The script's numbers are the doubles of \<open>Lua_Number\<close>.
\<close>

section \<open>The decision script\<close>

text \<open>
  What the first pass keeps of a bucket: the uncharged quintuple of the reply and, when the
  bucket's own verdict allows, the charged remaining (\<open>rc\<close>), the charged reset (\<open>sc\<close>) and the
  next state (\<open>sa\<close>, and \<open>sb\<close> for a fixed window).
\<close>

record lua_row =
  lr_allowed :: bool
  lr_exceeds :: bool
  lr_current :: rat
  lr_retry :: rat
  lr_reset :: rat
  lr_charge :: "(rat \<times> rat \<times> rat \<times> rat option) option"

definition lua_tat :: "rat \<Rightarrow> string option \<Rightarrow> rat" where
  "lua_tat now state =
     (case state of
        None \<Rightarrow> now
      | Some s \<Rightarrow>
          (case tonum s of
             Some stored \<Rightarrow> if stored > now then stored else now
           | None \<Rightarrow> now))"

definition lua_gcra :: "rat \<Rightarrow> string option \<Rightarrow> rat \<Rightarrow> rat \<Rightarrow> rat \<Rightarrow> rat \<Rightarrow> lua_row" where
  "lua_gcra now state em ta burst cost =
     (let tat = lua_tat now state;
          depth = lsub tat now;
          current = (let c = lfloor (ldiv (lsub ta depth) em) in if c < 0 then 0 else c)
      in if cost > burst then
           \<lparr>lr_allowed = False, lr_exceeds = True, lr_current = current, lr_retry = -1, lr_reset = depth,
            lr_charge = None\<rparr>
         else
           let new_tat = ladd tat (lmul em cost); diff = lsub now (lsub new_tat ta) in
           if diff \<ge> 0 then
             \<lparr>lr_allowed = True, lr_exceeds = False, lr_current = current, lr_retry = -1, lr_reset = depth,
              lr_charge = Some (lfloor (ldiv diff em), lsub new_tat now, new_tat, None)\<rparr>
           else
             \<lparr>lr_allowed = False, lr_exceeds = False, lr_current = current, lr_retry = - diff,
              lr_reset = depth, lr_charge = None\<rparr>)"

definition lua_count :: "string option \<Rightarrow> rat \<Rightarrow> rat" where
  "lua_count state start =
     (case state of
        None \<Rightarrow> 0
      | Some str \<Rightarrow>
          (let (before, after, found) = Cut str (CHR '':'') in
           if found then
             (case (tonum before, tonum after) of
                (Some s, Some c) \<Rightarrow> if s = start then c else 0
              | _ \<Rightarrow> 0)
           else 0))"

definition lua_fixed :: "rat \<Rightarrow> string option \<Rightarrow> rat \<Rightarrow> rat \<Rightarrow> rat \<Rightarrow> lua_row" where
  "lua_fixed now state period requests cost =
     (let start = lsub now (lmod now period);
          count = lua_count state start;
          left = (let l = lsub requests count in if l < 0 then 0 else l);
          boundary = lsub (ladd start period) now;
          allowed = (cost \<le> left);
          exceeds = (cost > requests)
      in \<lparr>lr_allowed = allowed, lr_exceeds = exceeds, lr_current = left,
          lr_retry = (if allowed \<or> exceeds then -1 else boundary),
          lr_reset = (if count = 0 then 0 else boundary),
          lr_charge = (if allowed then Some (lsub left cost, boundary, start, Some (ladd count cost)) else None)\<rparr>)"

text \<open>
  The first pass over the buckets, each with its six arguments. \<open>None\<close> is a script error: an
  argument that is missing or no number. A divisor of zero, which in Lua gives an infinite
  quotient with no integer for the reply, is \<open>None\<close> too.
\<close>

fun lua_rows :: "rat \<Rightarrow> string option list \<Rightarrow> string list \<Rightarrow> (lua_row \<times> bool) list option" where
  "lua_rows now [] argv = Some []"
| "lua_rows now (state # states) (cost # alg # p1 # p2 # p3 # shadow # argv) =
     do {
       cost \<leftarrow> tonum cost; alg \<leftarrow> tonum alg; p1 \<leftarrow> tonum p1; p2 \<leftarrow> tonum p2; p3 \<leftarrow> tonum p3;
       _ \<leftarrow> (if p1 = 0 then None else Some ());
       rows \<leftarrow> lua_rows now states argv;
       Some (((if alg = 1 then lua_gcra now state p1 p2 p3 cost else lua_fixed now state p1 p2 cost),
              shadow = ''1'') # rows)
     }"
| "lua_rows now (state # states) argv = None"

definition bit_num :: "bool \<Rightarrow> rat" where "bit_num b = (if b then 1 else 0)"

text \<open>The quintuple of a bucket: as the first pass writes it, and as the commit pass patches it.\<close>

definition current_reply :: "lua_row \<Rightarrow> rat list" where
  "current_reply r = [bit_num (lr_allowed r), bit_num (lr_exceeds r), lr_current r, lr_retry r, lr_reset r]"

definition charged_reply :: "lua_row \<Rightarrow> rat list" where
  "charged_reply r =
     (case lr_charge r of
        None \<Rightarrow> current_reply r
      | Some (rc, sc, _) \<Rightarrow> [1, 0, rc, -1, sc])"

text \<open>A write of the commit pass: the key, its state, and its time to live in whole milliseconds.\<close>

type_synonym redis_set = "string \<times> string \<times> int"

definition state_text :: "rat \<Rightarrow> rat option \<Rightarrow> string" where
  "state_text sa sb = (case sb of Some b \<Rightarrow> fmt0 sa @ CHR '':'' # fmt0 b | None \<Rightarrow> fmt0 sa)"

definition commit_set :: "string \<Rightarrow> lua_row \<Rightarrow> redis_set list" where
  "commit_set key r =
     (case lr_charge r of
        None \<Rightarrow> []
      | Some (rc, sc, sa, sb) \<Rightarrow> [(key, state_text sa sb, reply_number (lceil (ldiv sc 1000)))])"

definition admitted_rows :: "(lua_row \<times> bool) list \<Rightarrow> bool" where
  "admitted_rows rows = list_all (\<lambda>(r, shadow). shadow \<or> lr_allowed r) rows"

definition lua_script ::
  "rat \<Rightarrow> string list \<Rightarrow> string option list \<Rightarrow> string list \<Rightarrow> (int list \<times> redis_set list) option" where
  "lua_script now keys states argv =
     (case argv of
        [] \<Rightarrow> None
      | mode # args \<Rightarrow>
          do {
            rows \<leftarrow> lua_rows now states args;
            let admitted = admitted_rows rows;
            let commits = (admitted \<and> mode = ''decide'');
            Some (map reply_number
                    (bit_num admitted # concat (map (\<lambda>(r, _). if commits then charged_reply r else current_reply r) rows)),
                  if commits then concat (map2 (\<lambda>k (r, _). commit_set k r) keys rows) else [])
          })"

text \<open>
  One run of the script against a keyspace: \<open>TIME\<close> gives seconds and microseconds, \<open>MGET\<close> the
  states, and the commit pass writes key after key. A run is atomic, and its clock
  stands still; \<open>err\<close> is the server's report of a script error.
\<close>

definition lua_now :: "int \<Rightarrow> rat" where
  "lua_now t = ladd (lmul (of_int (t div 1000000)) 1000000) (of_int (t mod 1000000))"

datatype reply = RInt int | RArr "reply list" | RStr string | RNil

definition run_script ::
  "('ks \<Rightarrow> int \<Rightarrow> string \<Rightarrow> string option) \<Rightarrow> (int \<Rightarrow> redis_set \<Rightarrow> 'ks \<Rightarrow> 'ks) \<Rightarrow>
     goerror \<Rightarrow> int \<Rightarrow> 'ks \<Rightarrow> string list \<Rightarrow> string list \<Rightarrow> reply result \<times> 'ks" where
  "run_script get put err t ks keys argv =
     (case lua_script (lua_now t) keys (map (get ks t) keys) argv of
        None \<Rightarrow> (Inl err, ks)
      | Some (out, sets) \<Rightarrow> (Inr (RArr (map RInt out)), fold (put t) sets ks))"

section \<open>The caller\<close>

definition boolArg :: "bool \<Rightarrow> string" where
  "boolArg b = (if b then ''1'' else ''0'')"

definition replyLen :: "reply \<Rightarrow> int" where
  "replyLen res = (case res of RArr arr \<Rightarrow> int (length arr) | _ \<Rightarrow> -1)"

definition redis_microsDuration :: "int \<Rightarrow> int" where
  "redis_microsDuration us = (if us < 0 then -1 else mul64 us Microsecond)"

definition reply_int :: "reply \<Rightarrow> int option" where
  "reply_int r = (case r of RInt i \<Rightarrow> Some i | _ \<Rightarrow> None)"

fun parse_verdicts :: "nat \<Rightarrow> reply list \<Rightarrow> verdict list result" where
  "parse_verdicts base (a # b # c # d # e # rest) =
     (case find (\<lambda>(_, r). reply_int r = None) (enumerate base [a, b, c, d, e]) of
        Some (i, _) \<Rightarrow> Inl (Errorf ''redis: decision script returned a non-integer at position %d'' [FInt (int i)])
      | None \<Rightarrow>
          (case parse_verdicts (base + 5) rest of
             Inl err \<Rightarrow> Inl err
           | Inr vs \<Rightarrow>
               let v = (\<lambda>r. the (reply_int r)) in
               Inr (\<lparr>v_Allowed = (v a = 1), v_Remaining = v c, v_CostExceedsCapacity = (v b = 1),
                     v_RetryAfter = redis_microsDuration (v d), v_ResetAfter = redis_microsDuration (v e)\<rparr> # vs)))"
| "parse_verdicts base _ = Inr []"

definition parseReply :: "reply \<Rightarrow> nat \<Rightarrow> verdict list result" where
  "parseReply res n =
     (case res of
        RArr arr \<Rightarrow>
          if length arr = 1 + n * 5 then parse_verdicts 1 (tl arr)
          else Inl (Errorf ''redis: decision script returned a malformed reply (%d values, want %d)''
                      [FInt (replyLen res), FInt (int (1 + n * 5))])
      | _ \<Rightarrow> Inl (Errorf ''redis: decision script returned a malformed reply (%d values, want %d)''
                   [FInt (replyLen res), FInt (int (1 + n * 5))]))"

text \<open>The six arguments of a bucket.\<close>

definition bucket_args :: "bucket \<Rightarrow> string list result" where
  "bucket_args b =
     (if bk_Algorithm b = GCRAID then
        (case (EmissionMicros (bk_Window b), TauMicros (bk_Window b)) of
           (Some em, Some ta) \<Rightarrow>
             Inr [FormatInt (bk_Cost b), FormatInt (int GCRAID), FormatInt em, FormatInt ta,
                  FormatInt (Burst (bk_Window b)), boolArg (bk_Shadow b)]
         | _ \<Rightarrow> Inl divide_by_zero)
      else if bk_Algorithm b = FixedWindowID then
        Inr [FormatInt (bk_Cost b), FormatInt (int FixedWindowID), FormatInt (PeriodMicros (bk_Window b)),
             FormatInt (Requests (bk_Window b)), FormatInt 0, boolArg (bk_Shadow b)]
      else Inl (Errorf ''redis: unknown algorithm id %d'' [FInt (int (bk_Algorithm b))]))"

fun all_args :: "bucket list \<Rightarrow> string list result" where
  "all_args [] = Inr []"
| "all_args (b # bs) =
     (case bucket_args b of
        Inl err \<Rightarrow> Inl err
      | Inr xs \<Rightarrow> (case all_args bs of Inl err \<Rightarrow> Inl err | Inr ys \<Rightarrow> Inr (xs @ ys)))"

definition redis_run ::
  "('ks \<Rightarrow> string list \<Rightarrow> string list \<Rightarrow> reply result \<times> 'ks) \<Rightarrow> string \<Rightarrow> 'ks \<Rightarrow> bucket list \<Rightarrow> verdict list result \<times> 'ks" where
  "redis_run exec mode ks buckets =
     (case GuardBuckets buckets of
        Some err \<Rightarrow> (Inl err, ks)
      | None \<Rightarrow>
          if length buckets = 0 then (Inr [], ks)
          else (case all_args buckets of
              Inl err \<Rightarrow> (Inl err, ks)
            | Inr args \<Rightarrow>
                (case exec ks (map bk_Key buckets) (mode # args) of
                   (Inl err, ks') \<Rightarrow> (Inl (Errorf ''redis: decision script: %w'' [FErr err]), ks')
                 | (Inr res, ks') \<Rightarrow> (parseReply res (length buckets), ks'))))"

definition redis_Decide ::
  "('ks \<Rightarrow> string list \<Rightarrow> string list \<Rightarrow> reply result \<times> 'ks) \<Rightarrow> 'ks \<Rightarrow> bucket list \<Rightarrow> verdict list result \<times> 'ks" where
  "redis_Decide exec ks buckets = redis_run exec ''decide'' ks buckets"

definition redis_Peek ::
  "('ks \<Rightarrow> string list \<Rightarrow> string list \<Rightarrow> reply result \<times> 'ks) \<Rightarrow> 'ks \<Rightarrow> bucket list \<Rightarrow> verdict list result \<times> 'ks" where
  "redis_Peek exec ks buckets = redis_run exec ''peek'' ks buckets"

definition redis_Reset :: "('ks \<Rightarrow> string list \<Rightarrow> goerror option \<times> 'ks) \<Rightarrow> 'ks \<Rightarrow> string list \<Rightarrow> goerror option \<times> 'ks" where
  "redis_Reset pipe_del ks keys =
     (if length keys = 0 then (None, ks)
      else (case pipe_del ks keys of
          (Some err, ks') \<Rightarrow> (Some (Errorf ''redis: reset: %w'' [FErr err]), ks')
        | (None, ks') \<Rightarrow> (None, ks')))"

end
