(* ===== verification/Redis_Rows.thy ===== *)
theory Redis_Rows
  imports Redis_Store
begin

text \<open>
  The formulas of the decision script against those of the in-memory store: on a bucket the
  compiler admits, at a clock reading the doubles hold exactly, each row of the first pass is the
  outcome the reference computes, quintuple for quintuple, and its charge is the reference's next
  entry as text. This is what the header comment of \<open>script.lua\<close> asks for, formula for formula.
\<close>

section \<open>Where the script is exact\<close>

text \<open>
  The clock bound lies in the year 2191. A GCRA state may lie \<open>10 ^ 15\<close> microseconds ahead of the
  clock and a charge may add as much again; the sum is still below \<open>2 ^ 53\<close>.
\<close>

definition lua_clock_ok :: "int \<Rightarrow> bool" where
  "lua_clock_ok t \<longleftrightarrow> 0 \<le> t \<and> t \<le> 7000000000000000"

definition lua_bucket_ok :: "bucket \<Rightarrow> bool" where
  "lua_bucket_ok b \<longleftrightarrow> bucket_ok b \<and> bk_Cost b \<le> 2 ^ 53 \<and> Requests (bk_Window b) \<le> 2 ^ 53"

lemma lua_clock_clock: "lua_clock_ok t \<Longrightarrow> clock_ok t"
  by (simp add: lua_clock_ok_def clock_ok_def)

lemma lua_now_exact:
  assumes "lua_clock_ok t"
  shows "lua_now t = of_int t"
proof -
  have "0 \<le> t div 1000000 * 1000000" "t div 1000000 * 1000000 \<le> t"
    using assms by (auto simp: lua_clock_ok_def)
  then have "lmul (of_int (t div 1000000)) (of_int 1000000) = of_int (t div 1000000 * 1000000)"
    using assms by (intro lmul_int) (simp add: lua_clock_ok_def)
  moreover have "ladd (of_int (t div 1000000 * 1000000)) (of_int (t mod 1000000)) = of_int (t div 1000000 * 1000000 + t mod 1000000)"
    using assms by (intro ladd_int) (simp add: lua_clock_ok_def)
  ultimately show ?thesis unfolding lua_now_def by (simp only: of_int_numeral div_mult_mod_eq)
qed

section \<open>Verdicts\<close>

text \<open>The verdict the caller reads off a quintuple.\<close>

definition verdict5 :: "int list \<Rightarrow> verdict" where
  "verdict5 q =
     \<lparr>v_Allowed = (q ! 0 = 1), v_Remaining = q ! 2, v_CostExceedsCapacity = (q ! 1 = 1),
      v_RetryAfter = redis_microsDuration (q ! 3), v_ResetAfter = redis_microsDuration (q ! 4)\<rparr>"

lemma parse_quintuples:
  "\<forall>q \<in> set qs. length q = 5 \<Longrightarrow> parse_verdicts base (map RInt (concat qs)) = Inr (map verdict5 qs)"
proof (induction qs arbitrary: base)
  case (Cons q qs)
  then obtain a b c d e where q: "q = [a, b, c, d, e]"
    by (auto simp: length_Suc_conv numeral_eq_Suc)
  from Cons show ?case
    by (simp add: q reply_int_def verdict5_def Let_def)
qed simp

lemma reply_int_Some: "reply_int r \<noteq> None \<Longrightarrow> \<exists>i. r = RInt i"
  by (cases r) (simp_all add: reply_int_def)

lemma parse_verdicts_Inr:
  "length arr = n * 5 \<Longrightarrow> parse_verdicts base arr = Inr vs \<Longrightarrow>
     \<exists>qs. arr = map RInt (concat qs) \<and> length qs = n \<and> (\<forall>q \<in> set qs. length q = 5) \<and> vs = map verdict5 qs"
proof (induction n arbitrary: base arr vs)
  case (Suc n)
  then obtain a b c d e rest where arr: "arr = a # b # c # d # e # rest" and len: "length rest = n * 5"
    by (auto simp: length_Suc_conv numeral_eq_Suc)
  from Suc.prems(2) obtain ws where ints: "find (\<lambda>(_, r). reply_int r = None) (enumerate base [a, b, c, d, e]) = None"
    and ws: "parse_verdicts (base + 5) rest = Inr ws"
    by (auto simp: arr simp del: enumerate_simps split: option.splits sum.splits)
  from ints have "reply_int a \<noteq> None" "reply_int b \<noteq> None" "reply_int c \<noteq> None" "reply_int d \<noteq> None" "reply_int e \<noteq> None"
    by (simp_all split: if_splits)
  then obtain i j k l m where q: "a = RInt i" "b = RInt j" "c = RInt k" "d = RInt l" "e = RInt m"
    by (metis reply_int_Some)
  from Suc.IH [OF len ws] obtain qs where qs: "rest = map RInt (concat qs)" "length qs = n"
    "\<forall>q \<in> set qs. length q = 5" "ws = map verdict5 qs" by blast
  from Suc.prems(2) ws have "vs = verdict5 [i, j, k, l, m] # ws"
    by (simp add: arr q reply_int_def verdict5_def Let_def)
  with qs q arr show ?case by (intro exI [of _ "[i, j, k, l, m] # qs"]) simp
qed simp

lemma redis_duration:
  "0 \<le> us \<Longrightarrow> us \<le> 9000000000000000 \<Longrightarrow> redis_microsDuration us = us * 1000"
  "redis_microsDuration (-1) = -1"
  by (simp_all add: redis_microsDuration_def Microsecond_def mul64_id in64_def)

text \<open>An entry of the reference as the text the script stores.\<close>

definition render :: "entry \<Rightarrow> string" where
  "render e =
     (if e_algorithm e = GCRAID then FormatInt (e_tat e)
      else FormatInt (e_start e) @ CHR '':'' # FormatInt (e_count e))"

definition row_matches :: "int \<Rightarrow> lua_row \<Rightarrow> outcome \<Rightarrow> bool" where
  "row_matches t r out \<longleftrightarrow>
     lr_allowed r = o_allowed out \<and>
     verdict5 (map reply_number (current_reply r)) = currentVerdict out \<and>
     (case lr_charge r of
        None \<Rightarrow> \<not> o_allowed out
      | Some (rc, sc, sa, sb) \<Rightarrow>
          o_allowed out \<and> verdict5 (map reply_number (charged_reply r)) = chargedVerdict out \<and>
          state_text sa sb = render (o_next out) \<and>
          reply_number (lceil (ldiv sc 1000)) = - ((t - e_deadline (o_next out)) div 1000))"

lemma reply_bits [simp]:
  "reply_number (bit_num b) = (if b then 1 else 0)" "reply_number 1 = 1" "reply_number 0 = 0"
  "reply_number (- 1) = - 1"
  using reply_number_int [of "-1"] by (simp_all add: bit_num_def reply_number_def)

text \<open>A row over integers, as the double operations give it when they are exact.\<close>

lemma row_matches_int:
  assumes "lr_allowed r = o_allowed out" "lr_exceeds r = o_costExceeds out"
    and "lr_current r = of_int (o_remainCurrent out)"
    and "lr_retry r = of_int re" "redis_microsDuration re = o_retryAfter out"
    and "lr_reset r = of_int rs" "redis_microsDuration rs = o_resetCurrent out"
    and "\<not> o_allowed out \<Longrightarrow> lr_charge r = None"
    and "o_allowed out \<Longrightarrow> lr_charge r = Some (of_int (o_remainCharged out), of_int sc, sa, sb)"
    and "o_allowed out \<Longrightarrow> redis_microsDuration sc = o_resetCharged out"
    and "o_allowed out \<Longrightarrow> state_text sa sb = render (o_next out)"
    and "o_allowed out \<Longrightarrow> sc = e_deadline (o_next out) - t" "\<bar>sc\<bar> < 2 ^ 53"
  shows "row_matches t r out"
proof -
  have px: "reply_number (lceil (ldiv (of_int sc) 1000)) = - ((- sc) div 1000)"
    using ceil_ldiv [of sc 1000] assms(13) reply_number_int [of "- ((- sc) div 1000)"] by simp
  show ?thesis
  proof (cases "o_allowed out")
    case True
    then have "(- sc) div 1000 = (t - e_deadline (o_next out)) div 1000" using assms(12) by simp
    with True assms(1-11) px show ?thesis
      by (simp add: row_matches_def current_reply_def charged_reply_def verdict5_def currentVerdict_def
          chargedVerdict_def reply_number_int redis_duration)
  next
    case False
    with assms show ?thesis
      by (simp add: row_matches_def current_reply_def verdict5_def currentVerdict_def reply_number_int)
  qed
qed

section \<open>GCRA\<close>

text \<open>The row of a request within the burst, \<open>x\<close> being what it adds to the arrival time.\<close>

definition gcra_row :: "int \<Rightarrow> window \<Rightarrow> int \<Rightarrow> int \<Rightarrow> lua_row" where
  "gcra_row t w d x =
     \<lparr>lr_allowed = (0 \<le> tau w - d - x), lr_exceeds = False,
      lr_current = of_int (max 0 ((tau w - d) div emission w)),
      lr_retry = of_int (if 0 \<le> tau w - d - x then -1 else - (tau w - d - x)), lr_reset = of_int d,
      lr_charge = (if 0 \<le> tau w - d - x
        then Some (of_int ((tau w - d - x) div emission w), of_int (d + x), of_int (t + d + x), None) else None)\<rparr>"

lemma gcra_current_exact:
  assumes "gcra_ok w" "0 \<le> d" "d \<le> 1000000000000000"
  shows "lsub (of_int (t + d)) (of_int t) = of_int d"
    and "lfloor (ldiv (lsub (of_int (tau w)) (of_int d)) (of_int (emission w))) = of_int ((tau w - d) div emission w)"
proof -
  note n = gcra_ok_numbers [OF assms(1)]
  show "lsub (of_int (t + d)) (of_int t) = of_int d" using lsub_int [of "t + d" t] assms by simp
  have "lsub (of_int (tau w)) (of_int d) = of_int (tau w - d)" using n assms by (intro lsub_int) simp
  moreover have "\<bar>tau w - d\<bar> < 2 ^ 53" using n assms by simp
  ultimately show "lfloor (ldiv (lsub (of_int (tau w)) (of_int d)) (of_int (emission w))) =
      of_int ((tau w - d) div emission w)"
    using n by (simp only: floor_ldiv)
qed

lemma gcra_increment:
  assumes "gcra_ok w" "1 \<le> cost" "cost \<le> Burst w"
  shows "1 \<le> emission w * cost" "emission w * cost \<le> tau w"
proof -
  note n = gcra_ok_numbers [OF assms(1)]
  show "emission w * cost \<le> tau w" unfolding tau_def using assms(3) n by (intro mult_left_mono) auto
  show "1 \<le> emission w * cost" using n(3) assms(2) mult_mono [of 1 "emission w" 1 cost] by auto
qed

lemma lua_gcra_row:
  assumes w: "gcra_ok w" and t: "lua_clock_ok t" and cost: "1 \<le> cost" "cost \<le> Burst w"
    and d: "0 \<le> d" "d \<le> 1000000000000000" and s: "lua_tat (of_int t) s = of_int (t + d)"
  shows "lua_gcra (of_int t) s (of_int (emission w)) (of_int (tau w)) (of_int (Burst w)) (of_int cost) =
    gcra_row t w d (emission w * cost)"
proof -
  define x where "x = emission w * cost"
  note n = gcra_ok_numbers [OF w] and cur = gcra_current_exact [OF w d]
  have x: "1 \<le> x" "x \<le> tau w" unfolding x_def using gcra_increment [OF w cost] by auto
  have t': "0 \<le> t" "t \<le> 7000000000000000" using t by (auto simp: lua_clock_ok_def)
  have mul: "lmul (of_int (emission w)) (of_int cost) = of_int x"
    using x n unfolding x_def by (intro lmul_int) simp
  have new: "ladd (of_int (t + d)) (of_int x) = of_int (t + d + x)"
    using x n d t' by (intro ladd_int) simp
  have "lsub (of_int (t + d + x)) (of_int (tau w)) = of_int (t + d + x - tau w)"
    using x n d t' by (intro lsub_int) (simp add: abs_le_iff)
  moreover have "lsub (of_int t) (of_int (t + d + x - tau w)) = of_int (tau w - d - x)"
    using lsub_int [of t "t + d + x - tau w"] x n d by (simp add: algebra_simps abs_le_iff)
  ultimately have diff: "lsub (of_int t) (lsub (of_int (t + d + x)) (of_int (tau w))) = of_int (tau w - d - x)"
    by simp
  have rc: "lfloor (ldiv (of_int (tau w - d - x)) (of_int (emission w))) = of_int ((tau w - d - x) div emission w)"
    using x n d by (intro floor_ldiv) (simp_all add: abs_less_iff)
  have reset: "lsub (of_int (t + d + x)) (of_int t) = of_int (d + x)"
    using lsub_int [of "t + d + x" t] x n d by simp
  show ?thesis
    unfolding lua_gcra_def gcra_row_def Let_def s cur mul x_def [symmetric] new diff rc reset
    using cost by (simp add: max_def)
qed

lemma lua_gcra_matches:
  assumes w: "gcra_ok w" and t: "lua_clock_ok t" and cost: "1 \<le> cost"
    and d: "0 \<le> d" "d \<le> 1000000000000000" and s: "lua_tat (of_int t) s = of_int (t + d)"
  shows "row_matches t (lua_gcra (of_int t) s (of_int (emission w)) (of_int (tau w)) (of_int (Burst w)) (of_int cost))
    (gcra_outcome d t w cost)"
proof (cases "cost > Burst w")
  case True
  then show ?thesis
    unfolding lua_gcra_def gcra_outcome_def Let_def s gcra_current_exact [OF w d]
    using d by (intro row_matches_int [where re = "-1" and rs = d and sc = 0])
      (simp_all add: redis_duration max_def)
next
  case False
  define x where "x = emission w * cost"
  define out where "out = gcra_outcome d t w cost"
  note n = gcra_ok_numbers [OF w]
  have x: "1 \<le> x" "x \<le> tau w" unfolding x_def using gcra_increment [OF w cost] False by auto
  have out: "out = \<lparr>o_allowed = (0 \<le> tau w - d - x), o_costExceeds = False,
      o_retryAfter = (if 0 \<le> tau w - d - x then -1 else - (tau w - d - x) * 1000),
      o_remainCharged = max 0 ((tau w - d - x) div emission w),
      o_remainCurrent = max 0 ((tau w - d) div emission w),
      o_resetCharged = (d + x) * 1000, o_resetCurrent = d * 1000,
      o_next = \<lparr>e_algorithm = GCRAID, e_tat = t + d + x, e_start = 0, e_count = 0, e_deadline = t + d + x\<rparr>\<rparr>"
    unfolding out_def gcra_outcome_def x_def [symmetric] using False by (simp add: Let_def)
  have rc: "0 \<le> tau w - d - x \<Longrightarrow> max 0 ((tau w - d - x) div emission w) = (tau w - d - x) div emission w"
    using n by (simp add: pos_imp_zdiv_nonneg_iff)
  have state: "state_text (of_int (t + d + x)) None = FormatInt (t + d + x)"
    unfolding state_text_def option.case by (rule fmt0_int)
  have "row_matches t (gcra_row t w d x) out"
    by (rule row_matches_int [where re = "if 0 \<le> tau w - d - x then -1 else - (tau w - d - x)"
          and rs = d and sc = "d + x" and sa = "of_int (t + d + x)" and sb = None])
      (use x n d rc state in \<open>auto simp: out gcra_row_def redis_duration render_def\<close>)
  then show ?thesis
    unfolding out_def x_def using lua_gcra_row [OF w t cost _ d s] False by simp
qed

section \<open>Fixed windows\<close>

lemma fixed_start_exact:
  assumes "common_ok w" "lua_clock_ok t"
  shows "lsub (of_int t) (lmod (of_int t) (of_int (Period w div 1000))) = of_int (fixed_start w t)"
    and "lsub (ladd (of_int (fixed_start w t)) (of_int (Period w div 1000))) (of_int t) =
      of_int (fixed_start w t + Period w div 1000 - t)"
proof -
  note P = common_ok_period [OF assms(1)]
    and f = fixed_start_bounds [OF assms(1) lua_clock_clock [OF assms(2)]]
  have t: "0 \<le> t" "t \<le> 7000000000000000" using assms(2) by (auto simp: lua_clock_ok_def)
  have "lmod (of_int t) (of_int (Period w div 1000)) = of_int (t mod (Period w div 1000))"
    using t P by (intro lmod_int) simp_all
  moreover have "\<bar>fixed_start w t\<bar> \<le> 2 ^ 53" using f t by simp
  ultimately show "lsub (of_int t) (lmod (of_int t) (of_int (Period w div 1000))) = of_int (fixed_start w t)"
    by (simp only: fixed_start_def lsub_int)
  have "\<bar>fixed_start w t + Period w div 1000\<bar> \<le> 2 ^ 53" "\<bar>fixed_start w t + Period w div 1000 - t\<bar> \<le> 2 ^ 53"
    using f t P by (simp_all add: abs_le_iff)
  then show "lsub (ladd (of_int (fixed_start w t)) (of_int (Period w div 1000))) (of_int t) =
      of_int (fixed_start w t + Period w div 1000 - t)"
    by (simp only: ladd_int lsub_int)
qed

lemma lua_fixed_matches:
  assumes w: "fixed_ok w" and t: "lua_clock_ok t" and cost: "1 \<le> cost" "cost \<le> 2 ^ 53"
    and R: "Requests w \<le> 2 ^ 53" and n: "0 \<le> n" "n \<le> 2 ^ 53"
    and s: "lua_count s (of_int (fixed_start w t)) = of_int n"
  shows "row_matches t (lua_fixed (of_int t) s (of_int (Period w div 1000)) (of_int (Requests w)) (of_int cost))
    (fixed_outcome n t w cost)"
proof -
  define left where "left = max (Requests w - n) 0"
  define boundary where "boundary = fixed_start w t + Period w div 1000 - t"
  have c: "common_ok w" "1 \<le> Requests w" using w by (auto simp: fixed_ok_def common_ok_def)
  note st = fixed_start_exact [OF c(1) t] and P = common_ok_period [OF c(1)]
    and f = fixed_start_bounds [OF c(1) lua_clock_clock [OF t]]
  have sub: "lsub (of_int (Requests w)) (of_int n) = of_int (Requests w - n)"
    using c n R by (intro lsub_int) (simp add: abs_le_iff)
  have left: "(if of_int (Requests w - n) < (0 :: rat) then 0 else of_int (Requests w - n)) = of_int left"
    by (simp add: left_def max_def)
  have lr: "0 \<le> left" "left \<le> 2 ^ 53" "cost \<le> left \<Longrightarrow> n + cost \<le> 2 ^ 53"
    using R n c cost by (auto simp: left_def max_def split: if_splits)
  have charged: "lsub (of_int left) (of_int cost) = of_int (left - cost)"
    using lr cost by (intro lsub_int) (simp add: abs_le_iff)
  have add: "cost \<le> left \<Longrightarrow> ladd (of_int n) (of_int cost) = of_int (n + cost)"
    using lr(3) n cost by (intro ladd_int) simp
  have b: "0 < boundary" "boundary \<le> 86400000000" using f P by (auto simp: boundary_def)
  have add64: "cost \<le> left \<Longrightarrow> add64 n cost = n + cost"
    using lr(3) n cost by (simp add: add64_id in64_def)
  have state: "state_text (of_int a) (Some (of_int c)) = FormatInt a @ CHR '':'' # FormatInt c" for a c
    by (simp add: state_text_def fmt0_int)
  show ?thesis
    unfolding lua_fixed_def fixed_outcome_def Let_def st s sub left left_def [symmetric]
      boundary_def [symmetric] charged
    by (rule row_matches_int [where re = "if cost \<le> left \<or> Requests w < cost then -1 else boundary"
          and rs = "if n = 0 then 0 else boundary" and sc = boundary
          and sa = "of_int (fixed_start w t)" and sb = "Some (of_int (n + cost))"])
      (use b in \<open>auto simp: redis_duration add add64 state render_def boundary_def simp del: of_int_add\<close>)
qed

section \<open>Properties\<close>

text \<open>
  A reply of the decision script is read as verdicts exactly when it has the promised shape: an
  array of one value and five integers per bucket. Then there is one verdict per bucket, in order, read
  off the bucket's quintuple; every other reply is an error, never a short or shifted verdict list.
\<close>

theorem parseReply_shape:
  "parseReply res n = Inr vs \<longleftrightarrow>
     (\<exists>flag qs. res = RArr (flag # map RInt (concat qs)) \<and> length qs = n \<and> (\<forall>q \<in> set qs. length q = 5) \<and>
        vs = map verdict5 qs)"
proof
  assume parsed: "parseReply res n = Inr vs"
  then obtain flag arr where res: "res = RArr (flag # arr)" "length arr = n * 5" "parse_verdicts 1 arr = Inr vs"
    by (auto simp: parseReply_def length_Suc_conv split: reply.splits if_splits)
  with parse_verdicts_Inr [OF res(2,3)]
  show "\<exists>flag qs. res = RArr (flag # map RInt (concat qs)) \<and> length qs = n \<and> (\<forall>q \<in> set qs. length q = 5) \<and>
      vs = map verdict5 qs" by blast
next
  assume "\<exists>flag qs. res = RArr (flag # map RInt (concat qs)) \<and> length qs = n \<and> (\<forall>q \<in> set qs. length q = 5) \<and>
      vs = map verdict5 qs"
  then obtain flag qs where res: "res = RArr (flag # map RInt (concat qs))" "length qs = n" "\<forall>q \<in> set qs. length q = 5"
    "vs = map verdict5 qs" by blast
  have "length (concat qs) = length qs * 5" using res(3) by (induction qs) auto
  then have "length (concat qs) = n * 5" by (simp add: res(2))
  with res parse_quintuples [OF res(3)] show "parseReply res n = Inr vs" by (simp add: parseReply_def)
qed

theorem parseReply_shape_witness:
  "parseReply (RArr (map RInt [1, 1, 0, 2, -1, 5])) 1 =
     Inr [\<lparr>v_Allowed = True, v_Remaining = 2, v_CostExceedsCapacity = False, v_RetryAfter = -1, v_ResetAfter = 5000\<rparr>]"
  by (subst parseReply_shape)
    (intro exI [of _ "RInt 1"] exI [of _ "[[1, 0, 2, -1, 5]]"], simp add: verdict5_def redis_duration)

end
