(* ===== verification/Redis_Sim.thy ===== *)
theory Redis_Sim
  imports Redis_Rows
begin

text \<open>
  The shared store implements the counter contract the way the reference does: on the same calls
  at the same clock readings the Redis store and the in-memory store answer alike, verdict for
  verdict, whatever was charged before. The keyspace of the server is a parameter with the laws
  Redis documents for \<open>GET\<close>, \<open>SET ... PX\<close> and \<open>DEL\<close>.
\<close>

section \<open>One call\<close>

definition row_for :: "rat \<Rightarrow> string option \<Rightarrow> bucket \<Rightarrow> lua_row" where
  "row_for now s b =
     (let w = bk_Window b in
      if bk_Algorithm b = GCRAID
      then lua_gcra now s (of_int (emission w)) (of_int (tau w)) (of_int (Burst w)) (of_int (bk_Cost b))
      else lua_fixed now s (of_int (Period w div 1000)) (of_int (Requests w)) (of_int (bk_Cost b)))"

lemma lua_bucket_cases:
  assumes "lua_bucket_ok b"
  obtains (gcra) "bk_Algorithm b = GCRAID" "gcra_ok (bk_Window b)"
  | (fixed) "bk_Algorithm b = FixedWindowID" "fixed_ok (bk_Window b)"
  using assms
  by (auto simp: lua_bucket_ok_def bucket_ok_def Check_gcra_iff Check_fixedWindow_iff fixed_ok_def)

lemma lua_bucket_cost: "lua_bucket_ok b \<Longrightarrow> 1 \<le> bk_Cost b \<and> bk_Cost b \<le> 2 ^ 53 \<and> in64 (bk_Cost b)"
  by (auto simp: lua_bucket_ok_def bucket_ok_def)

lemma boolArg_one [simp]: "boolArg b = ''1'' \<longleftrightarrow> b"
  by (simp add: boolArg_def)

lemma bind_Some: "x \<bind> (\<lambda>r. Some (f r)) = map_option f x"
  by (cases x) simp_all

lemma bucket_args_rows:
  assumes "lua_bucket_ok b"
  shows "\<exists>xs. bucket_args b = Inr xs \<and> (\<forall>s ss rest. lua_rows now (s # ss) (xs @ rest) =
    map_option (\<lambda>rows. (row_for now s b, bk_Shadow b) # rows) (lua_rows now ss rest))"
  using assms
proof (cases rule: lua_bucket_cases)
  case gcra
  note n = gcra_ok_numbers [OF gcra(2)] and cost = lua_bucket_cost [OF assms]
  have B: "1 \<le> Burst (bk_Window b)" using gcra(2) by (simp add: gcra_ok_def)
  have "1 * Burst (bk_Window b) \<le> emission (bk_Window b) * Burst (bk_Window b)"
    using n B by (intro mult_right_mono) auto
  then have "Burst (bk_Window b) \<le> tau (bk_Window b)" by (simp add: tau_def)
  with n B cost have "tonum (FormatInt (bk_Cost b)) = Some (of_int (bk_Cost b))"
    "tonum (FormatInt (emission (bk_Window b))) = Some (of_int (emission (bk_Window b)))"
    "tonum (FormatInt (tau (bk_Window b))) = Some (of_int (tau (bk_Window b)))"
    "tonum (FormatInt (Burst (bk_Window b))) = Some (of_int (Burst (bk_Window b)))"
    "tonum (FormatInt 1) = Some 1"
    using tonum_FormatInt [of 1] by (simp_all add: tonum_FormatInt)
  with gcra n show ?thesis
    by (intro exI [of _ "[FormatInt (bk_Cost b), FormatInt (int GCRAID), FormatInt (emission (bk_Window b)),
        FormatInt (tau (bk_Window b)), FormatInt (Burst (bk_Window b)), boolArg (bk_Shadow b)]"])
      (auto simp: bucket_args_def row_for_def Let_def GCRAID_def bind_Some)
next
  case fixed
  have c: "common_ok (bk_Window b)" "1 \<le> Requests (bk_Window b)" "Requests (bk_Window b) \<le> 2 ^ 53"
    using fixed assms by (auto simp: fixed_ok_def common_ok_def lua_bucket_ok_def)
  note P = common_ok_period [OF c(1)] and PM = common_ok_PeriodMicros [OF c(1)]
    and cost = lua_bucket_cost [OF assms]
  have "tonum (FormatInt (bk_Cost b)) = Some (of_int (bk_Cost b))"
    "tonum (FormatInt (Period (bk_Window b) div 1000)) = Some (of_int (Period (bk_Window b) div 1000))"
    "tonum (FormatInt (Requests (bk_Window b))) = Some (of_int (Requests (bk_Window b)))"
    "tonum (FormatInt 2) = Some 2" "tonum (FormatInt 0) = Some 0"
    using P c cost tonum_FormatInt [of 2] tonum_FormatInt [of 0] by (simp_all add: tonum_FormatInt)
  with fixed P PM show ?thesis
    by (intro exI [of _ "[FormatInt (bk_Cost b), FormatInt (int FixedWindowID), FormatInt (Period (bk_Window b) div 1000),
        FormatInt (Requests (bk_Window b)), FormatInt 0, boolArg (bk_Shadow b)]"])
      (auto simp: bucket_args_def row_for_def Let_def GCRAID_def FixedWindowID_def bind_Some)
qed

lemma all_args_rows:
  "\<forall>b \<in> set bs. lua_bucket_ok b \<Longrightarrow> \<exists>args. all_args bs = Inr args \<and>
     lua_rows now (map f bs) args = Some (map (\<lambda>b. (row_for now (f b) b, bk_Shadow b)) bs)"
proof (induction bs)
  case (Cons b bs)
  then obtain args where "all_args bs = Inr args"
    "lua_rows now (map f bs) args = Some (map (\<lambda>b. (row_for now (f b) b, bk_Shadow b)) bs)" by auto
  moreover obtain xs where "bucket_args b = Inr xs" "\<And>s ss rest. lua_rows now (s # ss) (xs @ rest) =
      map_option (\<lambda>rows. (row_for now s b, bk_Shadow b) # rows) (lua_rows now ss rest)"
    using bucket_args_rows [of b now] Cons.prems by auto
  ultimately show ?case by simp
qed simp

text \<open>What the rows of a call answer and write.\<close>

definition rows_at :: "('ks \<Rightarrow> int \<Rightarrow> string \<Rightarrow> string option) \<Rightarrow> 'ks \<Rightarrow> int \<Rightarrow> bucket list \<Rightarrow> (lua_row \<times> bool) list" where
  "rows_at get ks t bs = map (\<lambda>b. (row_for (of_int t) (get ks t (bk_Key b)) b, bk_Shadow b)) bs"

lemma reply_quint [simp]: "length (current_reply r) = 5" "length (charged_reply r) = 5"
  by (simp_all add: current_reply_def charged_reply_def split: option.splits)

lemma run_script_rows:
  assumes "\<forall>b \<in> set bs. lua_bucket_ok b" "lua_clock_ok t" "GuardBuckets bs = None" "bs \<noteq> []"
  shows "redis_run (run_script get put err t) mode ks bs =
    (let rows = rows_at get ks t bs; commits = (admitted_rows rows \<and> mode = ''decide'') in
     (Inr (map (\<lambda>(r, _). verdict5 (map reply_number (if commits then charged_reply r else current_reply r))) rows),
      fold (put t) (if commits then concat (map2 (\<lambda>k (r, _). commit_set k r) (map bk_Key bs) rows) else []) ks))"
proof -
  let ?rows = "rows_at get ks t bs"
  let ?f = "\<lambda>b. get ks t (bk_Key b)"
  obtain args where args: "all_args bs = Inr args"
    and rows: "lua_rows (of_int t) (map ?f bs) args = Some ?rows"
    using all_args_rows [OF assms(1), of "of_int t" ?f] by (auto simp: rows_at_def)
  define commits where "commits = (admitted_rows ?rows \<and> mode = ''decide'')"
  define qs where "qs = map (\<lambda>(r, _). map reply_number (if commits then charged_reply r else current_reply r)) ?rows"
  have five: "\<forall>q \<in> set qs. length q = 5" by (auto simp: qs_def)
  have "map length qs = map (\<lambda>_. 5) bs" by (auto simp: qs_def rows_at_def)
  then have len: "length (concat qs) = length bs * 5"
    by (simp add: length_concat sum_list_triv)
  have out: "concat (map (map reply_number) (map (\<lambda>(r, _). if commits then charged_reply r else current_reply r) ?rows)) = concat qs"
    unfolding qs_def map_map by (intro arg_cong [where f = concat] map_cong) auto
  have script: "lua_script (lua_now t) (map bk_Key bs) (map (get ks t) (map bk_Key bs)) (mode # args) =
      Some (reply_number (bit_num (admitted_rows ?rows)) # concat qs,
        if commits then concat (map2 (\<lambda>k (r, _). commit_set k r) (map bk_Key bs) ?rows) else [])"
    unfolding lua_now_exact [OF assms(2)] lua_script_def
    using rows out by (simp add: comp_def map_concat commits_def Let_def)
  have "parseReply (RArr (map RInt (reply_number (bit_num (admitted_rows ?rows)) # concat qs))) (length bs) =
      Inr (map verdict5 qs)"
    using len parse_quintuples [OF five] by (simp add: parseReply_def)
  then show ?thesis
    using assms(3,4) args script
    by (simp add: redis_run_def run_script_def commits_def [symmetric] qs_def Let_def comp_def case_prod_beta)
qed

section \<open>Agreement of one key\<close>

definition agree :: "bucket \<Rightarrow> string option \<Rightarrow> entry option \<Rightarrow> int \<Rightarrow> bool" where
  "agree b s e t \<longleftrightarrow>
     (let w = bk_Window b in
      if bk_Algorithm b = GCRAID then lua_tat (of_int t) s = of_int (t + gcra_depth t e)
      else lua_count s (of_int (fixed_start w t)) = of_int (fixed_count t w e) \<and> fixed_count t w e \<le> 2 ^ 53)"

lemma agree_none: "agree b None None t"
  by (simp add: agree_def lua_tat_def lua_count_def gcra_depth_def fixed_count_def)

lemma agree_row:
  assumes b: "lua_bucket_ok b" and t: "lua_clock_ok t" and m: "store_ok t m"
    and a: "agree b s (mem_view m t b) t" and r: "evalBucket (mem_view m t b) t b = Inr out"
  shows "row_matches t (row_for (of_int t) s b) out"
  using b
proof (cases rule: lua_bucket_cases)
  case gcra
  note e = mem_view_gcra_ok [OF m gcra(1)] and cost = lua_bucket_cost [OF b]
  have "out = gcra_outcome (gcra_depth t (mem_view m t b)) t (bk_Window b) (bk_Cost b)"
    using r evalGCRA_eq [OF gcra(2) lua_clock_clock [OF t] e] cost gcra by (simp add: evalBucket_def)
  then show ?thesis
    using lua_gcra_matches [OF gcra(2) t _ _ _, of "bk_Cost b" "gcra_depth t (mem_view m t b)" s]
      gcra_depth_bounds [OF e] a gcra cost by (simp add: row_for_def agree_def Let_def)
next
  case fixed
  note e = mem_view_fixed_ok [OF m fixed(1)] and cost = lua_bucket_cost [OF b]
  have "out = fixed_outcome (fixed_count t (bk_Window b) (mem_view m t b)) t (bk_Window b) (bk_Cost b)"
    using r evalFixed_eq [OF fixed(2) lua_clock_clock [OF t] e] cost fixed by (simp add: evalBucket_def)
  moreover have "Requests (bk_Window b) \<le> 2 ^ 53" using b by (simp add: lua_bucket_ok_def)
  ultimately show ?thesis
    using lua_fixed_matches [OF fixed(2) t, of "bk_Cost b" "fixed_count t (bk_Window b) (mem_view m t b)" s]
      fixed_count_bounds [OF e] a fixed cost by (simp add: row_for_def agree_def Let_def)
qed

text \<open>
  Two buckets on one key carry one algorithm and one period: both are part of the key. What one
  of them was charged, the other reads alike from either store, before and after the state expired.
\<close>

definition same_counter :: "bucket \<Rightarrow> bucket \<Rightarrow> bool" where
  "same_counter b c \<longleftrightarrow> bk_Algorithm b = bk_Algorithm c \<and> Period (bk_Window b) = Period (bk_Window c)"

lemma lua_tat_stored:
  "\<bar>i\<bar> \<le> 2 ^ 53 \<Longrightarrow> lua_tat (of_int t) (Some (FormatInt i)) = of_int (max i t)"
  by (simp add: lua_tat_def tonum_FormatInt max_def)

lemma lua_count_stored:
  assumes "0 \<le> i" "i \<le> 2 ^ 53" "0 \<le> n" "n \<le> 2 ^ 53"
  shows "lua_count (Some (FormatInt i @ CHR '':'' # FormatInt n)) (of_int j) = (if i = j then of_int n else 0)"
proof -
  have "CHR '':'' \<notin> set (FormatInt i)"
    using FormatInt_digits [OF assms(1), of "CHR '':''"] by (auto simp: isDigit_def less_eq_char_def)
  with assms show ?thesis by (simp add: lua_count_def tonum_FormatInt)
qed

lemma agree_charged_gcra:
  assumes b: "lua_bucket_ok b" "bk_Algorithm b = GCRAID" and c: "same_counter c b"
    and t: "lua_clock_ok t" "t \<le> u" "lua_clock_ok u" and m: "store_ok t m"
    and r: "evalBucket (mem_view m t b) t b = Inr out" "o_allowed out"
    and s: "s = Some (render (o_next out)) \<or> s = None \<and> e_deadline (o_next out) \<le> u"
  shows "agree c s (if stale (o_next out) u c then None else Some (o_next out)) u"
proof -
  have w: "gcra_ok (bk_Window b)" using b by (auto elim: lua_bucket_cases)
  note e = mem_view_gcra_ok [OF m b(2)] and cost = lua_bucket_cost [OF b(1)]
  define d where "d = gcra_depth t (mem_view m t b)"
  have "out = gcra_outcome d t (bk_Window b) (bk_Cost b)"
    using r evalGCRA_eq [OF w lua_clock_clock [OF t(1)] e] cost b by (simp add: evalBucket_def d_def)
  then obtain x where x: "x \<le> tau (bk_Window b)" "0 \<le> x"
    and nxt: "o_next out = \<lparr>e_algorithm = GCRAID, e_tat = t + d + x, e_start = 0, e_count = 0, e_deadline = t + d + x\<rparr>"
    using r(2) gcra_increment [OF w, of "bk_Cost b"] cost
    by (force simp: gcra_outcome_def Let_def split: if_splits)
  have "\<bar>t + d + x\<bar> \<le> 2 ^ 53"
    using x gcra_depth_bounds [OF e] gcra_ok_numbers [OF w] t(1) by (simp add: d_def lua_clock_ok_def)
  with s b c show ?thesis
    by (auto simp: agree_def same_counter_def nxt stale_def render_def lua_tat_stored gcra_depth_def Let_def)
      (auto simp: lua_tat_def)
qed

lemma agree_charged_fixed:
  assumes b: "lua_bucket_ok b" "bk_Algorithm b = FixedWindowID" and c: "same_counter c b"
    and t: "lua_clock_ok t" "t \<le> u" "lua_clock_ok u" and m: "store_ok t m"
    and a: "agree b s0 (mem_view m t b) t"
    and r: "evalBucket (mem_view m t b) t b = Inr out" "o_allowed out"
    and s: "s = Some (render (o_next out)) \<or> s = None \<and> e_deadline (o_next out) \<le> u"
  shows "agree c s (if stale (o_next out) u c then None else Some (o_next out)) u"
proof -
  define w where "w = bk_Window b"
  have w: "fixed_ok w" using b by (auto simp: w_def elim: lua_bucket_cases)
  then have ok: "common_ok w" by (simp add: fixed_ok_def)
  note e = mem_view_fixed_ok [OF m b(2)] and cost = lua_bucket_cost [OF b(1)]
  define n where "n = fixed_count t w (mem_view m t b)"
  have n: "0 \<le> n" using fixed_count_bounds [OF e] by (simp add: n_def)
  have out: "out = fixed_outcome n t w (bk_Cost b)"
    using r evalFixed_eq [OF w lua_clock_clock [OF t(1)] e] cost b by (simp add: evalBucket_def n_def w_def)
  have R: "Requests w \<le> 2 ^ 53" using b by (simp add: lua_bucket_ok_def w_def)
  have le: "n + bk_Cost b \<le> 2 ^ 53"
    using r(2) R cost by (auto simp: out fixed_outcome_def Let_def max_def split: if_splits)
  then have "add64 n (bk_Cost b) = n + bk_Cost b" using n cost by (simp add: add64_id in64_def)
  then have nxt: "o_next out = \<lparr>e_algorithm = FixedWindowID, e_tat = 0, e_start = fixed_start w t,
      e_count = n + bk_Cost b, e_deadline = fixed_start w t + Period w div 1000\<rparr>"
    by (simp add: out fixed_outcome_def Let_def)
  have st: "fixed_start (bk_Window c) u = fixed_start w u"
    using c by (simp add: same_counter_def fixed_start_def w_def)
  have f: "0 \<le> fixed_start w t" "fixed_start w t \<le> 2 ^ 53"
    using fixed_start_bounds [OF ok lua_clock_clock [OF t(1)]] t(1) by (auto simp: lua_clock_ok_def)
  have new: "fixed_start w t \<noteq> fixed_start w u" if "fixed_start w t + Period w div 1000 \<le> u"
    using that fixed_start_bounds [OF ok lua_clock_clock [OF t(3)]] by auto
  show ?thesis
    using s b c n le f new cost
    by (auto simp: agree_def same_counter_def nxt stale_def render_def lua_count_stored fixed_count_def st Let_def)
      (auto simp: lua_count_def)
qed

section \<open>The keyspace\<close>

text \<open>
  What Redis documents of the commands the store uses. A key set with \<open>PX px\<close> holds its value for
  at least \<open>px\<close> milliseconds, and later the value or nothing; a deleted key holds nothing; a
  command on one key leaves every other key alone. Times are microseconds.
\<close>

definition keyspace_laws ::
  "('ks \<Rightarrow> int \<Rightarrow> string \<Rightarrow> string option) \<Rightarrow> (int \<Rightarrow> redis_set \<Rightarrow> 'ks \<Rightarrow> 'ks) \<Rightarrow> (string \<Rightarrow> 'ks \<Rightarrow> 'ks) \<Rightarrow> bool" where
  "keyspace_laws get put del \<longleftrightarrow>
     (\<forall>ks t u k v px. t \<le> u \<longrightarrow> u < t + px * 1000 \<longrightarrow> get (put t (k, v, px) ks) u k = Some v) \<and>
     (\<forall>ks t u k v px. t \<le> u \<longrightarrow> get (put t (k, v, px) ks) u k \<in> {Some v, None}) \<and>
     (\<forall>ks t u k j v px. j \<noteq> k \<longrightarrow> get (put t (k, v, px) ks) u j = get ks u j) \<and>
     (\<forall>ks u k. get (del k ks) u k = None) \<and>
     (\<forall>ks u k j. j \<noteq> k \<longrightarrow> get (del k ks) u j = get ks u j)"

lemma keyspace_put_other:
  "keyspace_laws get put del \<Longrightarrow> k \<notin> fst ` set sets \<Longrightarrow> get (fold (put t) sets ks) u k = get ks u k"
  by (induction sets arbitrary: ks) (force simp: keyspace_laws_def)+

lemma keyspace_put:
  assumes "keyspace_laws get put del" "t \<le> u" "distinct (map fst sets)" "(k, v, px) \<in> set sets"
  shows "get (fold (put t) sets ks) u k = Some v \<or>
    get (fold (put t) sets ks) u k = None \<and> t + px * 1000 \<le> u"
  using assms(3,4)
proof (induction sets arbitrary: ks)
  case (Cons x sets)
  show ?case
  proof (cases "x = (k, v, px)")
    case True
    with Cons.prems have "k \<notin> fst ` set sets" by auto
    then have "get (fold (put t) (x # sets) ks) u k = get (put t (k, v, px) ks) u k"
      using True by (simp add: keyspace_put_other [OF assms(1)])
    moreover have "get (put t (k, v, px) ks) u k \<in> {Some v, None}"
      "u < t + px * 1000 \<Longrightarrow> get (put t (k, v, px) ks) u k = Some v"
      using assms(1,2) by (auto simp: keyspace_laws_def)
    ultimately show ?thesis by (cases "u < t + px * 1000") auto
  next
    case False
    with Cons show ?thesis by auto
  qed
qed simp

lemma keyspace_del:
  assumes "keyspace_laws get put del"
  shows "get (fold del keys ks) u k = (if k \<in> set keys then None else get ks u k)"
proof (induction keys arbitrary: ks)
  case (Cons k' keys)
  have "get (del k' ks) u k = (if k = k' then None else get ks u k)"
    using assms by (auto simp: keyspace_laws_def)
  with Cons show ?case by auto
qed simp

section \<open>The two stores in step\<close>

definition in_step ::
  "('ks \<Rightarrow> int \<Rightarrow> string \<Rightarrow> string option) \<Rightarrow> bucket set \<Rightarrow> 'ks \<Rightarrow> mem \<Rightarrow> int \<Rightarrow> bool" where
  "in_step get B ks m t \<longleftrightarrow>
     (\<forall>b \<in> B. \<forall>u. t \<le> u \<longrightarrow> lua_clock_ok u \<longrightarrow> agree b (get ks u (bk_Key b)) (mem_view m u b) u)"

definition one_counter_per_key :: "bucket set \<Rightarrow> bool" where
  "one_counter_per_key B \<longleftrightarrow> (\<forall>b \<in> B. \<forall>c \<in> B. bk_Key b = bk_Key c \<longrightarrow> same_counter b c)"

lemma in_step_mono: "in_step get B ks m t \<Longrightarrow> t \<le> u \<Longrightarrow> in_step get B ks m u"
  unfolding in_step_def by (meson order.trans)

lemma one_counter_same_algorithm:
  "one_counter_per_key B \<Longrightarrow> set bs \<subseteq> B \<Longrightarrow> c \<in> B \<Longrightarrow> same_algorithm bs c"
  unfolding one_counter_per_key_def same_algorithm_def same_counter_def by blast

text \<open>The outcome the reference computes for a bucket.\<close>

definition out_of :: "mem \<Rightarrow> int \<Rightarrow> bucket \<Rightarrow> outcome" where
  "out_of m t b = projr (evalBucket (mem_view m t b) t b)"

lemma out_of_eq:
  assumes "lua_bucket_ok b" "lua_clock_ok t" "store_ok t m"
  shows "evalBucket (mem_view m t b) t b = Inr (out_of m t b)"
  using evalBucket_judged [of b t m] assms lua_clock_clock by (auto simp: lua_bucket_ok_def out_of_def)

lemma Decide_out_of:
  assumes "\<forall>b \<in> set bs. lua_bucket_ok b" "lua_clock_ok t" "store_ok t m" "GuardBuckets bs = None"
  obtains vs m1 m' where "Decide m t bs = (Inr vs, m')"
    "vs = map (\<lambda>b. if all_admit bs (map (out_of m t) bs) \<and> o_allowed (out_of m t b)
      then chargedVerdict (out_of m t b) else currentVerdict (out_of m t b)) bs"
    "m' = snd (commit (all_admit bs (map (out_of m t) bs)) m1 bs (map (out_of m t) bs))"
    "Admitted bs vs = Some (all_admit bs (map (out_of m t) bs))" "distinct (map bk_Key bs)" "store_ok t m'"
proof -
  have d: "distinct (map bk_Key bs)" using assms(4) by (simp add: GuardBuckets_None)
  have ok: "\<forall>b \<in> set bs. bucket_ok b" using assms(1) by (auto simp: lua_bucket_ok_def)
  obtain vs m' where D: "Decide m t bs = (Inr vs, m')" and m': "store_ok t m'"
    using Decide_succeeds [OF assms(3) lua_clock_clock [OF assms(2)] ok d] by blast
  obtain rs m1 where l2: "list_all2 (\<lambda>b r. evalBucket (mem_view m t b) t b = Inr r) bs rs"
    and vs: "vs = map (\<lambda>r. if all_admit bs rs \<and> o_allowed r then chargedVerdict r else currentVerdict r) rs"
    and c: "m' = snd (commit (all_admit bs rs) m1 bs rs)" and a: "Admitted bs vs = Some (all_admit bs rs)"
    using Decide_Inr [OF D] by blast
  from l2 have rs: "rs = map (out_of m t) bs"
    by (induction rule: list_all2_induct) (auto simp: out_of_def)
  show thesis
  proof (rule that [OF D])
    show "vs = map (\<lambda>b. if all_admit bs (map (out_of m t) bs) \<and> o_allowed (out_of m t b)
      then chargedVerdict (out_of m t b) else currentVerdict (out_of m t b)) bs"
      unfolding vs rs by (simp add: comp_def)
  qed (use c a rs d m' in auto)
qed

lemma charged_reply_verdict:
  "row_matches t r out \<Longrightarrow> verdict5 (map reply_number (charged_reply r)) =
     (if o_allowed out then chargedVerdict out else currentVerdict out)"
  by (auto simp: row_matches_def charged_reply_def split: option.splits)

lemma current_reply_verdict:
  "row_matches t r out \<Longrightarrow> verdict5 (map reply_number (current_reply r)) = currentVerdict out"
  by (simp add: row_matches_def)

end
