(* ===== verification/Redis_Run.thy ===== *)
theory Redis_Run
  imports Redis_Sim
begin

text \<open>
  Runs of the two stores side by side: every call keeps them in step, and so every sequence of
  \<open>Decide\<close>, \<open>Peek\<close> and \<open>Reset\<close> calls is answered alike.
\<close>

section \<open>Each call keeps the stores in step\<close>

lemma rows_match:
  assumes "set bs \<subseteq> B" "\<forall>b \<in> B. lua_bucket_ok b" "lua_clock_ok t" "store_ok t m" "in_step get B ks m t"
    and "b \<in> set bs"
  shows "row_matches t (row_for (of_int t) (get ks t (bk_Key b)) b) (out_of m t b)"
proof -
  have b: "lua_bucket_ok b" "b \<in> B" using assms by auto
  then have "agree b (get ks t (bk_Key b)) (mem_view m t b) t" using assms(3,5) by (simp add: in_step_def)
  then show ?thesis by (rule agree_row [OF b(1) assms(3,4) _ out_of_eq [OF b(1) assms(3,4)]])
qed

lemma admitted_rows_at:
  assumes "\<And>b. b \<in> set bs \<Longrightarrow> row_matches t (row_for (of_int t) (get ks t (bk_Key b)) b) (out_of m t b)"
  shows "admitted_rows (rows_at get ks t bs) = all_admit bs (map (out_of m t) bs)"
  using assms by (induction bs) (auto simp: admitted_rows_def rows_at_def row_matches_def)

text \<open>The writes of a committed call: one per bucket whose own verdict allows.\<close>

definition sets_at :: "('ks \<Rightarrow> int \<Rightarrow> string \<Rightarrow> string option) \<Rightarrow> 'ks \<Rightarrow> int \<Rightarrow> bucket list \<Rightarrow> redis_set list" where
  "sets_at get ks t bs = concat (map2 (\<lambda>k (r, _). commit_set k r) (map bk_Key bs) (rows_at get ks t bs))"

lemma sets_at_eq:
  "sets_at get ks t bs = concat (map (\<lambda>b. commit_set (bk_Key b) (row_for (of_int t) (get ks t (bk_Key b)) b)) bs)"
  by (induction bs) (simp_all add: sets_at_def rows_at_def)

lemma commit_set_keys: "map fst (commit_set k r) = (if lr_charge r = None then [] else [k])"
  by (auto simp: commit_set_def split: option.splits)

lemma sets_at_distinct:
  assumes "distinct (map bk_Key bs)"
  shows "distinct (map fst (sets_at get ks t bs))"
proof -
  have sub: "fst ` set (sets_at get ks t bs) \<subseteq> bk_Key ` set bs" for bs
    by (fastforce simp: sets_at_eq commit_set_def split: option.splits)
  show ?thesis using assms
  proof (induction bs)
    case (Cons b bs)
    with sub [of bs] show ?case by (auto simp: sets_at_eq commit_set_keys)
  qed (simp add: sets_at_eq)
qed

lemma sets_at_charged:
  assumes "b \<in> set bs" "row_matches t (row_for (of_int t) (get ks t (bk_Key b)) b) out" "o_allowed out"
  shows "(bk_Key b, render (o_next out), - ((t - e_deadline (o_next out)) div 1000)) \<in> set (sets_at get ks t bs)"
proof -
  have "(bk_Key b, render (o_next out), - ((t - e_deadline (o_next out)) div 1000)) \<in>
      set (commit_set (bk_Key b) (row_for (of_int t) (get ks t (bk_Key b)) b))"
    using assms(2,3) by (auto simp: row_matches_def commit_set_def split: option.splits)
  with assms(1) show ?thesis by (auto simp: sets_at_eq)
qed

lemma sets_at_uncharged:
  assumes "\<And>b. b \<in> set bs \<Longrightarrow> bk_Key b = k \<Longrightarrow>
      row_matches t (row_for (of_int t) (get ks t (bk_Key b)) b) (out b) \<and> \<not> o_allowed (out b)"
  shows "k \<notin> fst ` set (sets_at get ks t bs)"
proof
  assume "k \<in> fst ` set (sets_at get ks t bs)"
  then have "k \<in> set (map fst (sets_at get ks t bs))" by simp
  then obtain b where "b \<in> set bs" "k = bk_Key b" "lr_charge (row_for (of_int t) (get ks t (bk_Key b)) b) \<noteq> None"
    unfolding sets_at_eq map_concat map_map by (auto simp: commit_set_keys split: if_splits)
  with assms [of b] show False by (auto simp: row_matches_def)
qed

lemma agree_charged:
  assumes "lua_bucket_ok b" "same_counter c b" "lua_clock_ok t" "t \<le> u" "lua_clock_ok u" "store_ok t m"
    and "agree b s0 (mem_view m t b) t" "o_allowed (out_of m t b)"
    and "s = Some (render (o_next (out_of m t b))) \<or> s = None \<and> e_deadline (o_next (out_of m t b)) \<le> u"
  shows "agree c s (if stale (o_next (out_of m t b)) u c then None else Some (o_next (out_of m t b))) u"
  using assms(1)
proof (cases rule: lua_bucket_cases)
  case gcra
  then show ?thesis by (intro agree_charged_gcra [OF assms(1) _ assms(2-6) out_of_eq] assms)
next
  case fixed
  then show ?thesis by (intro agree_charged_fixed [OF assms(1) _ assms(2-7) out_of_eq] assms)
qed

lemma Decide_in_step:
  assumes laws: "keyspace_laws get put del" and B: "one_counter_per_key B" "\<forall>b \<in> B. lua_bucket_ok b"
    and bs: "set bs \<subseteq> B" and t: "lua_clock_ok t" and m: "store_ok t m" and I: "in_step get B ks m t"
    and g: "GuardBuckets bs = None" and adm: "all_admit bs (map (out_of m t) bs)"
    and D: "Decide m t bs = (Inr vs, m')"
  shows "in_step get B (fold (put t) (sets_at get ks t bs) ks) m' t"
  unfolding in_step_def
proof (intro ballI allI impI)
  fix c u assume c: "c \<in> B" and u: "t \<le> u" "lua_clock_ok u"
  let ?ks = "fold (put t) (sets_at get ks t bs) ks"
  have ok: "\<forall>b \<in> set bs. lua_bucket_ok b" using B bs by auto
  obtain m1 where vs: "vs = map (\<lambda>b. if o_allowed (out_of m t b)
      then chargedVerdict (out_of m t b) else currentVerdict (out_of m t b)) bs"
    and m': "m' = snd (commit True m1 bs (map (out_of m t) bs))" and d: "distinct (map bk_Key bs)"
    by (rule Decide_out_of [OF ok t m g]) (use adm D in simp)
  note match = rows_match [OF bs B(2) t m I]
  show "agree c (get ?ks u (bk_Key c)) (mem_view m' u c) u"
  proof (cases "\<exists>b \<in> set bs. bk_Key b = bk_Key c \<and> o_allowed (out_of m t b)")
    case True
    then obtain b where b: "b \<in> set bs" "bk_Key b = bk_Key c" "o_allowed (out_of m t b)" by blast
    let ?e = "o_next (out_of m t b)"
    have "map_of m' (bk_Key b) = Some ?e"
      unfolding m' using b d by (intro commit_charged) (auto simp: zip_map2 zip_same_conv_map)
    then have view: "mem_view m' u c = (if stale ?e u c then None else Some ?e)"
      using b by (simp add: mem_view_def)
    have "get ?ks u (bk_Key b) = Some (render ?e) \<or> get ?ks u (bk_Key b) = None \<and>
        t + - ((t - e_deadline ?e) div 1000) * 1000 \<le> u"
      using sets_at_charged [where get = get and ks = ks, OF b(1) match [OF b(1)] b(3)]
      by (rule keyspace_put [OF laws u(1) sets_at_distinct [OF d]])
    then have s: "get ?ks u (bk_Key c) = Some (render ?e) \<or> get ?ks u (bk_Key c) = None \<and> e_deadline ?e \<le> u"
      using b(2) by auto
    have "same_counter c b" using B(1) b bs c by (auto simp: one_counter_per_key_def)
    moreover have "agree b (get ks t (bk_Key b)) (mem_view m t b) t" using I b(1) bs t unfolding in_step_def by blast
    ultimately show ?thesis
      unfolding view using b ok s t u m by (intro agree_charged) auto
  next
    case False
    have "get ?ks u (bk_Key c) = get ks u (bk_Key c)"
      using False match by (intro keyspace_put_other [OF laws] sets_at_uncharged [where out = "out_of m t"]) blast
    moreover have "mem_view m' u c = mem_view m u c"
      using False u by (intro Decide_uncharged [OF D] one_counter_same_algorithm [OF B(1) bs c])
        (auto simp: vs zip_map2 zip_same_conv_map)
    ultimately show ?thesis using I c u by (simp add: in_step_def)
  qed
qed

lemma redis_Decide_step:
  assumes laws: "keyspace_laws get put del" and B: "one_counter_per_key B" "\<forall>b \<in> B. lua_bucket_ok b"
    and bs: "set bs \<subseteq> B" and t: "lua_clock_ok t" and m: "store_ok t m" and I: "in_step get B ks m t"
  shows "fst (redis_Decide (run_script get put err t) ks bs) = fst (Decide m t bs)"
    and "in_step get B (snd (redis_Decide (run_script get put err t) ks bs)) (snd (Decide m t bs)) t"
    and "store_ok t (snd (Decide m t bs))"
proof -
  let ?r = "redis_Decide (run_script get put err t) ks bs"
  have "fst ?r = fst (Decide m t bs) \<and> in_step get B (snd ?r) (snd (Decide m t bs)) t \<and> store_ok t (snd (Decide m t bs))"
  proof (cases "GuardBuckets bs = None \<and> bs \<noteq> []")
    case True
    then have g: "GuardBuckets bs = None" and ne: "bs \<noteq> []" by auto
    have ok: "\<forall>b \<in> set bs. lua_bucket_ok b" using B bs by auto
    obtain vs m' where D: "Decide m t bs = (Inr vs, m')"
      and vs: "vs = map (\<lambda>b. if all_admit bs (map (out_of m t) bs) \<and> o_allowed (out_of m t b)
        then chargedVerdict (out_of m t b) else currentVerdict (out_of m t b)) bs"
      and a: "Admitted bs vs = Some (all_admit bs (map (out_of m t) bs))" and m': "store_ok t m'"
      by (rule Decide_out_of [OF ok t m g])
    note match = rows_match [OF bs B(2) t m I]
    have adm: "admitted_rows (rows_at get ks t bs) = all_admit bs (map (out_of m t) bs)"
      by (rule admitted_rows_at) (rule match)
    have r: "?r = (Inr (map (\<lambda>(r, _). verdict5 (map reply_number (if all_admit bs (map (out_of m t) bs)
          then charged_reply r else current_reply r))) (rows_at get ks t bs)),
        fold (put t) (if all_admit bs (map (out_of m t) bs) then sets_at get ks t bs else []) ks)"
      unfolding redis_Decide_def run_script_rows [OF ok t g ne] adm sets_at_def Let_def by simp
    have "fst ?r = fst (Decide m t bs)"
      unfolding r D vs fst_conv rows_at_def map_map
      by (auto simp: charged_reply_verdict [OF match] current_reply_verdict [OF match])
    moreover have "in_step get B (snd ?r) m' t"
    proof (cases "all_admit bs (map (out_of m t) bs)")
      case True
      then show ?thesis unfolding r using Decide_in_step [OF laws B bs t m I g True D] by simp
    next
      case False
      have "mem_view m' u c = mem_view m u c" if "c \<in> B" "t \<le> u" for c u
        using that False by (intro Decide_uncharged [OF D] one_counter_same_algorithm [OF B(1) bs])
          (auto simp: a)
      with I False show ?thesis unfolding r by (simp add: in_step_def)
    qed
    ultimately show ?thesis using D m' by simp
  next
    case False
    then show ?thesis
      using I m by (auto simp: redis_Decide_def redis_run_def Decide_def split: option.splits)
  qed
  then show "fst ?r = fst (Decide m t bs)" "in_step get B (snd ?r) (snd (Decide m t bs)) t"
    "store_ok t (snd (Decide m t bs))" by auto
qed

lemma redis_Peek_step:
  assumes B: "one_counter_per_key B" "\<forall>b \<in> B. lua_bucket_ok b"
    and bs: "set bs \<subseteq> B" and t: "lua_clock_ok t" and m: "store_ok t m" and I: "in_step get B ks m t"
  shows "fst (redis_Peek (run_script get put err t) ks bs) = fst (Peek m t bs)"
    and "in_step get B (snd (redis_Peek (run_script get put err t) ks bs)) (snd (Peek m t bs)) t"
    and "store_ok t (snd (Peek m t bs))"
proof -
  let ?r = "redis_Peek (run_script get put err t) ks bs"
  have ok: "\<forall>b \<in> set bs. lua_bucket_ok b" using B bs by auto
  have "in_step get B ks (snd (Peek m t bs)) t"
    using I memory.peek_view [OF _ one_counter_same_algorithm [OF B(1) bs]] by (simp add: in_step_def)
  moreover have "fst ?r = fst (Peek m t bs) \<and> snd ?r = ks"
  proof (cases "GuardBuckets bs = None \<and> bs \<noteq> []")
    case True
    then have g: "GuardBuckets bs = None" and ne: "bs \<noteq> []" by auto
    obtain rs m' where e: "evalAll m t bs = (Inr rs, m')"
      using evalAll_total [OF _ lua_clock_clock [OF t] m, of bs] ok by (auto simp: lua_bucket_ok_def)
    have "list_all2 (\<lambda>b r. evalBucket (mem_view m t b) t b = Inr r) bs rs"
      using g e by (intro evalAll_outs) (auto simp: GuardBuckets_None)
    then have rs: "rs = map (out_of m t) bs"
      by (induction rule: list_all2_induct) (auto simp: out_of_def)
    have "fst (Peek m t bs) = Inr (map (currentVerdict \<circ> out_of m t) bs)"
      using g e by (simp add: Peek_def rs)
    moreover have "?r = (Inr (map (currentVerdict \<circ> out_of m t) bs), ks)"
      unfolding redis_Peek_def run_script_rows [OF ok t g ne] rows_at_def map_map Let_def
      by (auto simp: current_reply_verdict [OF rows_match [OF bs B(2) t m I]])
    ultimately show ?thesis by simp
  next
    case False
    then show ?thesis by (auto simp: redis_Peek_def redis_run_def Peek_def split: option.splits)
  qed
  ultimately show "fst ?r = fst (Peek m t bs)" "in_step get B (snd ?r) (snd (Peek m t bs)) t"
    by auto
  show "store_ok t (snd (Peek m t bs))"
    using m evalAll_store_ok [OF m, of t bs] by (auto simp: Peek_def split: option.splits prod.splits sum.splits)
qed

lemma in_step_Reset:
  assumes "keyspace_laws get put del" "in_step get B ks m t"
  shows "in_step get B (fold del keys ks) (Reset m keys) t"
proof -
  have "agree b (get (fold del keys ks) u (bk_Key b)) (mem_view (Reset m keys) u b) u"
    if "b \<in> B" "t \<le> u" "lua_clock_ok u" for b u
    using that assms(2) by (simp add: in_step_def keyspace_del [OF assms(1)] mem_view_def Reset_map agree_none)
  then show ?thesis by (simp add: in_step_def)
qed

section \<open>Runs\<close>

datatype call = CallDecide "bucket list" | CallPeek "bucket list" | CallReset "string list"

datatype answer = Verdicts "verdict list result" | Done "goerror option"

fun mem_answers :: "mem \<Rightarrow> (int \<times> call) list \<Rightarrow> answer list" where
  "mem_answers m [] = []"
| "mem_answers m ((t, CallDecide bs) # cs) = (let (res, m') = Decide m t bs in Verdicts res # mem_answers m' cs)"
| "mem_answers m ((t, CallPeek bs) # cs) = (let (res, m') = Peek m t bs in Verdicts res # mem_answers m' cs)"
| "mem_answers m ((t, CallReset keys) # cs) = Done None # mem_answers (Reset m keys) cs"

fun redis_answers ::
  "('ks \<Rightarrow> int \<Rightarrow> string \<Rightarrow> string option) \<Rightarrow> (int \<Rightarrow> redis_set \<Rightarrow> 'ks \<Rightarrow> 'ks) \<Rightarrow> (string \<Rightarrow> 'ks \<Rightarrow> 'ks) \<Rightarrow>
     goerror \<Rightarrow> 'ks \<Rightarrow> (int \<times> call) list \<Rightarrow> answer list" where
  "redis_answers get put del err ks [] = []"
| "redis_answers get put del err ks ((t, CallDecide bs) # cs) =
     (let (res, ks') = redis_Decide (run_script get put err t) ks bs in Verdicts res # redis_answers get put del err ks' cs)"
| "redis_answers get put del err ks ((t, CallPeek bs) # cs) =
     (let (res, ks') = redis_Peek (run_script get put err t) ks bs in Verdicts res # redis_answers get put del err ks' cs)"
| "redis_answers get put del err ks ((t, CallReset keys) # cs) =
     (let (res, ks') = redis_Reset (\<lambda>ks keys. (None, fold del keys ks)) ks keys
      in Done res # redis_answers get put del err ks' cs)"

fun call_buckets :: "call \<Rightarrow> bucket set" where
  "call_buckets (CallDecide bs) = set bs"
| "call_buckets (CallPeek bs) = set bs"
| "call_buckets (CallReset keys) = {}"

lemma redis_Reset_eq:
  "redis_Reset (\<lambda>ks keys. (None, fold del keys ks)) ks keys = (None, fold del keys ks)"
  by (simp add: redis_Reset_def)

lemma answers_in_step:
  assumes laws: "keyspace_laws get put del" and B: "one_counter_per_key B" "\<forall>b \<in> B. lua_bucket_ok b"
  shows "\<forall>(t, c) \<in> set cs. t0 \<le> t \<and> lua_clock_ok t \<and> call_buckets c \<subseteq> B \<Longrightarrow> sorted (map fst cs) \<Longrightarrow>
    store_ok t0 m \<Longrightarrow> in_step get B ks m t0 \<Longrightarrow> redis_answers get put del err ks cs = mem_answers m cs"
proof (induction cs arbitrary: ks m t0)
  case (Cons tc cs)
  obtain t c where tc: "tc = (t, c)" by (cases tc)
  have t: "t0 \<le> t" "lua_clock_ok t" "call_buckets c \<subseteq> B" using Cons.prems(1) tc by auto
  have m: "store_ok t m" and I: "in_step get B ks m t"
    using Cons.prems(3,4) t(1) by (auto intro: store_ok_mono in_step_mono)
  have rest: "\<forall>(t', c') \<in> set cs. t \<le> t' \<and> lua_clock_ok t' \<and> call_buckets c' \<subseteq> B" "sorted (map fst cs)"
    using Cons.prems(1,2) tc by auto
  note IH = Cons.IH [OF rest]
  show ?case
  proof (cases c)
    case (CallDecide bs)
    with t have bs: "set bs \<subseteq> B" by simp
    note step = redis_Decide_step [OF laws B bs t(2) m I]
    from step(1) IH [OF step(3,2)] show ?thesis
      by (simp add: tc CallDecide Let_def case_prod_beta)
  next
    case (CallPeek bs)
    with t have bs: "set bs \<subseteq> B" by simp
    note step = redis_Peek_step [OF B bs t(2) m I]
    from step(1) IH [OF step(3,2)] show ?thesis
      by (simp add: tc CallPeek Let_def case_prod_beta)
  next
    case (CallReset keys)
    with IH [OF Reset_store_ok [OF m] in_step_Reset [OF laws I]] show ?thesis
      by (simp add: tc redis_Reset_eq)
  qed
qed simp

lemma in_step_empty: "\<forall>u k. get ks u k = None \<Longrightarrow> in_step get B ks New t"
  by (simp add: in_step_def mem_view_def New_def agree_none)

section \<open>A concrete keyspace\<close>

text \<open>A list of keys with their value and the time they expire.\<close>

type_synonym key_list = "(string \<times> string \<times> int) list"

definition kl_get :: "key_list \<Rightarrow> int \<Rightarrow> string \<Rightarrow> string option" where
  "kl_get ks u k = (case map_of ks k of Some (v, d) \<Rightarrow> if u < d then Some v else None | None \<Rightarrow> None)"

definition kl_put :: "int \<Rightarrow> redis_set \<Rightarrow> key_list \<Rightarrow> key_list" where
  "kl_put t set1 ks = (case set1 of (k, v, px) \<Rightarrow> AList.update k (v, t + px * 1000) ks)"

lemma kl_laws: "keyspace_laws kl_get kl_put AList.delete"
  by (auto simp: keyspace_laws_def kl_get_def kl_put_def)

definition sample_calls :: "(int \<times> call) list" where
  "sample_calls =
     [(sample_time, CallDecide [sample_minute, sample_day]),
      (sample_time + 1, CallPeek [sample_minute]),
      (sample_time + 1, CallReset [bk_Key sample_day]),
      (sample_time + 2, CallDecide [sample_day, sample_minute])]"

section \<open>Properties\<close>

text \<open>
  C5. The shared store answers every sequence of calls exactly as the in-memory reference does.
  From an empty keyspace, at clock readings that never decrease and lie before the year 2191, each
  \<open>Decide\<close> and \<open>Peek\<close> returns the same verdicts field for field, or the same error, and each
  \<open>Reset\<close> succeeds. The buckets are ones the compiler admits, with costs and requests up to
  \<open>2 ^ 53\<close>, and the key of a bucket fixes its algorithm and its period. The script's doubles, its
  text states and their millisecond expiry make no difference.
\<close>

theorem redis_answers_like_memory:
  assumes "keyspace_laws get put del" "\<forall>u k. get ks u k = None"
    and "one_counter_per_key (\<Union>(t, c) \<in> set cs. call_buckets c)"
    and "\<forall>(t, c) \<in> set cs. lua_clock_ok t \<and> (\<forall>b \<in> call_buckets c. lua_bucket_ok b)"
    and "sorted (map fst cs)"
  shows "redis_answers get put del err ks cs = mem_answers New cs"
proof (cases cs)
  case (Cons tc cs')
  have "\<forall>(t, c) \<in> set cs. fst tc \<le> t \<and> lua_clock_ok t \<and> call_buckets c \<subseteq> (\<Union>(t, c) \<in> set cs. call_buckets c)"
    using assms(4,5) Cons by (fastforce simp: case_prod_beta)
  then show ?thesis
    using assms by (intro answers_in_step [OF assms(1,3) _ _ assms(5) store_ok_New in_step_empty]) auto
qed simp

theorem redis_answers_like_memory_witness:
  "redis_answers kl_get kl_put AList.delete (Errorf ''ERR'' []) [] sample_calls = mem_answers New sample_calls"
proof (rule redis_answers_like_memory [OF kl_laws])
  have "lua_bucket_ok sample_minute" "lua_bucket_ok sample_day"
    using sample_buckets_ok by (simp_all add: lua_bucket_ok_def sample_minute_def sample_day_def)
  then show "\<forall>(t, c) \<in> set sample_calls. lua_clock_ok t \<and> (\<forall>b \<in> call_buckets c. lua_bucket_ok b)"
    by (simp add: sample_calls_def lua_clock_ok_def sample_time_def)
  show "one_counter_per_key (\<Union>(t, c) \<in> set sample_calls. call_buckets c)"
    using sample_distinct by (auto simp: sample_calls_def one_counter_per_key_def same_counter_def)
qed (simp_all add: kl_get_def sample_calls_def)

end
