(* ===== verification/Redis_Scan.thy ===== *)
theory Redis_Scan
  imports Keys Store_Contract Lua_Number "HOL-Library.List_Lexorder" "HOL-Library.Char_ord"
begin

text \<open>
  The scan of the shared store (\<open>Scan\<close> of \<open>engine/store/redis\<close>): one \<open>SCAN\<close> per step, over the one
  node or the masters of a cluster, with a cursor that names its node, and a match pattern that
  escapes the prefix. The \<open>SCAN\<close> command, the glob matcher of the server and the cluster's
  node list are parameters.
\<close>

section \<open>The source\<close>

definition ErrBadCursor :: goerror where
  "ErrBadCursor = Errorf ''store: the cursor is not a continuation of this scan'' []"

definition hasHashTag :: "string \<Rightarrow> bool" where
  "hasHashTag s =
     (let (_, rest, opened) = Cut s (CHR ''{'') in
      if \<not> opened then False
      else let (tag, _, shut) = Cut rest (CHR ''}'') in shut \<and> tag \<noteq> [])"

text \<open>The replacer's patterns are single bytes, so it rewrites byte by byte.\<close>

definition escapeGlob :: "string \<Rightarrow> string" where
  "escapeGlob s = concat (map (\<lambda>c. if c \<in> set (CHR 0x5C # ''*?[]'') then [CHR 0x5C, c] else [c]) s)"

text \<open>\<open>strconv.FormatUint\<close> and \<open>strconv.ParseUint\<close> in base 10 and 64 bits; a \<open>uint64\<close> is a \<open>nat\<close>.\<close>

definition ParseUint64 :: "string \<Rightarrow> nat option" where
  "ParseUint64 s =
     (if s \<noteq> [] \<and> list_all isDigit s then
        (let n = foldl (\<lambda>n c. n * 10 + (of_char c - 48)) 0 s :: int in if n < 2 ^ 64 then Some (nat n) else None)
      else None)"

definition formatScanCursor :: "string \<Rightarrow> nat \<Rightarrow> string" where
  "formatScanCursor addr pos = (if addr = [] then FormatNat pos else addr @ ''@'' @ FormatNat pos)"

record 'c scanNode =
  sn_addr :: string
  sn_client :: 'c

text \<open>The parts of a cursor before and after its last \<open>@\<close>.\<close>

definition split_cursor :: "string \<Rightarrow> string \<times> string" where
  "split_cursor cursor =
     (if CHR ''@'' \<in> set cursor
      then (butlast (rev (dropWhile (\<lambda>c. c \<noteq> CHR ''@'') (rev cursor))), rev (takeWhile (\<lambda>c. c \<noteq> CHR ''@'') (rev cursor)))
      else ([], cursor))"

fun node_index :: "string \<Rightarrow> 'c scanNode list \<Rightarrow> nat option" where
  "node_index addr [] = None"
| "node_index addr (n # ns) = (if sn_addr n = addr then Some 0 else map_option Suc (node_index addr ns))"

definition parseScanCursor :: "string \<Rightarrow> 'c scanNode list \<Rightarrow> (nat \<times> nat) result" where
  "parseScanCursor cursor nodes =
     (if cursor = [] then Inr (0, 0)
      else
        let (addr, digits) = split_cursor cursor in
        case ParseUint64 digits of
          None \<Rightarrow> Inl (Errorf ''redis: scan: %w'' [FErr ErrBadCursor])
        | Some pos \<Rightarrow>
            (case node_index addr nodes of
               Some i \<Rightarrow> Inr (i, pos)
             | None \<Rightarrow> Inl (Errorf ''redis: scan: %w'' [FErr ErrBadCursor])))"

text \<open>
  What the client is: one server, or a cluster with the master of a key and all masters, as the
  cluster client reports them or fails to.
\<close>

datatype 'c rdb =
    Standalone 'c
  | Cluster "string \<Rightarrow> 'c scanNode result" "'c scanNode list result"

definition scanNodes :: "'c rdb \<Rightarrow> string \<Rightarrow> 'c scanNode list result" where
  "scanNodes rdb prefix =
     (case rdb of
        Standalone c \<Rightarrow> Inr [\<lparr>sn_addr = [], sn_client = c\<rparr>]
      | Cluster masterForKey masters \<Rightarrow>
          if hasHashTag prefix then
            (case masterForKey prefix of Inl err \<Rightarrow> Inl err | Inr owner \<Rightarrow> Inr [owner])
          else
            (case masters of Inl err \<Rightarrow> Inl err | Inr nodes \<Rightarrow> Inr (sort_key sn_addr nodes)))"

text \<open>
  One \<open>SCAN\<close> on a node: position, pattern and count to keys and the next position. The loop of
  \<open>Scan\<close> runs over the nodes from the cursor's on; \<open>None\<close> of the empty list is the index panic.
\<close>

type_synonym 'c scan_cmd = "'c \<Rightarrow> nat \<Rightarrow> string \<Rightarrow> int \<Rightarrow> (string list \<times> nat) result"

fun scan_loop :: "'c scan_cmd \<Rightarrow> string \<Rightarrow> int \<Rightarrow> 'c scanNode list \<Rightarrow> nat \<Rightarrow> (string list \<times> string) result" where
  "scan_loop scan match limit [] pos = Inl (Panic ''runtime error: index out of range'' [])"
| "scan_loop scan match limit (n # ns) pos =
     (case scan (sn_client n) pos match limit of
        Inl err \<Rightarrow> Inl (Errorf ''redis: scan: %w'' [FErr err])
      | Inr (ks, pos') \<Rightarrow>
          let keys = sort ks in
          if pos' \<noteq> 0 then Inr (keys, formatScanCursor (sn_addr n) pos')
          else (case ns of
              [] \<Rightarrow> Inr (keys, [])
            | n' # _ \<Rightarrow>
                if length keys > 0 then Inr (keys, formatScanCursor (sn_addr n') 0)
                else scan_loop scan match limit ns 0))"

definition redis_Scan :: "'c scan_cmd \<Rightarrow> 'c rdb \<Rightarrow> string \<Rightarrow> string \<Rightarrow> int \<Rightarrow> (string list \<times> string) result" where
  "redis_Scan scan rdb prefix cursor limit =
     (if limit < 1 then Inl (Errorf ''redis: scan: limit must be at least 1, got %d'' [FInt limit])
      else (case scanNodes rdb prefix of
          Inl err \<Rightarrow> Inl (Errorf ''redis: scan: %w'' [FErr err])
        | Inr nodes \<Rightarrow>
            (case parseScanCursor cursor nodes of
               Inl err \<Rightarrow> Inl err
             | Inr (node, pos) \<Rightarrow>
                 scan_loop scan (escapeGlob prefix @ ''*'') limit (drop node nodes) pos)))"

section \<open>Match patterns\<close>

text \<open>
  The parts of Redis glob patterns the store relies on: a trailing \<open>*\<close> matches anything, a
  backslash takes the next byte literally, and a byte that is no metacharacter matches itself.
\<close>

definition glob_laws :: "(string \<Rightarrow> string \<Rightarrow> bool) \<Rightarrow> bool" where
  "glob_laws glob \<longleftrightarrow>
     (\<forall>s. glob ''*'' s) \<and>
     (\<forall>c p s. glob (CHR 0x5C # c # p) s \<longleftrightarrow> s \<noteq> [] \<and> hd s = c \<and> glob p (tl s)) \<and>
     (\<forall>c p s. c \<notin> set (CHR 0x5C # ''*?['') \<longrightarrow> (glob (c # p) s \<longleftrightarrow> s \<noteq> [] \<and> hd s = c \<and> glob p (tl s)))"

lemma escapeGlob_Cons: "escapeGlob (c # s) =
    (if c \<in> set (CHR 0x5C # ''*?[]'') then [CHR 0x5C, c] else [c]) @ escapeGlob s"
  by (simp only: escapeGlob_def list.map concat.simps)

lemma escapeGlob_matches:
  assumes "glob_laws glob"
  shows "glob (escapeGlob p @ ''*'') s \<longleftrightarrow> HasPrefix s p"
proof (induction p arbitrary: s)
  case Nil
  then show ?case using assms by (simp add: escapeGlob_def glob_laws_def)
next
  case (Cons c p)
  have "glob (escapeGlob (c # p) @ ''*'') s \<longleftrightarrow> s \<noteq> [] \<and> hd s = c \<and> glob (escapeGlob p @ ''*'') (tl s)"
  proof (cases "c \<in> set (CHR 0x5C # ''*?[]'')")
    case True
    then have "escapeGlob (c # p) @ ''*'' = CHR 0x5C # c # escapeGlob p @ ''*''"
      by (simp only: escapeGlob_Cons if_True append_Cons append_Nil)
    with assms show ?thesis by (simp only: glob_laws_def)
  next
    case False
    then have "escapeGlob (c # p) @ ''*'' = c # escapeGlob p @ ''*''" and "c \<notin> set (CHR 0x5C # ''*?['')"
      by (simp_all only: escapeGlob_Cons if_False append_Cons append_Nil) simp
    with assms show ?thesis by (simp only: glob_laws_def) blast
  qed
  with Cons show ?case by (cases s) auto
qed

section \<open>Cursors\<close>

lemma ParseUint64_FormatNat: "n < 2 ^ 64 \<Longrightarrow> ParseUint64 (FormatNat n) = Some n"
  using FormatNat_digits [of _ n] by (simp add: ParseUint64_def digits_FormatNat list_all_iff Let_def)

lemma FormatNat_no_at: "CHR ''@'' \<notin> set (FormatNat n)"
  using FormatNat_digits [of "CHR ''@''" n] by (auto simp: isDigit_def less_eq_char_def)

lemma cut_at:
  "c \<notin> set p \<Longrightarrow> takeWhile (\<lambda>x. x \<noteq> c) (p @ c # r) = p"
  "c \<notin> set p \<Longrightarrow> dropWhile (\<lambda>x. x \<noteq> c) (p @ c # r) = c # r"
  by (induction p) auto

lemma split_cursor_format: "split_cursor (formatScanCursor addr pos) = (addr, FormatNat pos)"
  using FormatNat_no_at [of pos]
  by (auto simp: split_cursor_def formatScanCursor_def cut_at)

lemma formatScanCursor_not_Nil [simp]: "formatScanCursor addr pos \<noteq> []"
  by (simp add: formatScanCursor_def)

lemma node_index_nth:
  "distinct (map sn_addr nodes) \<Longrightarrow> i < length nodes \<Longrightarrow> node_index (sn_addr (nodes ! i)) nodes = Some i"
proof (induction nodes arbitrary: i)
  case (Cons n ns)
  then show ?case by (cases i) (auto dest: nth_mem)
qed simp

lemma parse_format_cursor:
  assumes "distinct (map sn_addr nodes)" "i < length nodes" "pos < 2 ^ 64"
  shows "parseScanCursor (formatScanCursor (sn_addr (nodes ! i)) pos) nodes = Inr (i, pos)"
  using assms by (simp add: parseScanCursor_def split_cursor_format ParseUint64_FormatNat node_index_nth)

section \<open>Walks\<close>

text \<open>A full iteration of one node: from a position to the position zero, and the keys on the way.\<close>

inductive scan_chain :: "'c scan_cmd \<Rightarrow> 'c \<Rightarrow> string \<Rightarrow> int \<Rightarrow> nat \<Rightarrow> string list \<Rightarrow> bool"
  for scan :: "'c scan_cmd" and c :: 'c and match :: string and limit :: int where
  last: "scan c pos match limit = Inr (ks, 0) \<Longrightarrow> scan_chain scan c match limit pos ks"
| more: "scan c pos match limit = Inr (ks, p) \<Longrightarrow> p \<noteq> 0 \<Longrightarrow> p < 2 ^ 64 \<Longrightarrow>
    scan_chain scan c match limit p rest \<Longrightarrow> scan_chain scan c match limit pos (ks @ rest)"

text \<open>
  The guarantee Redis gives for a node whose keys do not change: an iteration from zero ends, and
  it returns the keys that match the pattern, some of them perhaps more than once.
\<close>

definition scan_laws :: "'c scan_cmd \<Rightarrow> (string \<Rightarrow> string \<Rightarrow> bool) \<Rightarrow> ('c \<Rightarrow> string set) \<Rightarrow> bool" where
  "scan_laws scan glob keys \<longleftrightarrow>
     (\<forall>c match limit. 1 \<le> limit \<longrightarrow>
        (\<exists>ks. scan_chain scan c match limit 0 ks \<and> set ks = {k \<in> keys c. glob match k}))"

text \<open>The client's side: follow the cursor until it is empty.\<close>

fun redis_walk :: "nat \<Rightarrow> 'c scan_cmd \<Rightarrow> 'c rdb \<Rightarrow> string \<Rightarrow> string \<Rightarrow> int \<Rightarrow> string list list option" where
  "redis_walk 0 scan rdb prefix cursor limit = None"
| "redis_walk (Suc fuel) scan rdb prefix cursor limit =
     (case redis_Scan scan rdb prefix cursor limit of
        Inl _ \<Rightarrow> None
      | Inr (ks, cursor') \<Rightarrow>
          if cursor' = [] then Some [ks]
          else map_option ((#) ks) (redis_walk fuel scan rdb prefix cursor' limit))"

text \<open>The walk from a page on, and what it returns given the pages of the remaining nodes.\<close>

definition walk_on :: "nat \<Rightarrow> 'c scan_cmd \<Rightarrow> 'c rdb \<Rightarrow> string \<Rightarrow> int \<Rightarrow> (string list \<times> string) result \<Rightarrow> string list list option" where
  "walk_on fuel scan rdb prefix limit page =
     (case page of
        Inl _ \<Rightarrow> None
      | Inr (ks, cursor') \<Rightarrow>
          if cursor' = [] then Some [ks]
          else map_option ((#) ks) (redis_walk fuel scan rdb prefix cursor' limit))"

definition walk_returns :: "'c scan_cmd \<Rightarrow> 'c rdb \<Rightarrow> string \<Rightarrow> int \<Rightarrow> (string list \<times> string) result \<Rightarrow> string set \<Rightarrow> bool" where
  "walk_returns scan rdb prefix limit page K \<longleftrightarrow>
     (\<exists>n pages. (\<forall>fuel \<ge> n. walk_on fuel scan rdb prefix limit page = Some pages) \<and>
        set (concat pages) = K \<and> (\<forall>ks \<in> set pages. sorted ks))"

lemma walk_returns_last: "walk_returns scan rdb prefix limit (Inr (sort ks, [])) (set ks)"
  unfolding walk_returns_def walk_on_def by (intro exI [of _ 0] exI [of _ "[sort ks]"]) simp

lemma walk_returns_more:
  assumes "cursor \<noteq> []" "redis_Scan scan rdb prefix cursor limit = page" "walk_returns scan rdb prefix limit page K"
  shows "walk_returns scan rdb prefix limit (Inr (sort ks, cursor)) (set ks \<union> K)"
proof -
  from assms(3) obtain n pages where n: "\<forall>fuel \<ge> n. walk_on fuel scan rdb prefix limit page = Some pages"
    and p: "set (concat pages) = K" "\<forall>ks \<in> set pages. sorted ks"
    by (auto simp: walk_returns_def)
  have "walk_on fuel scan rdb prefix limit (Inr (sort ks, cursor)) = Some (sort ks # pages)" if "Suc n \<le> fuel" for fuel
  proof -
    from that obtain f where f: "fuel = Suc f" "n \<le> f" by (cases fuel) auto
    with n have "walk_on f scan rdb prefix limit page = Some pages" by simp
    then have "redis_walk fuel scan rdb prefix cursor limit = Some pages"
      unfolding f(1) by (simp add: assms(2) walk_on_def)
    with assms(1) show ?thesis by (simp add: walk_on_def)
  qed
  with p show ?thesis
    unfolding walk_returns_def by (intro exI [of _ "Suc n"] exI [of _ "sort ks # pages"]) auto
qed

lemma redis_Scan_cursor:
  assumes "1 \<le> limit" "scanNodes rdb prefix = Inr nodes" "distinct (map sn_addr nodes)" "i < length nodes" "pos < 2 ^ 64"
  shows "redis_Scan scan rdb prefix (formatScanCursor (sn_addr (nodes ! i)) pos) limit =
    scan_loop scan (escapeGlob prefix @ ''*'') limit (drop i nodes) pos"
  using assms by (simp add: redis_Scan_def parse_format_cursor)

lemma walk_chain:
  assumes l: "1 \<le> limit" and nodes: "scanNodes rdb prefix = Inr nodes" "distinct (map sn_addr nodes)" and i: "i < length nodes"
    and later: "Suc i < length nodes \<Longrightarrow>
      walk_returns scan rdb prefix limit (scan_loop scan (escapeGlob prefix @ ''*'') limit (drop (Suc i) nodes) 0) K"
    and K: "Suc i = length nodes \<Longrightarrow> K = {}"
    and c: "scan_chain scan (sn_client (nodes ! i)) (escapeGlob prefix @ ''*'') limit pos ks"
  shows "walk_returns scan rdb prefix limit (scan_loop scan (escapeGlob prefix @ ''*'') limit (drop i nodes) pos) (set ks \<union> K)"
  using c
proof (induction rule: scan_chain.induct)
  case (last pos ks)
  show ?case
  proof (cases "Suc i = length nodes")
    case True
    then have "drop i nodes = [nodes ! i]" using i by (simp add: Cons_nth_drop_Suc [symmetric])
    with last K [OF True] show ?thesis by (simp add: walk_returns_last)
  next
    case False
    then have si: "Suc i < length nodes" using i by simp
    have d: "drop i nodes = nodes ! i # nodes ! Suc i # drop (Suc (Suc i)) nodes"
      using i si by (simp add: Cons_nth_drop_Suc)
    have d': "drop (Suc i) nodes = nodes ! Suc i # drop (Suc (Suc i)) nodes"
      using si by (simp add: Cons_nth_drop_Suc)
    show ?thesis
    proof (cases "ks = []")
      case True
      with last later [OF si] show ?thesis by (simp add: d d')
    next
      case False
      then have "sort ks \<noteq> []" by (metis set_empty set_sort)
      with last have "scan_loop scan (escapeGlob prefix @ ''*'') limit (drop i nodes) pos =
          Inr (sort ks, formatScanCursor (sn_addr (nodes ! Suc i)) 0)"
        by (simp add: d)
      then show ?thesis
        using walk_returns_more [OF _ redis_Scan_cursor [OF l nodes si] later [OF si], of ks] by simp
    qed
  qed
next
  case (more pos ks p rest)
  have "drop i nodes = nodes ! i # drop (Suc i) nodes" using i by (simp add: Cons_nth_drop_Suc)
  with more have "scan_loop scan (escapeGlob prefix @ ''*'') limit (drop i nodes) pos =
      Inr (sort ks, formatScanCursor (sn_addr (nodes ! i)) p)" by simp
  then show ?case
    using walk_returns_more [OF _ redis_Scan_cursor [OF l nodes i more.hyps(3)] more.IH, of ks]
    by (simp add: Un_assoc)
qed

lemma walk_nodes:
  assumes l: "1 \<le> limit" and nodes: "scanNodes rdb prefix = Inr nodes" "distinct (map sn_addr nodes)"
    and laws: "scan_laws scan glob keys" and i: "i < length nodes"
  shows "walk_returns scan rdb prefix limit (scan_loop scan (escapeGlob prefix @ ''*'') limit (drop i nodes) 0)
    {k. \<exists>n \<in> set (drop i nodes). k \<in> keys (sn_client n) \<and> glob (escapeGlob prefix @ ''*'') k}"
  using i
proof (induction "length nodes - i" arbitrary: i)
  case (Suc d)
  let ?K = "\<lambda>i. {k. \<exists>n \<in> set (drop i nodes). k \<in> keys (sn_client n) \<and> glob (escapeGlob prefix @ ''*'') k}"
  obtain ks where c: "scan_chain scan (sn_client (nodes ! i)) (escapeGlob prefix @ ''*'') limit 0 ks"
    and ks: "set ks = {k \<in> keys (sn_client (nodes ! i)). glob (escapeGlob prefix @ ''*'') k}"
    using laws l unfolding scan_laws_def by blast
  have "?K i = set ks \<union> ?K (Suc i)"
    using Suc.prems by (subst Cons_nth_drop_Suc [symmetric]) (auto simp: ks)
  moreover have "walk_returns scan rdb prefix limit (scan_loop scan (escapeGlob prefix @ ''*'') limit (drop i nodes) 0)
      (set ks \<union> ?K (Suc i))"
    using Suc by (intro walk_chain [OF l nodes Suc.prems _ _ c]) auto
  ultimately show ?case by simp
qed simp

section \<open>Slots\<close>

text \<open>The part of a key that decides its cluster slot: the tag in braces, when there is one.\<close>

definition hash_tag :: "string \<Rightarrow> string option" where
  "hash_tag s =
     (case Cut s (CHR ''{'') of
        (_, rest, opened) \<Rightarrow>
          (case Cut rest (CHR ''}'') of
             (tag, _, shut) \<Rightarrow> if opened \<and> shut \<and> tag \<noteq> [] then Some tag else None))"

lemma hash_tag_eq:
  assumes "CHR ''{'' \<notin> set a" "CHR ''}'' \<notin> set tag" "tag \<noteq> []"
  shows "hash_tag (a @ CHR ''{'' # tag @ CHR ''}'' # r) = Some tag"
  using assms by (simp add: hash_tag_def)

lemma hasHashTag_tag: "hasHashTag s \<longleftrightarrow> hash_tag s \<noteq> None"
  by (auto simp: hasHashTag_def hash_tag_def split: prod.splits)

lemma hash_tag_prefix:
  assumes "hasHashTag p" "HasPrefix k p"
  shows "hash_tag k = hash_tag p"
proof -
  obtain a rest tag r where a: "Cut p (CHR ''{'') = (a, rest, True)" "Cut rest (CHR ''}'') = (tag, r, True)" "tag \<noteq> []"
    using assms(1) by (auto simp: hasHashTag_def split: prod.splits if_splits)
  from Cut_found [OF a(1)] Cut_found [OF a(2)]
  have p: "p = a @ CHR ''{'' # tag @ CHR ''}'' # r" "CHR ''{'' \<notin> set a" "CHR ''}'' \<notin> set tag" by auto
  moreover obtain q where "k = p @ q" using assms(2) by (auto simp: HasPrefix_iff)
  ultimately have "k = a @ CHR ''{'' # tag @ CHR ''}'' # (r @ q)" by simp
  then have "hash_tag k = Some tag" using hash_tag_eq [OF p(2,3) a(3)] by simp
  then show ?thesis using hash_tag_eq [OF p(2,3) a(3)] p(1) by simp
qed

lemma bucket_hash_tag:
  assumes "RatePrefix i a w = Some p"
  shows "hash_tag (Bucket p axes) = Some (escape (Namespace i) @ CHR ''/'' # escape (Domain i))"
proof -
  let ?tag = "escape (Namespace i) @ CHR ''/'' # escape (Domain i)"
  have "Bucket p axes = ''rl:v1:'' @ CHR ''{'' # ?tag @ CHR ''}'' #
      (CHR '':'' # escape (id_Block i) @ CHR ''/'' # escape (id_Rule i) @ CHR '':'' #
       rate_text a (quo64 (Period w) Second) @ axes_text axes)"
    using assms by (simp add: RatePrefix_eq Bucket_eq rule_text_def split: if_splits)
  then show ?thesis using hash_tag_eq [of "''rl:v1:''" ?tag] by simp
qed

section \<open>A concrete cluster\<close>

text \<open>A matcher for the patterns the store sends, and nodes that return their keys in two pages.\<close>

fun plain_glob :: "string \<Rightarrow> string \<Rightarrow> bool" where
  "plain_glob [] s \<longleftrightarrow> s = []"
| "plain_glob [c] s \<longleftrightarrow> c = CHR ''*'' \<or> c \<notin> set (CHR 0x5C # ''?['') \<and> s = [c]"
| "plain_glob (c # d # p) s \<longleftrightarrow>
     (if c = CHR 0x5C then s \<noteq> [] \<and> hd s = d \<and> plain_glob p (tl s)
      else c \<notin> set ''*?['' \<and> s \<noteq> [] \<and> hd s = c \<and> plain_glob (d # p) (tl s))"

lemma plain_glob_laws: "glob_laws plain_glob"
proof -
  have "plain_glob (c # p) s \<longleftrightarrow> s \<noteq> [] \<and> hd s = c \<and> plain_glob p (tl s)" if "c \<notin> set (CHR 0x5C # ''*?['')" for c p s
    using that by (cases p; cases s) auto
  then show ?thesis unfolding glob_laws_def by auto
qed

definition two_pages :: "string list scan_cmd" where
  "two_pages c pos match limit =
     (if pos = 0 \<and> 1 < length c then Inr (filter (plain_glob match) (take 1 c), 1)
      else if pos = 0 then Inr (filter (plain_glob match) c, 0)
      else Inr (filter (plain_glob match) (drop 1 c), 0))"

lemma two_pages_laws: "scan_laws two_pages plain_glob set"
proof -
  have chain: "scan_chain two_pages c match limit 0 (filter (plain_glob match) c)" for c match limit
  proof (cases "1 < length c")
    case True
    have "scan_chain two_pages c match limit 1 (filter (plain_glob match) (drop 1 c))"
      by (rule scan_chain.last) (simp add: two_pages_def)
    with True have "scan_chain two_pages c match limit 0
        (filter (plain_glob match) (take 1 c) @ filter (plain_glob match) (drop 1 c))"
      by (intro scan_chain.more) (auto simp: two_pages_def)
    then show ?thesis by (metis append_take_drop_id filter_append)
  qed (auto intro: scan_chain.last simp: two_pages_def)
  show ?thesis unfolding scan_laws_def
  proof (intro allI impI)
    show "\<exists>ks. scan_chain two_pages c match limit 0 ks \<and> set ks = {k \<in> set c. plain_glob match k}" for c match limit
      using chain [of c match limit] by (intro exI [of _ "filter (plain_glob match) c"]) simp
  qed
qed

definition sample_cluster :: "string list rdb" where
  "sample_cluster = Cluster (\<lambda>_. Inl (Errorf ''ERR'' []))
     (Inr [\<lparr>sn_addr = ''b:1'', sn_client = [''r[x'', ''r[y'']\<rparr>, \<lparr>sn_addr = ''a:1'', sn_client = [''rax'']\<rparr>])"

lemma sample_cluster_nodes: "scanNodes sample_cluster ''r['' =
    Inr [\<lparr>sn_addr = ''a:1'', sn_client = [''rax'']\<rparr>, \<lparr>sn_addr = ''b:1'', sn_client = [''r[x'', ''r[y'']\<rparr>]"
  by (simp add: scanNodes_def sample_cluster_def hasHashTag_def less_char_def)

section \<open>Properties\<close>



text \<open>
  The keys of one decision share a cluster slot, and so do all keys a tagged prefix covers. Two
  bucket keys have the same hash tag exactly when they belong to the same namespace and domain;
  every key under a prefix with a hash tag has the prefix's tag, so the one master \<open>Scan\<close> reads for
  such a prefix owns all of them.
\<close>

theorem bucket_keys_slot:
  assumes "RatePrefix i a w = Some p" "RatePrefix j b v = Some q"
  shows "(hash_tag (Bucket p xs) = hash_tag (Bucket q ys) \<longleftrightarrow> Namespace i = Namespace j \<and> Domain i = Domain j) \<and>
    (hasHashTag prefix \<and> HasPrefix (Bucket p xs) prefix \<longrightarrow> hash_tag (Bucket p xs) = hash_tag prefix)"
  using hash_tag_prefix [of prefix "Bucket p xs"]
  by (auto simp: bucket_hash_tag [OF assms(1)] bucket_hash_tag [OF assms(2)] append_sep_eq)

theorem bucket_keys_slot_witness:
  "hash_tag (Bucket ''rl:v1:{ns/gw}:b/r:gcra:60:'' [''al{x}'']) = hash_tag ''rl:v1:{ns/gw}:''"
proof -
  have "hasHashTag ''rl:v1:{ns/gw}:''" "HasPrefix (Bucket ''rl:v1:{ns/gw}:b/r:gcra:60:'' [''al{x}'']) ''rl:v1:{ns/gw}:''"
    by (simp_all add: hasHashTag_def Bucket_def)
  with bucket_keys_slot [OF sample_rate_prefix sample_rate_prefix] show ?thesis by blast
qed

end
