(* ===== verification/Match_Rules.thy ===== *)
theory Match_Rules
  imports Match_Target Memory_Store "HOL-Library.Sublist"
begin

text \<open>
  What the rule phase of \<open>engine/match\<close> computes for a compiled snapshot: which rules a block
  applies under each mode, that expanding them never panics, and that the buckets of one
  request fit the decision budget and carry pairwise distinct keys.
\<close>

section \<open>One rule\<close>

definition axes_of :: "block_ctx \<Rightarrow> c_rule \<Rightarrow> string list" where
  "axes_of ctx rule = map (\<lambda>axis. hd (valueOf ctx axis)) (cu_Counters rule)"

definition rule_bucket :: "block_ctx \<Rightarrow> c_rule \<Rightarrow> c_rate \<Rightarrow> bucket" where
  "rule_bucket ctx rule rate =
     \<lparr>bk_Key = Bucket (ct_Prefix rate) (axes_of ctx rule), bk_Algorithm = alg_ID (ct_Algorithm rate),
      bk_Window = ct_Window rate, bk_Shadow = (cu_Behavior rule = BehaviorShadow), bk_Cost = bc_cost ctx\<rparr>"

definition applied :: "c_block \<Rightarrow> block_ctx \<Rightarrow> c_rule \<Rightarrow> matched_rule" where
  "applied block ctx rule =
     \<lparr>mr_Block = cb_Name block, mr_Rule = cu_Name rule, mr_Shadow = (cu_Behavior rule = BehaviorShadow),
      mr_Cost = bc_cost ctx, mr_Buckets = map (rule_bucket ctx rule) (cu_Rates rule)\<rparr>"

lemma those_map_Some: "(\<And>x. x \<in> set xs \<Longrightarrow> f x = Some (g x)) \<Longrightarrow> those (map f xs) = Some (map g xs)"
  by (induction xs) auto

lemma matchedRule_applied:
  assumes "ruleMatches rule ctx"
  shows "matchedRule block rule ctx = Some (applied block ctx rule)"
proof -
  have "axis_value ctx axis = Some (hd (valueOf ctx axis))" if "axis \<in> set (cu_Counters rule)" for axis
    using assms that
    by (cases "valueOf ctx axis") (auto simp: ruleMatches_def list_all_iff axis_value_def)
  then have "those (map (axis_value ctx) (cu_Counters rule)) = Some (axes_of ctx rule)"
    unfolding axes_of_def by (rule those_map_Some)
  then show ?thesis by (simp add: matchedRule_def applied_def rule_bucket_def Let_def)
qed

section \<open>The modes\<close>

text \<open>
  Under \<open>FirstMatch\<close>: the matching shadow rules above the first other matching rule, and that
  rule unless it is a bypass.
\<close>

definition first_match :: "block_ctx \<Rightarrow> c_rule list \<Rightarrow> c_rule list" where
  "first_match ctx rules =
     (let matching = filter (\<lambda>r. ruleMatches r ctx) rules;
          shadow = (\<lambda>r. cu_Behavior r = BehaviorShadow)
      in takeWhile shadow matching @
         (case dropWhile shadow matching of
            [] \<Rightarrow> []
          | r # _ \<Rightarrow> if cu_Behavior r = BehaviorBypass then [] else [r]))"

text \<open>
  Under \<open>All\<close>: every matching rule that is no bypass and that no matching rule other than a
  shadow replaces.
\<close>

definition suppressed :: "block_ctx \<Rightarrow> c_rule list \<Rightarrow> string set" where
  "suppressed ctx rules =
     (\<Union>r \<in> {r \<in> set rules. ruleMatches r ctx \<and> cu_Behavior r \<noteq> BehaviorShadow}. set (cu_ReplacedRules r))"

definition all_match :: "block_ctx \<Rightarrow> c_rule list \<Rightarrow> c_rule list" where
  "all_match ctx rules =
     filter (\<lambda>r. ruleMatches r ctx \<and> cu_Behavior r \<noteq> BehaviorBypass \<and> cu_Name r \<notin> suppressed ctx rules) rules"

definition block_match :: "c_block \<Rightarrow> block_ctx \<Rightarrow> c_rule list" where
  "block_match block ctx =
     (if cb_Mode block = ModeFirstMatch then first_match ctx (cb_Rules block) else all_match ctx (cb_Rules block))"

lemma evalFirstMatch_spec:
  "evalFirstMatch block ctx rules = Some (map (applied block ctx) (first_match ctx rules))"
proof (induction rules)
  case (Cons r rules)
  then show ?case
    by (auto simp: first_match_def Let_def matchedRule_applied)
qed (simp add: first_match_def)

lemma evalAll_loop_spec:
  "\<exists>sups. evalAll_loop block ctx rules =
     Some (map (applied block ctx) (filter (\<lambda>r. ruleMatches r ctx \<and> cu_Behavior r \<noteq> BehaviorBypass) rules), sups) \<and>
     set sups = suppressed ctx rules"
proof (induction rules)
  case (Cons r rules)
  then obtain sups where IH: "evalAll_loop block ctx rules =
     Some (map (applied block ctx) (filter (\<lambda>r. ruleMatches r ctx \<and> cu_Behavior r \<noteq> BehaviorBypass) rules), sups)"
     "set sups = suppressed ctx rules" by blast
  have sup: "suppressed ctx (r # rules) =
      (if ruleMatches r ctx \<and> cu_Behavior r \<noteq> BehaviorShadow then set (cu_ReplacedRules r) else {}) \<union>
      suppressed ctx rules"
    by (auto simp: suppressed_def)
  show ?case using IH matchedRule_applied [of r ctx block] by (auto simp: sup)
qed (simp add: suppressed_def)

lemma evalBlock_match: "evalBlock block ctx = Some (map (applied block ctx) (block_match block ctx))"
proof (cases "cb_Mode block = ModeFirstMatch")
  case True
  then show ?thesis by (simp add: evalBlock_def block_match_def evalFirstMatch_spec)
next
  case False
  obtain sups where l: "evalAll_loop block ctx (cb_Rules block) =
     Some (map (applied block ctx)
       (filter (\<lambda>r. ruleMatches r ctx \<and> cu_Behavior r \<noteq> BehaviorBypass) (cb_Rules block)), sups)"
    and sups: "set sups = suppressed ctx (cb_Rules block)"
    using evalAll_loop_spec by blast
  have "filter (\<lambda>m. mr_Rule m \<notin> set sups) (map (applied block ctx) rs) =
      map (applied block ctx) (filter (\<lambda>r. cu_Name r \<notin> set sups) rs)" for rs
    by (induction rs) (auto simp: applied_def)
  then show ?thesis
    using False l sups
    by (auto simp: evalBlock_def evalAll_match_def block_match_def all_match_def conj_commute
        intro!: filter_cong arg_cong [where f = "map (applied block ctx)"])
qed

lemma Evaluate_match:
  "Evaluate c keys cost =
     Some (concat (map (\<lambda>h. map (applied (h_block h) (hit_ctx c keys cost h))
                          (block_match (h_block h) (hit_ctx c keys cost h))) (cd_hits c)))"
  unfolding Evaluate_def
  by (subst those_map_Some [where g = "\<lambda>h. map (applied (h_block h) (hit_ctx c keys cost h))
        (block_match (h_block h) (hit_ctx c keys cost h))"]) (simp_all add: evalBlock_match)

section \<open>The budget\<close>

definition rates_of :: "c_rule list \<Rightarrow> nat" where
  "rates_of rules = sum_list (map (\<lambda>r. length (cu_Rates r)) rules)"

lemma blockDecision_loop_mono:
  "blockDecision_loop mode always widest rules = (a, w) \<Longrightarrow> always \<le> a \<and> widest \<le> w"
proof (induction mode always widest rules rule: blockDecision_loop.induct)
  case (2 mode always widest r rs)
  then show ?case by (fastforce split: if_splits)
qed simp

lemma first_match_budget:
  "blockDecision_loop ModeFirstMatch always widest rules = (a, w) \<Longrightarrow>
     always + rates_of (first_match ctx rules) \<le> a + w"
proof (induction rules arbitrary: always widest)
  case Nil
  then show ?case by (simp add: first_match_def rates_of_def)
next
  case (Cons r rules)
  show ?case
  proof (cases "cu_Behavior r = BehaviorShadow")
    case True
    with Cons.prems have "blockDecision_loop ModeFirstMatch (always + length (cu_Rates r)) widest rules = (a, w)"
      by simp
    from Cons.IH [OF this] True show ?thesis by (auto simp: first_match_def rates_of_def Let_def)
  next
    case False
    with Cons.prems have l: "blockDecision_loop ModeFirstMatch always (max widest (length (cu_Rates r))) rules = (a, w)"
      by simp
    from Cons.IH [OF l] blockDecision_loop_mono [OF l] False show ?thesis
      by (auto simp: first_match_def rates_of_def Let_def)
  qed
qed

lemma all_loop_sum:
  "mode \<noteq> ModeFirstMatch \<Longrightarrow> blockDecision_loop mode always widest rules = (always + rates_of rules, widest)"
  by (induction rules arbitrary: always) (auto simp: rates_of_def)

lemma rates_of_filter: "rates_of (filter P rules) \<le> rates_of rules"
  by (induction rules) (auto simp: rates_of_def)

lemma block_match_budget: "rates_of (block_match block ctx) \<le> blockDecisionBuckets block"
proof (cases "cb_Mode block = ModeFirstMatch")
  case True
  obtain a w where l: "blockDecision_loop ModeFirstMatch 0 0 (cb_Rules block) = (a, w)" by fastforce
  from first_match_budget [OF l, of ctx] True l show ?thesis
    by (simp add: block_match_def blockDecisionBuckets_def)
next
  case False
  then show ?thesis
    using rates_of_filter by (simp add: block_match_def all_match_def blockDecisionBuckets_def all_loop_sum)
qed

lemma decisionBuckets_sum: "decisionBuckets blocks = sum_list (map blockDecisionBuckets blocks)"
proof -
  have "fold (\<lambda>b total. total + blockDecisionBuckets b) blocks n = n + sum_list (map blockDecisionBuckets blocks)" for n
    by (induction blocks arbitrary: n) simp_all
  then show ?thesis by (simp add: decisionBuckets_def)
qed

text \<open>The blocks a request targets, in snapshot order.\<close>

lemma Match_hits:
  "map h_block (cd_hits (Match snap path method)) =
     filter (\<lambda>b. matchTarget b (fst (Cut path (CHR ''?''))) method \<noteq> None) (sn_Blocks snap)"
proof -
  obtain p q f where c: "Cut path (CHR ''?'') = (p, q, f)" using prod_cases3 by blast
  have "map h_block (List.map_filter (matchBlock p q method) bs) =
      filter (\<lambda>b. matchTarget b p method \<noteq> None) bs" for bs
    by (induction bs) (auto simp: map_filter_simps matchBlock_def split: option.split)
  then show ?thesis by (simp add: Match_def c)
qed

lemma hits_budget:
  "sum_list (map (\<lambda>h. blockDecisionBuckets (h_block h)) (cd_hits (Match snap path method))) \<le>
     decisionBuckets (sn_Blocks snap)"
proof -
  have "sum_list (map blockDecisionBuckets (filter P bs)) \<le> sum_list (map blockDecisionBuckets bs)" for P bs
    by (induction bs) auto
  then have "sum_list (map blockDecisionBuckets (map h_block (cd_hits (Match snap path method)))) \<le>
      decisionBuckets (sn_Blocks snap)"
    unfolding Match_hits decisionBuckets_sum .
  then show ?thesis by (simp add: comp_def)
qed

lemma Buckets_simps [simp]: "Buckets [] = []" "Buckets (m # ms) = mr_Buckets m @ Buckets ms"
  "Buckets (ms @ ns) = Buckets ms @ Buckets ns"
  by (simp_all add: Buckets_def)

lemma length_Buckets_applied: "length (Buckets (map (applied b ctx) rules)) = rates_of rules"
  by (induction rules) (auto simp: rates_of_def applied_def)

lemma Evaluate_budget:
  assumes "Evaluate (Match snap path method) keys cost = Some rules"
  shows "length (Buckets rules) \<le> decisionBuckets (sn_Blocks snap)"
proof -
  define c where "c = Match snap path method"
  let ?m = "\<lambda>h. map (applied (h_block h) (hit_ctx c keys cost h)) (block_match (h_block h) (hit_ctx c keys cost h))"
  have rules: "rules = concat (map ?m (cd_hits c))" using assms by (simp add: Evaluate_match c_def)
  have "length (Buckets (concat (map ?m hs))) \<le> sum_list (map (\<lambda>h. blockDecisionBuckets (h_block h)) hs)" for hs
  proof (induction hs)
    case (Cons h hs)
    then show ?case using block_match_budget [of "h_block h" "hit_ctx c keys cost h"]
      by (simp add: length_Buckets_applied)
  qed simp
  from this [of "cd_hits c"] hits_budget [of snap path "method"] show ?thesis
    unfolding rules c_def by linarith
qed

section \<open>Distinct keys\<close>

lemma subseq_distinct: "subseq xs ys \<Longrightarrow> distinct ys \<Longrightarrow> distinct xs"
  by (auto simp: subseq_conv_nths distinct_nthsI)

lemma first_match_subseq: "subseq (first_match ctx rules) rules"
proof -
  define shadow :: "c_rule \<Rightarrow> bool" where "shadow = (\<lambda>r. cu_Behavior r = BehaviorShadow)"
  define ms where "ms = filter (\<lambda>r. ruleMatches r ctx) rules"
  have "subseq (case dropWhile shadow ms of [] \<Rightarrow> [] | r # _ \<Rightarrow> if cu_Behavior r = BehaviorBypass then [] else [r])
      (dropWhile shadow ms)"
    by (auto split: list.split)
  then have "subseq (first_match ctx rules) (takeWhile shadow ms @ dropWhile shadow ms)"
    unfolding first_match_def Let_def shadow_def [symmetric] ms_def [symmetric]
    by (rule list_emb_append_mono [OF subseq_order.refl])
  then have "subseq (first_match ctx rules) ms" by simp
  also have "subseq ms rules" by (simp add: ms_def subseq_filter_left)
  finally show ?thesis .
qed

lemma block_match_subseq: "subseq (block_match block ctx) (cb_Rules block)"
  by (simp add: block_match_def first_match_subseq all_match_def subseq_filter_left)

lemma block_match_set: "r \<in> set (block_match block ctx) \<Longrightarrow> r \<in> set (cb_Rules block)"
  by (rule list_emb_set [OF block_match_subseq]) auto

lemma distinct_concat_tag:
  assumes "distinct (map tag xs)" "\<And>x. x \<in> set xs \<Longrightarrow> distinct (f x)"
    and "\<And>x y. x \<in> set xs \<Longrightarrow> y \<in> set (f x) \<Longrightarrow> key y = tag x"
  shows "distinct (concat (map f xs))"
  using assms
proof (induction xs)
  case (Cons x xs)
  have "set (f x) \<inter> set (concat (map f xs)) = {}"
  proof (rule ccontr)
    assume "set (f x) \<inter> set (concat (map f xs)) \<noteq> {}"
    then obtain y x' where y: "y \<in> set (f x)" "x' \<in> set xs" "y \<in> set (f x')" by auto
    then have "tag x = tag x'" using Cons.prems(3) [of x y] Cons.prems(3) [of x' y] by simp
    with y(2) Cons.prems(1) show False by (metis distinct.simps(2) image_eqI list.map(2) set_map)
  qed
  with Cons show ?case by auto
qed simp

lemma distinct_via:
  assumes "list_all2 R xs ys" "distinct xs" "\<And>x x' y y'. R x y \<Longrightarrow> R x' y' \<Longrightarrow> k y = k y' \<Longrightarrow> x = x'"
  shows "distinct (map k ys)"
  using assms
proof (induction rule: list_all2_induct)
  case (Cons x xs y ys)
  have "k y \<noteq> k y'" if "y' \<in> set ys" for y'
    using list_all2_right_mem [OF Cons.hyps(2) that] Cons.hyps(1) Cons.prems by auto
  then have "k y \<notin> k ` set ys" by blast
  with Cons show ?case by simp
qed simp

text \<open>Where a bucket comes from: its block, its rule and the period of its window.\<close>

type_synonym origin = "string \<times> string \<times> int"

definition rule_origins :: "matched_rule \<Rightarrow> origin list" where
  "rule_origins m = map (\<lambda>b. (mr_Block m, mr_Rule m, Period (bk_Window b))) (mr_Buckets m)"

definition keyed :: "string \<Rightarrow> string \<Rightarrow> origin \<Rightarrow> bucket \<Rightarrow> bool" where
  "keyed namespace domain o' b \<longleftrightarrow>
     (case o' of (block, rule, period) \<Rightarrow>
        \<exists>a w p axes. Check a w = None \<and> Period w = period \<and> bk_Key b = Bucket p axes \<and>
          RatePrefix \<lparr>Namespace = namespace, Domain = domain, id_Block = block, id_Rule = rule\<rparr> a w = Some p)"

lemma keyed_inj:
  assumes "keyed namespace domain x b" "keyed namespace domain x' b'" "bk_Key b = bk_Key b'"
  shows "x = x'"
proof -
  obtain bl r p bl' r' p' where x: "x = (bl, r, p)" "x' = (bl', r', p')" by (metis prod_cases3)
  obtain a w q axes where 1: "Check a w = None" "Period w = p" "bk_Key b = Bucket q axes"
    "RatePrefix \<lparr>Namespace = namespace, Domain = domain, id_Block = bl, id_Rule = r\<rparr> a w = Some q"
    using assms(1) by (auto simp: x keyed_def)
  obtain a' w' q' axes' where 2: "Check a' w' = None" "Period w' = p'" "bk_Key b' = Bucket q' axes'"
    "RatePrefix \<lparr>Namespace = namespace, Domain = domain, id_Block = bl', id_Rule = r'\<rparr> a' w' = Some q'"
    using assms(2) by (auto simp: x keyed_def)
  have "Bucket q axes = Bucket q' axes'" using assms(3) 1(3) 2(3) by simp
  with Bucket_eq_iff [OF 1(1) 2(1) 1(4) 2(4), of axes axes'] 1(2) 2(2) show ?thesis by (auto simp: x)
qed

lemma applied_keyed:
  assumes "c_rule_ok namespace domain (cb_Name block) rule"
  shows "list_all2 (keyed namespace domain) (rule_origins (applied block ctx rule)) (mr_Buckets (applied block ctx rule))"
  using assms
  by (fastforce simp: c_rule_ok_def keyed_def rule_origins_def applied_def rule_bucket_def list_all2_conv_all_nth)

lemma applied_origins_distinct:
  assumes "c_rule_ok namespace domain bname rule"
  shows "distinct (rule_origins (applied block ctx rule))"
  using assms
  by (auto simp: c_rule_ok_def rule_origins_def applied_def rule_bucket_def distinct_map comp_def inj_on_def)

text \<open>The rules one request applies, tagged with the block and context that applied them.\<close>

lemma block_origins_distinct:
  assumes ok: "c_block_ok namespace domain block"
  shows "distinct (concat (map (rule_origins \<circ> applied block ctx) (block_match block ctx)))"
proof (rule distinct_concat_tag [where tag = cu_Name and key = "\<lambda>(b, r, p). r"])
  have "distinct (map cu_Name (cb_Rules block))" using ok by (simp add: c_block_ok_def)
  then show "distinct (map cu_Name (block_match block ctx))"
    using subseq_map [OF block_match_subseq, of cu_Name block ctx] subseq_distinct by blast
  show "distinct ((rule_origins \<circ> applied block ctx) r)" if "r \<in> set (block_match block ctx)" for r
    using ok block_match_set [OF that] applied_origins_distinct by (auto simp: c_block_ok_def)
  show "(\<lambda>(b, r, p). r) y = cu_Name r" if "y \<in> set ((rule_origins \<circ> applied block ctx) r)" for r y
    using that by (auto simp: rule_origins_def applied_def)
qed

definition match_rules :: "candidates \<Rightarrow> string list gomap \<Rightarrow> int \<Rightarrow> hit \<Rightarrow> matched_rule list" where
  "match_rules c keys cost h =
     map (applied (h_block h) (hit_ctx c keys cost h)) (block_match (h_block h) (hit_ctx c keys cost h))"

lemma Evaluate_rules: "Evaluate c keys cost = Some (concat (map (match_rules c keys cost) (cd_hits c)))"
  unfolding match_rules_def by (rule Evaluate_match)

lemma hits_distinct:
  "distinct (map cb_Name (sn_Blocks snap)) \<Longrightarrow>
     distinct (map (\<lambda>h. cb_Name (h_block h)) (cd_hits (Match snap path method)))"
  using arg_cong [OF Match_hits [of snap path "method"], of "map cb_Name"]
    distinct_map_filter [of cb_Name "sn_Blocks snap"] by (simp add: comp_def)

lemma hits_ok:
  assumes "snapshot_ok namespace snap" "h \<in> set (cd_hits (Match snap path method))"
  shows "c_block_ok namespace (sn_Domain snap) (h_block h)"
proof -
  have "h_block h \<in> set (map h_block (cd_hits (Match snap path method)))" using assms(2) by simp
  then have "h_block h \<in> set (sn_Blocks snap)" unfolding Match_hits by simp
  with assms(1) show ?thesis by (simp add: snapshot_ok_def)
qed

lemma match_origins_distinct:
  assumes "snapshot_ok namespace snap" and c: "c = Match snap path method"
  shows "distinct (concat (map (\<lambda>h. concat (map rule_origins (match_rules c keys cost h))) (cd_hits c)))"
proof (rule distinct_concat_tag [where tag = "\<lambda>h. cb_Name (h_block h)" and key = fst])
  show "distinct (map (\<lambda>h. cb_Name (h_block h)) (cd_hits c))"
    using assms hits_distinct by (simp add: snapshot_ok_def)
  show "distinct (concat (map rule_origins (match_rules c keys cost h)))" if "h \<in> set (cd_hits c)" for h
    using block_origins_distinct [OF hits_ok [OF assms(1) that [unfolded c]]] unfolding match_rules_def by simp
  show "fst y = cb_Name (h_block h)" if "y \<in> set (concat (map rule_origins (match_rules c keys cost h)))" for h y
    using that by (auto simp: rule_origins_def applied_def match_rules_def)
qed

lemma match_keyed:
  assumes "snapshot_ok namespace snap" and c: "c = Match snap path method"
  shows "list_all2 (keyed namespace (sn_Domain snap))
    (concat (map (\<lambda>h. concat (map rule_origins (match_rules c keys cost h))) (cd_hits c)))
    (Buckets (concat (map (match_rules c keys cost) (cd_hits c))))"
proof -
  let ?K = "keyed namespace (sn_Domain snap)"
  have rule: "list_all2 ?K (concat (map (rule_origins \<circ> applied b ctx) rs)) (Buckets (map (applied b ctx) rs))"
    if "\<forall>r \<in> set rs. c_rule_ok namespace (sn_Domain snap) (cb_Name b) r" for b ctx rs
    using that by (induction rs) (auto intro!: list_all2_appendI applied_keyed)
  have hit: "list_all2 ?K (concat (map rule_origins (match_rules c keys cost h))) (Buckets (match_rules c keys cost h))"
    if "h \<in> set (cd_hits c)" for h
    using hits_ok [OF assms(1)] that block_match_set unfolding c match_rules_def
    by (auto intro!: rule simp: c_block_ok_def)
  have "list_all2 ?K (concat (map (\<lambda>h. concat (map rule_origins (match_rules c keys cost h))) hs))
      (Buckets (concat (map (match_rules c keys cost) hs)))" if "set hs \<subseteq> set (cd_hits c)" for hs
    using that by (induction hs) (auto intro!: list_all2_appendI hit)
  then show ?thesis by blast
qed

lemma match_keys_distinct:
  assumes "snapshot_ok namespace snap" "Evaluate (Match snap path method) keys cost = Some rules"
  shows "distinct (map bk_Key (Buckets rules))"
proof -
  let ?c = "Match snap path method"
  have rules: "rules = concat (map (match_rules ?c keys cost) (cd_hits ?c))"
    using assms(2) by (simp add: Evaluate_rules)
  show ?thesis
    unfolding rules
    by (rule distinct_via [OF match_keyed [OF assms(1) refl] match_origins_distinct [OF assms(1) refl]])
      (rule keyed_inj)
qed

section \<open>Well-formed buckets\<close>

text \<open>The windows of a snapshot hold 64-bit integers, as their types say.\<close>

definition snapshot_typed :: "snapshot \<Rightarrow> bool" where
  "snapshot_typed snap \<longleftrightarrow>
     (\<forall>cb \<in> set (sn_Blocks snap). \<forall>cu \<in> set (cb_Rules cb). \<forall>ct \<in> set (cu_Rates cu). in64 (Requests (ct_Window ct)))"

lemma matchTarget_route:
  "matchTarget block path method = Some (Some r, axis, caps) \<Longrightarrow> r \<in> set (cb_Routes block)"
proof -
  have "matchTarget_loop path method routes = Some (Some r, axis, caps) \<Longrightarrow> r \<in> set routes" for routes
    by (induction routes) (auto split: if_splits option.splits)
  then show "matchTarget block path method = Some (Some r, axis, caps) \<Longrightarrow> r \<in> set (cb_Routes block)"
    by (auto simp: matchTarget_def split: if_splits)
qed

lemma hit_cost:
  assumes "snapshot_ok namespace snap" "h \<in> set (cd_hits (Match snap path method))" "1 \<le> cost" "in64 cost"
  shows "1 \<le> bc_cost (hit_ctx c keys cost h) \<and> in64 (bc_cost (hit_ctx c keys cost h))"
proof -
  obtain p q f where cut: "Cut path (CHR ''?'') = (p, q, f)" using prod_cases3 by blast
  obtain b where b: "b \<in> set (sn_Blocks snap)" "matchBlock p q method b = Some h"
    using assms(2) by (auto simp: Match_def cut map_filter_mem)
  obtain r axis caps where t: "matchTarget b p method = Some (r, axis, caps)"
    using b(2) by (auto simp: matchBlock_def split: option.splits)
  have "h_cost h = 0 \<or> 1 \<le> h_cost h \<and> h_cost h \<le> MaxCost"
  proof (cases r)
    case None
    then show ?thesis using b(2) t by (auto simp: matchBlock_def)
  next
    case (Some route)
    have route: "route \<in> set (cb_Routes b)" using matchTarget_route t Some by simp
    have ok: "c_block_ok namespace (sn_Domain snap) b" using assms(1) b(1) by (simp add: snapshot_ok_def)
    show ?thesis
    proof (cases "cr_Cost route")
      case None
      then show ?thesis using b(2) t Some by (auto simp: matchBlock_def)
    next
      case (Some cost')
      with ok route have "cc_Parameter cost' \<noteq> []" "1 \<le> cc_Default cost'" "cc_Default cost' \<le> MaxCost"
        by (auto simp: c_block_ok_def)
      from queryCost_range [OF this, of q] show ?thesis
        using b(2) t \<open>r = Some route\<close> Some by (auto simp: matchBlock_def)
    qed
  qed
  then show ?thesis using assms(3,4) by (auto simp: hit_ctx_def MaxCost_def in64_def)
qed

lemma match_buckets_ok:
  assumes "snapshot_ok namespace snap" "snapshot_typed snap" "1 \<le> cost" "in64 cost"
    and "Evaluate (Match snap path method) keys cost = Some rules" "b \<in> set (Buckets rules)"
  shows "bucket_ok b"
proof -
  let ?c = "Match snap path method"
  obtain h rule rate where h: "h \<in> set (cd_hits ?c)"
    and rule: "rule \<in> set (block_match (h_block h) (hit_ctx ?c keys cost h))" "rate \<in> set (cu_Rates rule)"
    and b: "b = rule_bucket (hit_ctx ?c keys cost h) rule rate"
    using assms(5,6) by (auto simp: Evaluate_rules Buckets_def match_rules_def applied_def)
  have mem: "rule \<in> set (cb_Rules (h_block h))" using block_match_set rule(1) by blast
  have "h_block h \<in> set (map h_block (cd_hits ?c))" using h by simp
  then have "in64 (Requests (ct_Window rate))"
    using assms(2) mem rule(2) unfolding Match_hits by (auto simp: snapshot_typed_def)
  moreover have "Check (ct_Algorithm rate) (ct_Window rate) = None"
    using hits_ok [OF assms(1) h] mem rule(2) by (auto simp: c_block_ok_def c_rule_ok_def)
  ultimately show ?thesis
    using hit_cost [OF assms(1) h assms(3,4), of ?c keys]
    by (cases "ct_Algorithm rate") (auto simp: bucket_ok_def b rule_bucket_def)
qed

section \<open>Properties\<close>

text \<open>C29. Which rules a block applies to a request. Under FirstMatch: the matching shadow rules
  above the first other matching rule, and that rule unless it is a bypass. Under All:
  every matching rule that is no bypass, except those a matching enforcing or bypass rule
  replaces; a shadow rule replaces nothing. Every applied rule yields one bucket per rate,
  with the request's cost, under the key of its axes; expanding them never panics.\<close>

theorem evalBlock_applies:
  "evalBlock block ctx = Some (map (applied block ctx) (block_match block ctx))"
  by (rule evalBlock_match)

text \<open>C17. A compiled snapshot keeps its promise to the request path: for every request, identity
  and cost, the rule phase answers without a panic, the request collects at most the
  budgeted number of buckets, and no two of them share a counter key, so neither the
  engine's budget error nor the store's duplicate-key error can arise.\<close>

theorem compiled_buckets_bounded_distinct:
  assumes "Compile namespace domain p = Some (snap, problems)"
  shows "\<exists>rules. Evaluate (Match snap path method) keys cost = Some rules \<and>
    length (Buckets rules) \<le> MaxDomainDecisionBuckets \<and> distinct (map bk_Key (Buckets rules))"
proof -
  have ok: "snapshot_ok namespace snap" using Compile_snapshot_ok [OF assms] .
  obtain rules where r: "Evaluate (Match snap path method) keys cost = Some rules"
    by (simp add: Evaluate_rules)
  have "length (Buckets rules) \<le> MaxDomainDecisionBuckets"
    using Evaluate_budget [OF r] ok by (simp add: snapshot_ok_def)
  with r match_keys_distinct [OF ok r] show ?thesis by blast
qed

theorem compiled_buckets_bounded_distinct_witness:
  "\<exists>rules. Evaluate (Match sample_snapshot ''/orders/42?n=3'' ''GET'')
       [(''sub'', [''alice'']), (''plan'', [''gold''])] 1 = Some rules \<and>
     length (Buckets rules) = 2 \<and> distinct (map bk_Key (Buckets rules))"
proof -
  have "map_option (length \<circ> Buckets) (Evaluate (Match sample_snapshot ''/orders/42?n=3'' ''GET'')
       [(''sub'', [''alice'']), (''plan'', [''gold''])] 1) = Some 2"
    by code_simp
  with compiled_buckets_bounded_distinct [OF sample_compiled, of "''/orders/42?n=3''" "''GET''"
      "[(''sub'', [''alice'']), (''plan'', [''gold''])]" 1]
  show ?thesis by auto
qed

end
