(* ===== verification/Go_Json.thy ===== *)
theory Go_Json
  imports GoPrelude
begin

text \<open>
  The parts of the Go standard library that read a token: \<open>strings.TrimSpace\<close> and
  \<open>strings.EqualFold\<close>, the two URL-safe decoders of \<open>encoding/base64\<close>, \<open>unicode/utf8\<close>, and
  \<open>json.Unmarshal\<close> into a map of claims. Strings are byte lists. The recursive descent of the
  JSON reader takes fuel; one unit per byte of input is enough, which \<open>fuel_enough\<close> shows.
\<close>

section \<open>Trimming and case folding\<close>

definition byte :: "int \<Rightarrow> char" where "byte n = char_of n"

text \<open>The UTF-8 encodings of the white space runes (\<open>unicode.IsSpace\<close>).\<close>

definition space_runes :: "string list" where
  "space_runes = map (map byte)
     ([[9], [10], [11], [12], [13], [32], [194, 133], [194, 160], [225, 154, 128],
       [226, 128, 168], [226, 128, 169], [226, 128, 175], [226, 129, 159], [227, 128, 128]]
      @ map (\<lambda>i. [226, 128, i]) [128..138])"

fun TrimLeft_fuel :: "nat \<Rightarrow> string list \<Rightarrow> string \<Rightarrow> string" where
  "TrimLeft_fuel 0 runes s = s"
| "TrimLeft_fuel (Suc n) runes s =
     (case find (\<lambda>r. HasPrefix s r) runes of
        None \<Rightarrow> s
      | Some r \<Rightarrow> TrimLeft_fuel n runes (drop (length r) s))"

definition TrimLeft :: "string list \<Rightarrow> string \<Rightarrow> string" where
  "TrimLeft runes s = TrimLeft_fuel (length s) runes s"

definition TrimSpace :: "string \<Rightarrow> string" where
  "TrimSpace s = rev (TrimLeft (map rev space_runes) (rev (TrimLeft space_runes s)))"

text \<open>
  Case folding against a text whose letters have no case variant outside ASCII, which holds of
  the authorization scheme the source compares with.
\<close>

definition EqualFold :: "string \<Rightarrow> string \<Rightarrow> bool" where
  "EqualFold s t \<longleftrightarrow> map lowerASCII s = map lowerASCII t"

section \<open>Base64\<close>

definition in_range :: "char \<Rightarrow> int \<Rightarrow> int \<Rightarrow> bool" where
  "in_range c lo hi \<longleftrightarrow> lo \<le> of_char c \<and> of_char c \<le> hi"

definition b64 :: "char \<Rightarrow> int option" where
  "b64 c =
     (if in_range c 65 90 then Some (of_char c - 65)
      else if in_range c 97 122 then Some (of_char c - 71)
      else if in_range c 48 57 then Some (of_char c + 4)
      else if c = CHR ''-'' then Some 62
      else if c = CHR ''_'' then Some 63
      else None)"

definition b64_bytes :: "int list \<Rightarrow> string" where
  "b64_bytes sextets =
     (case sextets of
        [a, b] \<Rightarrow> [byte (a * 4 + b div 16)]
      | [a, b, c] \<Rightarrow> [byte (a * 4 + b div 16), byte (b mod 16 * 16 + c div 4)]
      | [a, b, c, d] \<Rightarrow> [byte (a * 4 + b div 16), byte (b mod 16 * 16 + c div 4), byte (c mod 4 * 64 + d)]
      | _ \<Rightarrow> [])"

definition b64_group :: "string \<Rightarrow> string option" where
  "b64_group cs = (if list_all (\<lambda>c. b64 c \<noteq> None) cs then Some (b64_bytes (map (the \<circ> b64) cs)) else None)"

text \<open>The last quantum: unpadded, or padded with \<open>=\<close> to four characters.\<close>

definition b64_last :: "bool \<Rightarrow> string \<Rightarrow> string option" where
  "b64_last padded cs =
     (if padded then
        if length cs \<noteq> 4 then None
        else if drop 2 cs = ''=='' then b64_group (take 2 cs)
        else if drop 3 cs = ''='' then b64_group (take 3 cs)
        else b64_group cs
      else if length cs = 1 then None else b64_group cs)"

fun b64_quanta :: "bool \<Rightarrow> string \<Rightarrow> string option" where
  "b64_quanta padded [] = Some []"
| "b64_quanta padded (a # b # c # d # e # rest) =
     (case b64_group [a, b, c, d] of
        None \<Rightarrow> None
      | Some bytes \<Rightarrow> map_option ((@) bytes) (b64_quanta padded (e # rest)))"
| "b64_quanta padded cs = b64_last padded cs"

text \<open>The decoder skips carriage returns and line feeds anywhere.\<close>

definition b64_DecodeString :: "bool \<Rightarrow> string \<Rightarrow> string option" where
  "b64_DecodeString padded s = b64_quanta padded (filter (\<lambda>c. c \<noteq> byte 10 \<and> c \<noteq> byte 13) s)"

section \<open>UTF-8\<close>

definition RuneError :: int where "RuneError = 65533"

definition cont :: "char \<Rightarrow> bool" where "cont c \<longleftrightarrow> in_range c 128 191"

definition low6 :: "char \<Rightarrow> int" where "low6 c = of_char c mod 64"

definition DecodeRune :: "string \<Rightarrow> int \<times> nat" where
  "DecodeRune s =
     (case s of
        [] \<Rightarrow> (RuneError, 0)
      | c0 # r \<Rightarrow>
          let b0 = of_char c0 in
          if b0 < 128 then (b0, 1)
          else (case r of
             [] \<Rightarrow> (RuneError, 1)
           | c1 # r1 \<Rightarrow>
               if in_range c0 194 223 \<and> cont c1 then ((b0 mod 32) * 64 + low6 c1, 2)
               else (case r1 of
                  [] \<Rightarrow> (RuneError, 1)
                | c2 # r2 \<Rightarrow>
                    if in_range c0 224 239 \<and> cont c1 \<and> cont c2
                       \<and> (b0 = 224 \<longrightarrow> 160 \<le> (of_char c1 :: int)) \<and> (b0 = 237 \<longrightarrow> (of_char c1 :: int) \<le> 159)
                    then ((b0 mod 16) * 4096 + low6 c1 * 64 + low6 c2, 3)
                    else (case r2 of
                       [] \<Rightarrow> (RuneError, 1)
                     | c3 # _ \<Rightarrow>
                         if in_range c0 240 244 \<and> cont c1 \<and> cont c2 \<and> cont c3
                            \<and> (b0 = 240 \<longrightarrow> 144 \<le> (of_char c1 :: int)) \<and> (b0 = 244 \<longrightarrow> (of_char c1 :: int) \<le> 143)
                         then ((b0 mod 8) * 262144 + low6 c1 * 4096 + low6 c2 * 64 + low6 c3, 4)
                         else (RuneError, 1)))))"

definition EncodeRune :: "int \<Rightarrow> string" where
  "EncodeRune r =
     (if r < 128 then [byte r]
      else if r < 2048 then [byte (192 + r div 64), byte (128 + r mod 64)]
      else if 55296 \<le> r \<and> r \<le> 57343 \<or> 1114111 < r then map byte [239, 191, 189]
      else if r < 65536 then [byte (224 + r div 4096), byte (128 + r div 64 mod 64), byte (128 + r mod 64)]
      else [byte (240 + r div 262144), byte (128 + r div 4096 mod 64), byte (128 + r div 64 mod 64), byte (128 + r mod 64)])"

section \<open>JSON\<close>

datatype json =
    JNull
  | JBool bool
  | JNumber string
  | JString string
  | JArray "json list"
  | JObject "json gomap"

definition json_space :: "char \<Rightarrow> bool" where
  "json_space c \<longleftrightarrow> c = CHR '' '' \<or> c = byte 9 \<or> c = byte 10 \<or> c = byte 13"

definition skip_space :: "string \<Rightarrow> string" where "skip_space s = dropWhile json_space s"

definition hexval :: "char \<Rightarrow> int option" where
  "hexval c =
     (if in_range c 48 57 then Some (of_char c - 48)
      else if in_range c 65 70 then Some (of_char c - 55)
      else if in_range c 97 102 then Some (of_char c - 87)
      else None)"

definition escape_of :: "char \<Rightarrow> int option" where
  "escape_of c = map_of [(CHR 0x22, 34), (CHR 0x5C, 92), (CHR ''/'', 47), (CHR ''b'', 8), (CHR ''f'', 12),
      (CHR ''n'', 10), (CHR ''r'', 13), (CHR ''t'', 9)] c"

text \<open>
  The text of a string up to its closing quote, as the scanner accepts it: no control character,
  and every escape well formed.
\<close>

fun scan_string :: "string \<Rightarrow> (string \<times> string) option" where
  "scan_string [] = None"
| "scan_string (c # cs) =
     (if c = CHR 0x22 then Some ([], cs)
      else if of_char c < (32 :: int) then None
      else if c \<noteq> CHR 0x5C then map_option (apfst ((#) c)) (scan_string cs)
      else (case cs of
          [] \<Rightarrow> None
        | e # cs' \<Rightarrow>
            if e = CHR ''u'' then
              if length cs' < 4 \<or> \<not> list_all (\<lambda>h. hexval h \<noteq> None) (take 4 cs') then None
              else map_option (apfst ((@) (c # e # take 4 cs'))) (scan_string (drop 4 cs'))
            else if escape_of e = None then None
            else map_option (apfst ((@) [c, e])) (scan_string cs')))"

text \<open>The value of \<open>\uXXXX\<close> at the front of the text, if that is what is there.\<close>

definition getu4 :: "string \<Rightarrow> int option" where
  "getu4 s =
     (if 6 \<le> length s \<and> take 2 s = [CHR 0x5C, CHR ''u''] \<and> list_all (\<lambda>h. hexval h \<noteq> None) (take 4 (drop 2 s))
      then Some (fold (\<lambda>h n. n * 16 + the (hexval h)) (take 4 (drop 2 s)) 0)
      else None)"

definition surrogate_pair :: "int \<Rightarrow> int \<Rightarrow> int option" where
  "surrogate_pair r1 r2 =
     (if 55296 \<le> r1 \<and> r1 < 56320 \<and> 56320 \<le> r2 \<and> r2 < 57344
      then Some ((r1 - 55296) * 1024 + (r2 - 56320) + 65536) else None)"

fun unquote :: "string \<Rightarrow> string" where
  "unquote [] = []"
| "unquote (c # cs) =
     (if c = CHR 0x5C then
        (case cs of
           [] \<Rightarrow> []
         | e # cs' \<Rightarrow>
             if e \<noteq> CHR ''u'' then (case escape_of e of None \<Rightarrow> [] | Some n \<Rightarrow> byte n # unquote cs')
             else (case getu4 (c # cs) of
                 None \<Rightarrow> []
               | Some r \<Rightarrow>
                   if r < 55296 \<or> 57343 < r then EncodeRune r @ unquote (drop 4 cs')
                   else (case Option.bind (getu4 (drop 4 cs')) (surrogate_pair r) of
                       Some d \<Rightarrow> EncodeRune d @ unquote (drop 10 cs')
                     | None \<Rightarrow> EncodeRune RuneError @ unquote (drop 4 cs'))))
      else if of_char c < (128 :: int) then c # unquote cs
      else (case DecodeRune (c # cs) of (r, width) \<Rightarrow> EncodeRune r @ unquote (drop (width - 1) cs)))"

text \<open>
  A number: the text of the literal, and whether \<open>strconv.ParseFloat\<close> takes it, that is whether it
  rounds to a finite double. The exponent stops growing past four digits, as in the library.
\<close>

definition digits :: "string \<Rightarrow> string \<times> string" where
  "digits s = (takeWhile isDigit s, dropWhile isDigit s)"

definition digits_value :: "string \<Rightarrow> int" where
  "digits_value ds = fold (\<lambda>d n. n * 10 + (of_char d - 48)) ds 0"

definition exponent_value :: "string \<Rightarrow> int" where
  "exponent_value ds = fold (\<lambda>d n. if n < 10000 then n * 10 + (of_char d - 48) else n) ds 0"

definition finite_double :: "string \<Rightarrow> string \<Rightarrow> int \<Rightarrow> bool" where
  "finite_double whole frac e =
     (let ds = whole @ frac; m = digits_value ds; x = e - int (length frac); bound = 2 ^ 1024 - 2 ^ 970 in
      if m = 0 then True
      else if 400 < x then False
      else if 0 \<le> x then m * 10 ^ nat x < bound
      else if int (length ds) \<le> - x then True
      else m < bound * 10 ^ nat (- x))"

definition scan_exponent :: "string \<Rightarrow> (int \<times> string) option" where
  "scan_exponent s =
     (if s \<noteq> [] \<and> hd s \<in> set ''eE'' then
        let (neg, s1) = (case tl s of
                [] \<Rightarrow> (False, [])
              | c # cs \<Rightarrow> if c = CHR ''-'' then (True, cs) else if c = CHR ''+'' then (False, cs) else (False, c # cs));
            (ds, rest) = digits s1
        in if ds = [] then None
           else Some (if neg then - exponent_value ds else exponent_value ds, rest)
      else Some (0, s))"

definition scan_number :: "string \<Rightarrow> ((string \<times> bool) \<times> string) option" where
  "scan_number s =
     (let s0 = TrimPrefix s ''-''; (whole, s1) = digits s0 in
      if whole = [] \<or> (hd whole = CHR ''0'' \<and> tl whole \<noteq> []) then None
      else
        let (frac, s2) = (if HasPrefix s1 ''.'' then digits (tl s1) else ([], s1)) in
        if HasPrefix s1 ''.'' \<and> frac = [] then None
        else (case scan_exponent s2 of
            None \<Rightarrow> None
          | Some (e, rest) \<Rightarrow>
              Some ((take (length s - length rest) s, finite_double whole frac e), rest)))"

text \<open>
  One value off the front of the text. An object keeps the last of two equal members, an array
  its items in order, and white space may stand before every token.
\<close>

definition scan_literal :: "string \<Rightarrow> (json \<times> string) option" where
  "scan_literal s =
     (if HasPrefix s ''true'' then Some (JBool True, drop 4 s)
      else if HasPrefix s ''false'' then Some (JBool False, drop 5 s)
      else if HasPrefix s ''null'' then Some (JNull, drop 4 s)
      else (case scan_number s of
          Some ((n, True), rest) \<Rightarrow> Some (JNumber n, rest)
        | _ \<Rightarrow> None))"

type_synonym reader = "string \<Rightarrow> (json \<times> string) option"

primrec json_members :: "nat \<Rightarrow> reader \<Rightarrow> json gomap \<Rightarrow> reader" where
  "json_members 0 val acc s = None"
| "json_members (Suc n) val acc s =
     (if \<not> HasPrefix (skip_space s) [CHR 0x22] then None
      else (case scan_string (tl (skip_space s)) of
          None \<Rightarrow> None
        | Some (raw, s1) \<Rightarrow>
            if \<not> HasPrefix (skip_space s1) '':'' then None
            else (case val (tl (skip_space s1)) of
                None \<Rightarrow> None
              | Some (v, s2) \<Rightarrow>
                  (case skip_space s2 of
                     [] \<Rightarrow> None
                   | c # cs \<Rightarrow>
                       if c = CHR '','' then json_members n val (AList.update (unquote raw) v acc) cs
                       else if c = CHR ''}'' then Some (JObject (AList.update (unquote raw) v acc), cs)
                       else None))))"

primrec json_items :: "nat \<Rightarrow> reader \<Rightarrow> json list \<Rightarrow> reader" where
  "json_items 0 val acc s = None"
| "json_items (Suc n) val acc s =
     (case val s of
        None \<Rightarrow> None
      | Some (v, s1) \<Rightarrow>
          (case skip_space s1 of
             [] \<Rightarrow> None
           | c # cs \<Rightarrow>
               if c = CHR '','' then json_items n val (acc @ [v]) cs
               else if c = CHR '']'' then Some (JArray (acc @ [v]), cs)
               else None))"

primrec json_value :: "nat \<Rightarrow> reader" where
  "json_value 0 s = None"
| "json_value (Suc n) s =
     (case skip_space s of
        [] \<Rightarrow> None
      | c # cs \<Rightarrow>
          if c = CHR 0x22 then map_option (apfst (JString \<circ> unquote)) (scan_string cs)
          else if c = CHR ''{'' then
            if HasPrefix (skip_space cs) ''}'' then Some (JObject [], tl (skip_space cs))
            else json_members n (json_value n) [] cs
          else if c = CHR ''['' then
            if HasPrefix (skip_space cs) '']'' then Some (JArray [], tl (skip_space cs))
            else json_items n (json_value n) [] cs
          else scan_literal (c # cs))"

text \<open>
  \<open>json.Unmarshal\<close> into a \<open>map[string]any\<close>: the text is one value and nothing after it, and the
  value is an object, or \<open>null\<close>, which leaves the map nil.
\<close>

definition Unmarshal :: "string \<Rightarrow> json gomap option" where
  "Unmarshal s =
     (case json_value (Suc (length s)) s of
        Some (JObject members, rest) \<Rightarrow> if skip_space rest = [] then Some members else None
      | Some (JNull, rest) \<Rightarrow> if skip_space rest = [] then Some [] else None
      | _ \<Rightarrow> None)"

section \<open>The reader consuming its input\<close>

lemma skip_space_length: "length (skip_space s) \<le> length s"
  by (simp add: skip_space_def length_dropWhile_le)

lemma skip_space_Cons: "skip_space s = c # cs \<Longrightarrow> length cs < length s"
  using skip_space_length [of s] by simp

lemma skip_prefix: "HasPrefix (skip_space s) [c] \<Longrightarrow> skip_space s = c # tl (skip_space s)"
  by (cases "skip_space s") (auto simp: HasPrefix_def)

lemma scan_string_consumes: "scan_string s = Some (raw, rest) \<Longrightarrow> length rest < length s"
proof (induction s arbitrary: raw rest rule: scan_string.induct)
  case (2 c cs)
  then show ?case
    by (fastforce split: if_splits list.splits simp: less_Suc_eq_le dest: le_trans less_imp_le)
qed simp

text \<open>The characters of numbers and of the literal names.\<close>

definition plain :: "char \<Rightarrow> bool" where
  "plain c \<longleftrightarrow> isDigit c \<or> c \<in> set ''+-.Eaeflnrstu''"

lemma plain_names:
  "list_all plain ''true''" "list_all plain ''false''" "list_all plain ''null''"
  "plain (CHR ''.'')" "plain (CHR ''-'')" "plain (CHR ''+'')" "plain (CHR ''e'')" "plain (CHR ''E'')"
  by (simp_all add: plain_def)

lemma digits_split: "digits s = (ds, rest) \<Longrightarrow> s = ds @ rest \<and> list_all plain ds"
  by (auto simp: digits_def list_all_iff plain_def dest: set_takeWhileD)

lemma scan_exponent_split:
  assumes "scan_exponent s = Some (e, rest)"
  shows "\<exists>pre. s = pre @ rest \<and> list_all plain pre"
proof (cases "s \<noteq> [] \<and> hd s \<in> set ''eE''")
  case False
  then show ?thesis using assms by (auto simp: scan_exponent_def)
next
  case True
  then obtain c cs where s: "s = c # cs" "c \<in> set ''eE''" by (cases s) auto
  then have c: "plain c" using plain_names by auto
  obtain neg s1 where s1: "(case cs of [] \<Rightarrow> (False, [])
      | c # cs \<Rightarrow> if c = CHR ''-'' then (True, cs) else if c = CHR ''+'' then (False, cs) else (False, c # cs)) = (neg, s1)"
    by fastforce
  obtain ds r where ds: "digits s1 = (ds, r)" by fastforce
  have r: "r = rest" using assms s s1 ds by (auto simp: scan_exponent_def split: if_splits)
  have "\<exists>sign. cs = sign @ s1 \<and> list_all plain sign"
    using s1 by (cases cs) (auto simp: plain_names split: if_splits intro: exI [of _ "[]"] exI [of _ "[c]" for c])
  then obtain sign where sign: "cs = sign @ s1" "list_all plain sign" by blast
  show ?thesis
    using s(1) c sign digits_split [OF ds] r by (intro exI [of _ "c # sign @ ds"]) simp
qed

lemma scan_number_split:
  assumes "scan_number s = Some (nf, rest)"
  shows "\<exists>pre. s = pre @ rest \<and> pre \<noteq> [] \<and> list_all plain pre"
proof -
  define s0 where "s0 = TrimPrefix s ''-''"
  obtain whole s1 where whole: "digits s0 = (whole, s1)" by fastforce
  obtain frac s2 where frac: "(if HasPrefix s1 ''.'' then digits (tl s1) else ([], s1)) = (frac, s2)" by fastforce
  have w: "whole \<noteq> []" and "\<exists>e. scan_exponent s2 = Some (e, rest)"
    using assms whole frac by (auto simp: scan_number_def s0_def [symmetric] split: if_splits option.splits)
  then obtain pre2 where pre2: "s2 = pre2 @ rest" "list_all plain pre2"
    using scan_exponent_split by blast
  have "\<exists>pre1. s1 = pre1 @ s2 \<and> list_all plain pre1"
  proof (cases "HasPrefix s1 ''.''")
    case True
    then obtain t where t: "s1 = CHR ''.'' # t" by (cases s1) (auto simp: HasPrefix_def)
    then show ?thesis using frac True digits_split [of t frac s2]
      by (intro exI [of _ "CHR ''.'' # frac"]) (auto simp: plain_names)
  next
    case False
    then show ?thesis using frac by (intro exI [of _ "[]"]) auto
  qed
  then obtain pre1 where pre1: "s1 = pre1 @ s2" "list_all plain pre1" by blast
  have "\<exists>pre0. s = pre0 @ s0 \<and> list_all plain pre0"
    by (cases s) (auto simp: s0_def TrimPrefix_def HasPrefix_def plain_names intro: exI [of _ "[]"] exI [of _ "''-''"])
  then obtain pre0 where pre0: "s = pre0 @ s0" "list_all plain pre0" by blast
  show ?thesis
    using pre0 pre1 pre2 digits_split [OF whole] w
    by (intro exI [of _ "pre0 @ whole @ pre1 @ pre2"]) simp
qed

lemma scan_literal_cases:
  assumes "scan_literal s = Some (v, rest)"
  shows "HasPrefix s ''true'' \<and> rest = drop 4 s \<or> HasPrefix s ''false'' \<and> rest = drop 5 s \<or>
    HasPrefix s ''null'' \<and> rest = drop 4 s \<or> (\<exists>n f. scan_number s = Some ((n, f), rest))"
proof -
  define t f n where "t = HasPrefix s ''true''" and "f = HasPrefix s ''false''" and "n = HasPrefix s ''null''"
  note fold = t_def [symmetric] f_def [symmetric] n_def [symmetric]
  show ?thesis using assms unfolding scan_literal_def fold
    by (cases t; cases f; cases n) (auto split: option.split_asm bool.split_asm)
qed

lemma scan_literal_split:
  assumes "scan_literal s = Some (v, rest)"
  shows "\<exists>pre. s = pre @ rest \<and> pre \<noteq> [] \<and> list_all plain pre"
proof -
  have lit: ?thesis if "list_all plain p" "p \<noteq> []" "length p = k" "HasPrefix s p" "rest = drop k s" for p k
    using that append_take_drop_id [of k s]
    by (intro exI [of _ p]) (simp add: HasPrefix_def)
  have num: ?thesis if "scan_number s = Some (nf, rest)" for nf
    by (rule scan_number_split [OF that])
  from scan_literal_cases [OF assms] show ?thesis
    using lit [OF plain_names(1), of 4] lit [OF plain_names(2), of 5] lit [OF plain_names(3), of 4] num
    by (elim disjE conjE exE) simp_all
qed

lemma scan_literal_consumes: "scan_literal s = Some (v, rest) \<Longrightarrow> length rest < length s"
  using scan_literal_split by fastforce

definition consuming :: "reader \<Rightarrow> bool" where
  "consuming val \<longleftrightarrow> (\<forall>s v rest. val s = Some (v, rest) \<longrightarrow> length rest < length s)"

lemma consumingD: "consuming val \<Longrightarrow> val s = Some (v, rest) \<Longrightarrow> length rest < length s"
  by (simp add: consuming_def)

lemma json_members_SucE:
  assumes "json_members (Suc n) val acc s = Some (v, rest)"
  obtains raw s0 s1 u s2 c cs where
    "skip_space s = CHR 0x22 # s0" "scan_string s0 = Some (raw, s1)"
    "skip_space s1 = CHR '':'' # tl (skip_space s1)" "val (tl (skip_space s1)) = Some (u, s2)"
    "skip_space s2 = c # cs"
    "c = CHR '','' \<and> json_members n val (AList.update (unquote raw) u acc) cs = Some (v, rest) \<or>
     c = CHR ''}'' \<and> v = JObject (AList.update (unquote raw) u acc) \<and> rest = cs"
  using assms that [OF skip_prefix _ skip_prefix] by (auto split: if_splits option.splits list.splits)

lemma json_items_SucE:
  assumes "json_items (Suc n) val acc s = Some (v, rest)"
  obtains u s1 c cs where "val s = Some (u, s1)" "skip_space s1 = c # cs"
    "c = CHR '','' \<and> json_items n val (acc @ [u]) cs = Some (v, rest) \<or>
     c = CHR '']'' \<and> v = JArray (acc @ [u]) \<and> rest = cs"
  using assms that by (auto split: if_splits option.splits list.splits)

lemma json_members_consumes:
  assumes "consuming val"
  shows "json_members n val acc s = Some (v, rest) \<Longrightarrow> length rest < length s"
proof (induction n arbitrary: acc s)
  case (Suc n)
  from Suc.prems show ?case
  proof (rule json_members_SucE)
    fix raw s0 s1 u s2 c cs
    assume p: "skip_space s = CHR 0x22 # s0" "scan_string s0 = Some (raw, s1)"
      "skip_space s1 = CHR '':'' # tl (skip_space s1)" "val (tl (skip_space s1)) = Some (u, s2)"
      "skip_space s2 = c # cs"
      "c = CHR '','' \<and> json_members n val (AList.update (unquote raw) u acc) cs = Some (v, rest) \<or>
       c = CHR ''}'' \<and> v = JObject (AList.update (unquote raw) u acc) \<and> rest = cs"
    have "length s2 < length (tl (skip_space s1))" using assms p(4) by (rule consumingD)
    moreover have "length rest \<le> length cs" using p(6) Suc.IH by (auto simp: less_imp_le)
    ultimately show "length rest < length s"
      using skip_space_Cons [OF p(1)] skip_space_Cons [OF p(3)] skip_space_Cons [OF p(5)]
        scan_string_consumes [OF p(2)] by linarith
  qed
qed simp

lemma json_items_consumes:
  assumes "consuming val"
  shows "json_items n val acc s = Some (v, rest) \<Longrightarrow> length rest < length s"
proof (induction n arbitrary: acc s)
  case (Suc n)
  from Suc.prems show ?case
  proof (rule json_items_SucE)
    fix u s1 c cs
    assume p: "val s = Some (u, s1)" "skip_space s1 = c # cs"
      "c = CHR '','' \<and> json_items n val (acc @ [u]) cs = Some (v, rest) \<or>
       c = CHR '']'' \<and> v = JArray (acc @ [u]) \<and> rest = cs"
    have "length s1 < length s" using assms p(1) by (rule consumingD)
    moreover have "length rest \<le> length cs" using p(3) Suc.IH by (auto simp: less_imp_le)
    ultimately show "length rest < length s" using skip_space_Cons [OF p(2)] by linarith
  qed
qed simp

lemma json_value_consumes: "consuming (json_value n)"
proof (induction n)
  case (Suc n)
  have "length rest < length s" if v: "json_value (Suc n) s = Some (v, rest)" for s v rest
  proof -
    obtain c cs where s: "skip_space s = c # cs" using v by (cases "skip_space s") auto
    have "length rest < length (c # cs)"
      using v s skip_space_length [of cs] scan_string_consumes [of cs] scan_literal_consumes [of "c # cs"]
        json_members_consumes [OF Suc, of n "[]" cs] json_items_consumes [OF Suc, of n "[]" cs]
      by (force split: if_splits)
    then show ?thesis using skip_space_length [of s] s by simp
  qed
  then show ?case by (simp add: consuming_def)
qed (simp add: consuming_def)

section \<open>The fuel is enough\<close>

definition agree_below :: "nat \<Rightarrow> reader \<Rightarrow> reader \<Rightarrow> bool" where
  "agree_below k val val' \<longleftrightarrow> (\<forall>s. length s < k \<longrightarrow> val s = val' s)"

lemma json_members_fuel:
  assumes "agree_below k val val'" "consuming val"
  shows "length s \<le> k \<Longrightarrow> length s \<le> n \<Longrightarrow> length s \<le> m \<Longrightarrow>
    json_members n val acc s = json_members m val' acc s"
proof (induction n arbitrary: m acc s)
  case 0
  then have "s = []" by simp
  then show ?case by (cases m) (simp_all add: skip_space_def HasPrefix_def)
next
  case (Suc n)
  show ?case
  proof (cases m)
    case 0
    then show ?thesis using Suc.prems by (simp add: skip_space_def HasPrefix_def)
  next
    case (Suc m')
    note m = Suc
    have key: "val (tl (skip_space s1)) = val' (tl (skip_space s1)) \<and>
        (\<forall>u s2 c cs. val (tl (skip_space s1)) = Some (u, s2) \<longrightarrow> skip_space s2 = c # cs \<longrightarrow> length cs < length s)"
      if "HasPrefix (skip_space s) [CHR 0x22]" "scan_string (tl (skip_space s)) = Some (raw, s1)" for raw s1
    proof -
      have less: "length (tl (skip_space s1)) < length s"
        using skip_space_Cons [OF skip_prefix [OF that(1)]] scan_string_consumes [OF that(2)] skip_space_length [of s1]
        by simp
      moreover have "length cs < length s" if "val (tl (skip_space s1)) = Some (u, s2)" "skip_space s2 = c # cs" for u s2 c cs
        using less consumingD [OF assms(2) that(1)] skip_space_Cons [OF that(2)] by linarith
      ultimately show ?thesis using assms(1) Suc.prems(1) by (auto simp: agree_below_def)
    qed
    show ?thesis unfolding m json_members.simps
      using key Suc.IH [of _ m'] Suc.prems unfolding m
      by (auto split: option.splits list.splits)
  qed
qed

lemma json_items_fuel:
  assumes "agree_below k val val'" "consuming val"
  shows "length s < k \<Longrightarrow> length s < n \<Longrightarrow> length s < m \<Longrightarrow>
    json_items n val acc s = json_items m val' acc s"
proof (induction n arbitrary: m acc s)
  case (Suc n)
  then obtain m' where m: "m = Suc m'" by (cases m) simp_all
  have same: "val s = val' s" using assms(1) Suc.prems(1) by (simp add: agree_below_def)
  have "json_items n val a cs = json_items m' val' a cs"
    if "val s = Some (u, s1)" "skip_space s1 = c # cs" for u s1 c cs a
    using consumingD [OF assms(2) that(1)] skip_space_Cons [OF that(2)] Suc.prems unfolding m
    by (intro Suc.IH) simp_all
  then show ?case unfolding m json_items.simps same [symmetric]
    by (simp split: option.split prod.split list.split)
qed simp

lemma fuel_enough:
  "length s < n \<Longrightarrow> length s < m \<Longrightarrow> json_value n s = json_value m s"
proof (induction n arbitrary: m s)
  case (Suc n)
  then obtain m' where m: "m = Suc m'" by (cases m) simp_all
  have below: "agree_below (length s) (json_value n) (json_value m')"
    using Suc.IH [of _ m'] Suc.prems unfolding agree_below_def m by simp
  have "json_members n (json_value n) [] cs = json_members m' (json_value m') [] cs"
    "json_items n (json_value n) [] cs = json_items m' (json_value m') [] cs" if "skip_space s = c # cs" for c cs
    using skip_space_Cons [OF that] Suc.prems unfolding m
    by (intro json_members_fuel [OF below json_value_consumes] json_items_fuel [OF below json_value_consumes]; simp)+
  then show ?case unfolding m json_value.simps by (simp split: list.split)
qed simp

end
