(* ===== verification/Identity.thy ===== *)
theory Identity
  imports Go_Json Compile_Env
begin

text \<open>
  Identity extraction (\<open>engine/identity/identity.go\<close>): the claims of an unverified token become
  descriptor key values under the sanitary limits, and the explicit keys of a direct caller pass
  the same limits. A nil map and an empty one read the same, so both are the empty list. The
  tables behind \<open>strings.ToLower\<close> beyond ASCII are the parameter \<open>ul\<close>.
\<close>

section \<open>Limits and skips\<close>

definition MaxTokenBytes :: nat where "MaxTokenBytes = 16384"
definition MaxValueBytes :: nat where "MaxValueBytes = 256"
definition MaxArrayItems :: nat where "MaxArrayItems = 64"
definition MaxPayloadDepth :: int where "MaxPayloadDepth = 8"
definition MaxPayloadSeparators :: int where "MaxPayloadSeparators = 512"

definition SkipDecodeFailed :: string where [model_consts]: "SkipDecodeFailed = ''decode_failed''"
definition SkipBadType :: string where [model_consts]: "SkipBadType = ''bad_type''"
definition SkipTooLong :: string where [model_consts]: "SkipTooLong = ''too_long''"
definition SkipTooManyItems :: string where [model_consts]: "SkipTooManyItems = ''too_many_items''"

record skip =
  sk_Key :: string
  sk_Reason :: string

section \<open>Explicit keys\<close>

fun distinct_loop :: "string list \<Rightarrow> string list \<Rightarrow> string list" where
  "distinct_loop out [] = out"
| "distinct_loop out (v # vs) = distinct_loop (if v \<in> set out then out else out @ [v]) vs"

definition distinct_values :: "string list \<Rightarrow> string list" where
  "distinct_values values = (if length values < 2 then values else distinct_loop [] values)"

definition planned :: "key_extraction list \<Rightarrow> string \<Rightarrow> key_extraction option" where
  "planned plan k = find (\<lambda>e. ke_Key e = k) plan"

fun explicit_loop :: "string list \<Rightarrow> string list \<Rightarrow> string list \<times> string" where
  "explicit_loop kept [] = (kept, [])"
| "explicit_loop kept (v # vs) =
     (if length v > MaxValueBytes then ([], SkipTooLong)
      else explicit_loop (if v \<noteq> [] then kept @ [v] else kept) vs)"

definition explicitValues :: "string list \<Rightarrow> string list \<times> string" where
  "explicitValues values =
     (if length values > MaxArrayItems then ([], SkipTooManyItems) else explicit_loop [] values)"

definition normalized :: "(string \<Rightarrow> string) \<Rightarrow> key_extraction \<Rightarrow> string list \<Rightarrow> string list" where
  "normalized ul e values = (if ke_Normalization e = NormalizeLowercase then map (ToLower ul) values else values)"

text \<open>One round of the loop over the caller's keys.\<close>

definition explicit_key ::
  "(string \<Rightarrow> string) \<Rightarrow> key_extraction list \<Rightarrow> string \<times> string list \<Rightarrow>
     string list gomap \<times> skip list \<Rightarrow> string list gomap \<times> skip list" where
  "explicit_key ul plan kv st =
     (case (kv, st) of ((k, values), (out, skips)) \<Rightarrow>
        let extraction = planned plan k; (kept, reason) = explicitValues values in
        if reason \<noteq> [] then
          (out, if extraction \<noteq> None then skips @ [\<lparr>sk_Key = k, sk_Reason = reason\<rparr>] else skips)
        else if kept = [] then (out, skips)
        else
          (AList.update k
             (distinct_values (case extraction of None \<Rightarrow> kept | Some e \<Rightarrow> normalized ul e kept)) out, skips))"

definition Explicit ::
  "(string \<Rightarrow> string) \<Rightarrow> key_extraction list \<Rightarrow> string list gomap \<Rightarrow> string list gomap \<times> skip list" where
  "Explicit ul plan keys = fold (explicit_key ul plan) keys ([], [])"

section \<open>The payload\<close>

fun withinShape_loop :: "int \<Rightarrow> int \<Rightarrow> bool \<Rightarrow> bool \<Rightarrow> string \<Rightarrow> bool" where
  "withinShape_loop depth separators inString escaped [] = True"
| "withinShape_loop depth separators inString escaped (b # raw) =
     (if inString then
        if escaped then withinShape_loop depth separators True False raw
        else if b = CHR 0x5C then withinShape_loop depth separators True True raw
        else if b = CHR 0x22 then withinShape_loop depth separators False escaped raw
        else withinShape_loop depth separators True escaped raw
      else if b = CHR 0x22 then withinShape_loop depth separators True escaped raw
      else if b = CHR ''{'' \<or> b = CHR ''['' then
        if depth + 1 > MaxPayloadDepth then False
        else withinShape_loop (depth + 1) separators False escaped raw
      else if b = CHR ''}'' \<or> b = CHR '']'' then withinShape_loop (depth - 1) separators False escaped raw
      else if b = CHR '','' \<or> b = CHR '':'' then
        if separators + 1 > MaxPayloadSeparators then False
        else withinShape_loop depth (separators + 1) False escaped raw
      else withinShape_loop depth separators False escaped raw)"

definition withinShape :: "string \<Rightarrow> bool" where
  "withinShape raw = withinShape_loop 0 0 False False raw"

definition payload :: "string \<Rightarrow> json gomap option" where
  "payload token =
     (if length token > MaxTokenBytes then None
      else
        let parts = Split token (CHR ''.'') in
        if length parts < 2 then None
        else
          case (case b64_DecodeString False (parts ! 1) of
                  Some raw \<Rightarrow> Some raw
                | None \<Rightarrow> b64_DecodeString True (parts ! 1)) of
            None \<Rightarrow> None
          | Some raw \<Rightarrow> if \<not> withinShape raw then None else Unmarshal raw)"

section \<open>Extraction\<close>

fun walk :: "json \<Rightarrow> string list \<Rightarrow> json option" where
  "walk current [] = Some current"
| "walk (JObject obj) (segment # path) =
     (case map_of obj segment of None \<Rightarrow> None | Some v \<Rightarrow> walk v path)"
| "walk _ (segment # path) = None"

fun coerceArray_loop :: "string list \<Rightarrow> json list \<Rightarrow> string list \<times> string" where
  "coerceArray_loop values [] = (values, [])"
| "coerceArray_loop values (item # items) =
     (case item of
        JString s \<Rightarrow>
          if length s > MaxValueBytes then ([], SkipTooLong)
          else coerceArray_loop (if s \<noteq> [] then values @ [s] else values) items
      | _ \<Rightarrow> ([], SkipBadType))"

definition coerceArray :: "json \<Rightarrow> string list \<times> string" where
  "coerceArray v =
     (case v of
        JArray arr \<Rightarrow> if length arr > MaxArrayItems then ([], SkipTooManyItems) else coerceArray_loop [] arr
      | _ \<Rightarrow> ([], SkipBadType))"

definition coerce :: "json \<Rightarrow> string \<Rightarrow> string list \<times> string" where
  "coerce v t =
     (if t = ValueStringArray then coerceArray v
      else (case v of
          JString s \<Rightarrow>
            if length s > MaxValueBytes then ([], SkipTooLong)
            else if s = [] then ([], []) else ([s], [])
        | _ \<Rightarrow> ([], SkipBadType)))"

fun extractKey_loop ::
  "(string \<Rightarrow> string) \<Rightarrow> json gomap \<Rightarrow> key_extraction \<Rightarrow> string \<Rightarrow> string list list \<Rightarrow> string list \<times> string" where
  "extractKey_loop ul claims e firstSkip [] = ([], firstSkip)"
| "extractKey_loop ul claims e firstSkip (p # paths) =
     (case walk (JObject claims) p of
        None \<Rightarrow> extractKey_loop ul claims e firstSkip paths
      | Some v \<Rightarrow>
          let (values, reason) = coerce v (ke_Type e) in
          if reason \<noteq> [] then
            extractKey_loop ul claims e (if firstSkip = [] then reason else firstSkip) paths
          else if values = [] then extractKey_loop ul claims e firstSkip paths
          else (normalized ul e values, firstSkip))"

definition extractKey ::
  "(string \<Rightarrow> string) \<Rightarrow> json gomap \<Rightarrow> key_extraction \<Rightarrow> string list \<times> string" where
  "extractKey ul claims e = extractKey_loop ul claims e [] (ke_Path e # ke_Fallbacks e)"

definition extract_step ::
  "(string \<Rightarrow> string) \<Rightarrow> json gomap \<Rightarrow> key_extraction \<Rightarrow>
     string list gomap \<times> skip list \<Rightarrow> string list gomap \<times> skip list" where
  "extract_step ul claims e st =
     (case st of (keys, skips) \<Rightarrow>
        let (values, reason) = extractKey ul claims e in
        (if values \<noteq> [] then AList.update (ke_Key e) values keys else keys,
         if reason \<noteq> [] then skips @ [\<lparr>sk_Key = ke_Key e, sk_Reason = reason\<rparr>] else skips))"

definition bearer_token :: "string \<Rightarrow> string" where
  "bearer_token token =
     (let t = TrimSpace token in
      if 7 \<le> length t \<and> EqualFold (take 7 t) ''Bearer '' then drop 7 t else t)"

definition Extract ::
  "(string \<Rightarrow> string) \<Rightarrow> key_extraction list \<Rightarrow> string \<Rightarrow> string list gomap \<times> skip list" where
  "Extract ul plan token =
     (let t = bearer_token token in
      if t = [] then ([], [])
      else (case payload t of
          None \<Rightarrow> ([], map (\<lambda>e. \<lparr>sk_Key = ke_Key e, sk_Reason = SkipDecodeFailed\<rparr>) plan)
        | Some claims \<Rightarrow> fold (extract_step ul claims) plan ([], [])))"

end
