(* ===== verification/Identity_Shape.thy ===== *)
theory Identity_Shape
  imports Identity
begin

text \<open>
  The shape scan of a payload (\<open>withinShape\<close> of \<open>engine/identity\<close>) against the value the JSON
  reader builds from it: the linear scan over the bytes bounds the nesting and the number of
  separators of everything the decoder can return.
\<close>

section \<open>Depth and separators of a value\<close>

primrec jdepth :: "json \<Rightarrow> nat" where
  "jdepth JNull = 0"
| "jdepth (JBool b) = 0"
| "jdepth (JNumber n) = 0"
| "jdepth (JString s) = 0"
| "jdepth (JArray xs) = Suc (foldr max (map jdepth xs) 0)"
| "jdepth (JObject ms) = Suc (foldr max (map snd (map (map_prod id jdepth) ms)) 0)"

text \<open>The commas and colons a value needs at least: between items, between members, after names.\<close>

primrec jseps :: "json \<Rightarrow> nat" where
  "jseps JNull = 0"
| "jseps (JBool b) = 0"
| "jseps (JNumber n) = 0"
| "jseps (JString s) = 0"
| "jseps (JArray xs) = (length xs - 1) + sum_list (map jseps xs)"
| "jseps (JObject ms) = (2 * length ms - 1) + sum_list (map snd (map (map_prod id jseps) ms))"

lemma foldr_max_le: "d + int (foldr max xs 0) \<le> m \<longleftrightarrow> d \<le> m \<and> (\<forall>x\<in>set xs. d + int x \<le> m)"
  by (induction xs) (auto simp: max_def)

section \<open>What the scan passes over\<close>

abbreviation outside :: "int \<Rightarrow> int \<Rightarrow> string \<Rightarrow> bool" where
  "outside d k s \<equiv> withinShape_loop d k False False s"

lemma outside_neutral:
  "c \<notin> {CHR 0x22, CHR ''{'', CHR ''['', CHR ''}'', CHR '']'', CHR '','', CHR '':''} \<Longrightarrow> outside d k (c # s) = outside d k s"
  by simp

lemma plain_neutral: "plain c \<Longrightarrow> c \<notin> {CHR 0x22, CHR ''{'', CHR ''['', CHR ''}'', CHR '']'', CHR '','', CHR '':''}"
  by (auto simp: plain_def isDigit_def less_eq_char_def)

lemma outside_plain: "list_all plain pre \<Longrightarrow> outside d k (pre @ s) = outside d k s"
  by (induction pre) (use outside_neutral plain_neutral in simp_all)

lemma outside_skip: "outside d k (skip_space s) = outside d k s"
proof (induction s)
  case (Cons c s)
  show ?case
  proof (cases "json_space c")
    case True
    then have "outside d k (c # s) = outside d k s"
      by (intro outside_neutral) (auto simp: json_space_def byte_def char_of_def)
    then show ?thesis using Cons True by (simp add: skip_space_def)
  qed (simp add: skip_space_def)
qed (simp add: skip_space_def)

lemma hex_inside: "hexval h \<noteq> None \<Longrightarrow> h \<noteq> CHR 0x22 \<and> h \<noteq> CHR 0x5C"
  by (auto simp: hexval_def in_range_def split: if_splits)

lemma inside_hex:
  "list_all (\<lambda>h. hexval h \<noteq> None) hs \<Longrightarrow>
     withinShape_loop d k True False (hs @ s) = withinShape_loop d k True False s"
  by (induction hs) (use hex_inside in auto)

lemma inside_string:
  "scan_string s = Some (raw, rest) \<Longrightarrow> withinShape_loop d k True False s = outside d k rest"
proof (induction s arbitrary: raw rest rule: scan_string.induct)
  case (2 c cs)
  consider "c = CHR 0x22" | "c \<noteq> CHR 0x22" "c \<noteq> CHR 0x5C" | "c = CHR 0x5C" by blast
  then show ?case
  proof cases
    case 1 then show ?thesis using 2(4) by simp
  next
    case 2: 2
    then show ?thesis using 2 "2.IH"(1) "2.prems" by (auto split: if_splits)
  next
    case esc: 3
    then obtain e cs' where cs: "cs = e # cs'" using "2.prems" by (cases cs) (auto split: if_splits)
    show ?thesis
    proof (cases "e = CHR ''u''")
      case True
      then have "list_all (\<lambda>h. hexval h \<noteq> None) (take 4 cs')" "\<exists>raw. scan_string (drop 4 cs') = Some (raw, rest)"
        using "2.prems" esc cs by (auto split: if_splits)
      then show ?thesis
        using "2.IH"(2) [OF _ _ _ cs True] "2.prems" esc cs True
          inside_hex [of "take 4 cs'" d k "drop 4 cs'"] by (auto split: if_splits)
    next
      case False
      then show ?thesis using "2.IH"(3) [OF _ _ _ cs False] "2.prems" esc cs by (auto split: if_splits)
    qed
  qed
qed simp

section \<open>The scan bounds the value\<close>

definition bounded_reader :: "reader \<Rightarrow> bool" where
  "bounded_reader val \<longleftrightarrow> (\<forall>d k s v rest.
     d \<le> 8 \<longrightarrow> k \<le> 512 \<longrightarrow> outside d k s \<longrightarrow> val s = Some (v, rest) \<longrightarrow>
       d + int (jdepth v) \<le> 8 \<and> (\<exists>k'. k + int (jseps v) \<le> k' \<and> k' \<le> 512 \<and> outside d k' rest))"

lemma bounded_readerD:
  assumes "bounded_reader val" "d \<le> 8" "k \<le> 512" "outside d k s" "val s = Some (v, rest)"
  obtains k' where "d + int (jdepth v) \<le> 8" "k + int (jseps v) \<le> k'" "k' \<le> 512" "outside d k' rest"
  using assms unfolding bounded_reader_def by blast

definition members_weight :: "json gomap \<Rightarrow> nat" where
  "members_weight ms = sum_list (map (\<lambda>(_, v). 2 + jseps v) ms)"

lemma members_weight_update: "members_weight (AList.update k v ms) \<le> members_weight ms + 2 + jseps v"
  by (induction ms) (auto simp: members_weight_def)

lemma update_subset: "set (AList.update k v ms) \<subseteq> insert (k, v) (set ms)"
  by (induction ms) auto

lemma sep_step: "outside d k (c # s) \<Longrightarrow> c = CHR '','' \<or> c = CHR '':'' \<Longrightarrow> k + 1 \<le> 512 \<and> outside d (k + 1) s"
  by (auto simp: MaxPayloadSeparators_def split: if_splits)

lemma close_step: "outside d k (c # s) \<Longrightarrow> c = CHR ''}'' \<or> c = CHR '']'' \<Longrightarrow> outside (d - 1) k s"
  by auto

lemma open_step: "outside d k (c # s) \<Longrightarrow> c = CHR ''{'' \<or> c = CHR ''['' \<Longrightarrow> d + 1 \<le> 8 \<and> outside (d + 1) k s"
  by (auto simp: MaxPayloadDepth_def split: if_splits)

lemma members_bounded:
  assumes val: "bounded_reader val" and d: "d \<le> 8"
  shows "json_members n val acc s = Some (v, rest) \<Longrightarrow> outside d k s \<Longrightarrow> k0 + int (members_weight acc) \<le> k \<Longrightarrow>
    k \<le> 512 \<Longrightarrow> \<forall>u\<in>snd ` set acc. d + int (jdepth u) \<le> 8 \<Longrightarrow>
    \<exists>ms k'. v = JObject ms \<and> (\<forall>u\<in>snd ` set ms. d + int (jdepth u) \<le> 8) \<and>
      k0 + int (members_weight ms) - 1 \<le> k' \<and> k' \<le> 512 \<and> outside (d - 1) k' rest"
proof (induction n arbitrary: acc s k)
  case (Suc n)
  from Suc.prems(1) show ?case
  proof (rule json_members_SucE)
    fix raw s0 s1 u s2 c cs
    assume p: "skip_space s = CHR 0x22 # s0" "scan_string s0 = Some (raw, s1)"
      "skip_space s1 = CHR '':'' # tl (skip_space s1)" "val (tl (skip_space s1)) = Some (u, s2)"
      "skip_space s2 = c # cs"
      "c = CHR '','' \<and> json_members n val (AList.update (unquote raw) u acc) cs = Some (v, rest) \<or>
       c = CHR ''}'' \<and> v = JObject (AList.update (unquote raw) u acc) \<and> rest = cs"
    define ms where "ms = AList.update (unquote raw) u acc"
    have "outside d k (CHR 0x22 # s0)" using Suc.prems(2) outside_skip [of d k s] p(1) by simp
    then have "outside d k s1" using inside_string [OF p(2), of d k] by simp
    then have "outside d k (CHR '':'' # tl (skip_space s1))" using outside_skip [of d k s1] p(3) by simp
    then have colon: "k + 1 \<le> 512" "outside d (k + 1) (tl (skip_space s1))" using sep_step by blast+
    obtain k' where k': "d + int (jdepth u) \<le> 8" "k + 1 + int (jseps u) \<le> k'" "k' \<le> 512" "outside d k' s2"
      using bounded_readerD [OF val d colon p(4)] .
    have nxt: "outside d k' (c # cs)" using k'(4) outside_skip [of d k' s2] p(5) by simp
    have ms: "k0 + int (members_weight ms) \<le> k' + 1" "\<forall>u\<in>snd ` set ms. d + int (jdepth u) \<le> 8"
      using members_weight_update [of "unquote raw" u acc] Suc.prems(3,5) k'(1,2) update_subset [of "unquote raw" u acc]
      unfolding ms_def by fastforce+
    from p(6) [folded ms_def] show ?thesis
    proof (elim disjE conjE)
      assume "c = CHR '',''" "json_members n val ms cs = Some (v, rest)"
      then show ?thesis using Suc.IH [of ms cs "k' + 1"] sep_step [OF nxt] ms by blast
    next
      assume "c = CHR ''}''" "v = JObject ms" "rest = cs"
      then show ?thesis using close_step [OF nxt] ms k'(3) by (intro exI [of _ ms] exI [of _ k']) auto
    qed
  qed
qed simp

lemma items_bounded:
  assumes val: "bounded_reader val" and d: "d \<le> 8"
  shows "json_items n val acc s = Some (v, rest) \<Longrightarrow> outside d k s \<Longrightarrow>
    k0 + int (length acc + sum_list (map jseps acc)) \<le> k \<Longrightarrow> k \<le> 512 \<Longrightarrow> \<forall>u\<in>set acc. d + int (jdepth u) \<le> 8 \<Longrightarrow>
    \<exists>xs k'. v = JArray xs \<and> (\<forall>u\<in>set xs. d + int (jdepth u) \<le> 8) \<and>
      k0 + int (length xs + sum_list (map jseps xs)) - 1 \<le> k' \<and> k' \<le> 512 \<and> outside (d - 1) k' rest"
proof (induction n arbitrary: acc s k)
  case (Suc n)
  from Suc.prems(1) show ?case
  proof (rule json_items_SucE)
    fix u s1 c cs
    assume p: "val s = Some (u, s1)" "skip_space s1 = c # cs"
      "c = CHR '','' \<and> json_items n val (acc @ [u]) cs = Some (v, rest) \<or>
       c = CHR '']'' \<and> v = JArray (acc @ [u]) \<and> rest = cs"
    obtain k' where k': "d + int (jdepth u) \<le> 8" "k + int (jseps u) \<le> k'" "k' \<le> 512" "outside d k' s1"
      using bounded_readerD [OF val d Suc.prems(4,2) p(1)] .
    define xs where "xs = acc @ [u]"
    have nxt: "outside d k' (c # cs)" using k'(4) outside_skip [of d k' s1] p(2) by simp
    have xs: "k0 + int (length xs + sum_list (map jseps xs)) \<le> k' + 1" "\<forall>u\<in>set xs. d + int (jdepth u) \<le> 8"
      using Suc.prems(3,5) k'(1,2) by (auto simp: xs_def)
    from p(3) [folded xs_def] show ?thesis
    proof (elim disjE conjE)
      assume "c = CHR '',''" "json_items n val xs cs = Some (v, rest)"
      then show ?thesis using Suc.IH [of xs cs "k' + 1"] sep_step [OF nxt] xs by blast
    next
      assume "c = CHR '']''" "v = JArray xs" "rest = cs"
      then show ?thesis using close_step [OF nxt] xs k'(3) by (intro exI [of _ xs] exI [of _ k']) auto
    qed
  qed
qed simp

lemma jdepth_object: "d + int (jdepth (JObject ms)) \<le> 8 \<longleftrightarrow> d + 1 \<le> 8 \<and> (\<forall>u\<in>snd ` set ms. d + 1 + int (jdepth u) \<le> 8)"
  using foldr_max_le [of "d + 1" "map snd (map (map_prod id jdepth) ms)" 8] by (auto simp: algebra_simps)

lemma jdepth_array: "d + int (jdepth (JArray xs)) \<le> 8 \<longleftrightarrow> d + 1 \<le> 8 \<and> (\<forall>u\<in>set xs. d + 1 + int (jdepth u) \<le> 8)"
  using foldr_max_le [of "d + 1" "map jdepth xs" 8] by (auto simp: algebra_simps)

lemma jseps_object: "jseps (JObject ms) = members_weight ms - 1"
proof -
  have "members_weight ms = 2 * length ms + sum_list (map snd (map (map_prod id jseps) ms))"
    by (induction ms) (auto simp: members_weight_def)
  then show ?thesis by (cases ms) simp_all
qed

lemma update_not_Nil: "AList.update k v ms \<noteq> []"
  by (cases ms) auto

lemma members_nonempty: "json_members n val acc s = Some (JObject ms, rest) \<Longrightarrow> ms \<noteq> []"
proof (induction n arbitrary: acc s)
  case (Suc n)
  from Suc.prems show ?case by (rule json_members_SucE) (elim disjE conjE, rule Suc.IH, assumption, simp add: update_not_Nil)
qed simp

lemma items_nonempty: "json_items n val acc s = Some (JArray xs, rest) \<Longrightarrow> xs \<noteq> []"
proof (induction n arbitrary: acc s)
  case (Suc n)
  from Suc.prems show ?case by (rule json_items_SucE) (use Suc.IH in auto)
qed simp

lemma object_bounded:
  assumes val: "bounded_reader val" and k: "k \<le> 512" and out: "outside d k (CHR ''{'' # cs)"
    and v: "(if HasPrefix (skip_space cs) ''}'' then Some (JObject [], tl (skip_space cs)) else json_members n val [] cs) = Some (v, rest)"
  shows "d + int (jdepth v) \<le> 8 \<and> (\<exists>k'. k + int (jseps v) \<le> k' \<and> k' \<le> 512 \<and> outside d k' rest)"
proof -
  have d: "d + 1 \<le> 8" "outside (d + 1) k cs" using open_step [OF out] by auto
  show ?thesis
  proof (cases "HasPrefix (skip_space cs) ''}''")
    case True
    then obtain r where r: "skip_space cs = CHR ''}'' # r" using skip_prefix [OF True] by blast
    have v: "v = JObject []" "rest = r" using True v r by simp_all
    have "outside (d + 1) k (CHR ''}'' # r)" using d(2) outside_skip [of "d + 1" k cs] r by simp
    then have "outside d k rest" using close_step [of "d + 1" k "CHR ''}''" r] v(2) by simp
    moreover note v(1)
    ultimately show ?thesis using d(1) k by (intro conjI exI [of _ k]) simp_all
  next
    case False
    then have "\<exists>ms k'. v = JObject ms \<and> (\<forall>u\<in>snd ` set ms. (d + 1) + int (jdepth u) \<le> 8) \<and>
        k + int (members_weight ms) - 1 \<le> k' \<and> k' \<le> 512 \<and> outside (d + 1 - 1) k' rest"
      using members_bounded [OF val d(1) _ d(2), of n "[]" v rest k] v k by (simp add: members_weight_def)
    then obtain ms k' where ms: "v = JObject ms" "\<forall>u\<in>snd ` set ms. (d + 1) + int (jdepth u) \<le> 8"
        "k + int (members_weight ms) - 1 \<le> k'" "k' \<le> 512" "outside d k' rest" by auto
    have "ms \<noteq> []" using members_nonempty [of n val "[]" cs ms rest] v False ms(1) by simp
    then have "0 < members_weight ms" by (cases ms) (auto simp: members_weight_def)
    then have "k + int (jseps v) \<le> k'" unfolding ms(1) jseps_object using ms(3) by linarith
    moreover have "d + int (jdepth v) \<le> 8" unfolding ms(1) jdepth_object using d(1) ms(2) by blast
    ultimately show ?thesis using ms(4,5) by blast
  qed
qed

lemma array_bounded:
  assumes val: "bounded_reader val" and k: "k \<le> 512" and out: "outside d k (CHR ''['' # cs)"
    and v: "(if HasPrefix (skip_space cs) '']'' then Some (JArray [], tl (skip_space cs)) else json_items n val [] cs) = Some (v, rest)"
  shows "d + int (jdepth v) \<le> 8 \<and> (\<exists>k'. k + int (jseps v) \<le> k' \<and> k' \<le> 512 \<and> outside d k' rest)"
proof -
  have d: "d + 1 \<le> 8" "outside (d + 1) k cs" using open_step [OF out] by auto
  show ?thesis
  proof (cases "HasPrefix (skip_space cs) '']''")
    case True
    then obtain r where r: "skip_space cs = CHR '']'' # r" using skip_prefix [OF True] by blast
    have v: "v = JArray []" "rest = r" using True v r by simp_all
    have "outside (d + 1) k (CHR '']'' # r)" using d(2) outside_skip [of "d + 1" k cs] r by simp
    then have "outside d k rest" using close_step [of "d + 1" k "CHR '']''" r] v(2) by simp
    moreover note v(1)
    ultimately show ?thesis using d(1) k by (intro conjI exI [of _ k]) simp_all
  next
    case False
    then have "\<exists>xs k'. v = JArray xs \<and> (\<forall>u\<in>set xs. (d + 1) + int (jdepth u) \<le> 8) \<and>
        k + int (length xs + sum_list (map jseps xs)) - 1 \<le> k' \<and> k' \<le> 512 \<and> outside (d + 1 - 1) k' rest"
      using items_bounded [OF val d(1) _ d(2), of n "[]" v rest k] v k by simp
    then obtain xs k' where xs: "v = JArray xs" "\<forall>u\<in>set xs. (d + 1) + int (jdepth u) \<le> 8"
        "k + int (length xs + sum_list (map jseps xs)) - 1 \<le> k'" "k' \<le> 512" "outside d k' rest" by auto
    have "xs \<noteq> []" using items_nonempty [of n val "[]" cs xs rest] v False xs(1) by simp
    then have "k + int (jseps v) \<le> k'" unfolding xs(1) using xs(3) by (cases xs) auto
    moreover have "d + int (jdepth v) \<le> 8" unfolding xs(1) jdepth_array using d(1) xs(2) by blast
    ultimately show ?thesis using xs(4,5) by blast
  qed
qed

lemma scalar_depth: "scan_literal s = Some (v, rest) \<Longrightarrow> jdepth v = 0 \<and> jseps v = 0"
  unfolding scan_literal_def by (auto split: if_splits option.splits bool.splits)

lemma value_bounded: "bounded_reader (json_value n)"
proof (induction n)
  case (Suc n)
  show ?case unfolding bounded_reader_def
  proof (intro allI impI)
    fix d k :: int and s v rest
    assume d: "d \<le> 8" and k: "k \<le> 512" and out: "outside d k s" and v: "json_value (Suc n) s = Some (v, rest)"
    obtain c cs where s: "skip_space s = c # cs" using v by (cases "skip_space s") auto
    have out: "outside d k (c # cs)" using out outside_skip [of d k s] s by simp
    consider "c = CHR 0x22" | "c = CHR ''{''" | "c = CHR ''[''"
      | "c \<noteq> CHR 0x22" "c \<noteq> CHR ''{''" "c \<noteq> CHR ''[''" by blast
    then show "d + int (jdepth v) \<le> 8 \<and> (\<exists>k'. k + int (jseps v) \<le> k' \<and> k' \<le> 512 \<and> outside d k' rest)"
    proof cases
      case 1
      then obtain raw where raw: "scan_string cs = Some (raw, rest)" "v = JString (unquote raw)"
        using v s by auto
      have "outside d k rest" using out 1 inside_string [OF raw(1), of d k] by simp
      then show ?thesis using d k raw(2) by (intro conjI exI [of _ k]) simp_all
    next
      case 2
      then show ?thesis using object_bounded [OF Suc k out [unfolded 2], of n v rest] v s by simp
    next
      case 3
      then show ?thesis using array_bounded [OF Suc k out [unfolded 3], of n v rest] v s by simp
    next
      case 4
      then have lit: "scan_literal (c # cs) = Some (v, rest)" using v s by simp
      obtain pre where pre: "c # cs = pre @ rest" "list_all plain pre" using scan_literal_split [OF lit] by blast
      have "outside d k rest" using out unfolding pre(1) outside_plain [OF pre(2)] .
      then show ?thesis using d k scalar_depth [OF lit] by (intro conjI exI [of _ k]) simp_all
    qed
  qed
qed (simp add: bounded_reader_def)

lemma unmarshal_bounded:
  assumes "withinShape raw" "Unmarshal raw = Some claims"
  shows "jdepth (JObject claims) \<le> 8 \<and> jseps (JObject claims) \<le> 512"
proof (cases "claims = []")
  case False
  then obtain rest where "json_value (Suc (length raw)) raw = Some (JObject claims, rest)"
    using assms(2) by (auto simp: Unmarshal_def split: option.splits json.splits if_splits)
  from bounded_readerD [OF value_bounded _ _ _ this, of 0 0] assms(1)
  obtain k' where "int (jdepth (JObject claims)) \<le> 8" "int (jseps (JObject claims)) \<le> k'" "k' \<le> 512"
    unfolding withinShape_def by auto
  then show ?thesis by linarith
qed simp

text \<open>
  The linear shape scan bounds what the JSON decoder can build. Whatever a caller sends as a
  token, the claims it decodes to nest at most eight objects and arrays deep and need at most
  512 separators, the bounds the package declares for a payload.
\<close>
theorem payload_bounded:
  assumes "payload token = Some claims"
  shows "int (jdepth (JObject claims)) \<le> MaxPayloadDepth \<and> int (jseps (JObject claims)) \<le> MaxPayloadSeparators
    \<and> length token \<le> MaxTokenBytes"
proof -
  obtain raw where "withinShape raw" "Unmarshal raw = Some claims" "length token \<le> MaxTokenBytes"
    using assms by (auto simp: payload_def Let_def split: if_splits option.splits)
  then show ?thesis using unmarshal_bounded [of raw claims]
    by (simp add: MaxPayloadDepth_def MaxPayloadSeparators_def)
qed

text \<open>A token whose payload is \<open>{"sub":"alice","roles":["a"]}\<close>.\<close>

definition sample_token :: string where
  "sample_token = ''h.eyJzdWIiOiJhbGljZSIsInJvbGVzIjpbImEiXX0.s''"

theorem payload_bounded_witness:
  "payload sample_token = Some [(''sub'', JString ''alice''), (''roles'', JArray [JString ''a''])] \<and>
   int (jdepth (JObject [(''sub'', JString ''alice''), (''roles'', JArray [JString ''a''])])) \<le> MaxPayloadDepth"
proof -
  have "payload sample_token = Some [(''sub'', JString ''alice''), (''roles'', JArray [JString ''a''])]"
    by code_simp
  then show ?thesis using payload_bounded by blast
qed

end
