(* ===== verification/Identity_Values.thy ===== *)
theory Identity_Values
  imports Identity "HOL-Library.Multiset"
begin

text \<open>
  What the identity layer hands to the matcher: the values an extraction can yield, which path of
  a mapping yields them, and how the explicit form of a request relates to the token form.
\<close>

section \<open>Values within the limits\<close>

definition value_ok :: "string \<Rightarrow> bool" where
  "value_ok v \<longleftrightarrow> v \<noteq> [] \<and> length v \<le> MaxValueBytes"

definition values_ok :: "string list \<Rightarrow> bool" where
  "values_ok vs \<longleftrightarrow> length vs \<le> MaxArrayItems \<and> list_all value_ok vs"

definition reasons :: "string list" where
  "reasons = [SkipDecodeFailed, SkipBadType, SkipTooLong, SkipTooManyItems]"

lemma reasons_not_empty [simp]:
  "SkipDecodeFailed \<noteq> []" "SkipBadType \<noteq> []" "SkipTooLong \<noteq> []" "SkipTooManyItems \<noteq> []"
  by (simp_all add: model_consts)

lemma explicit_loop_spec:
  "explicit_loop kept vs =
     (if list_all (\<lambda>v. length v \<le> MaxValueBytes) vs then (kept @ filter (\<lambda>v. v \<noteq> []) vs, []) else ([], SkipTooLong))"
  by (induction kept vs rule: explicit_loop.induct) auto

lemma explicitValues_spec:
  "explicitValues vs =
     (if length vs > MaxArrayItems then ([], SkipTooManyItems)
      else if list_all (\<lambda>v. length v \<le> MaxValueBytes) vs then (filter (\<lambda>v. v \<noteq> []) vs, [])
      else ([], SkipTooLong))"
  by (simp add: explicitValues_def explicit_loop_spec)

lemma explicitValues_ok:
  "explicitValues vs = (kept, reason) \<Longrightarrow> values_ok kept \<and> (reason = [] \<or> kept = [] \<and> reason \<in> set reasons)"
  using le_trans [OF length_filter_le [of _ vs]]
  by (auto simp: explicitValues_spec values_ok_def value_ok_def reasons_def list_all_iff split: if_splits)

lemma coerceArray_loop_ok:
  "coerceArray_loop acc items = (vs, reason) \<Longrightarrow> list_all value_ok acc \<Longrightarrow>
     list_all value_ok vs \<and> length vs \<le> length acc + length items \<and> (reason = [] \<or> vs = [] \<and> reason \<in> set reasons)"
  by (induction acc items rule: coerceArray_loop.induct)
    (fastforce simp: value_ok_def reasons_def split: if_splits json.splits)+

lemma coerceArray_ok:
  assumes "coerceArray v = (vs, reason)"
  shows "values_ok vs \<and> (reason = [] \<or> vs = [] \<and> reason \<in> set reasons)"
proof (cases "\<exists>arr. v = JArray arr \<and> length arr \<le> MaxArrayItems")
  case True
  then obtain arr where "v = JArray arr" "length arr \<le> MaxArrayItems" by blast
  then show ?thesis
    using assms coerceArray_loop_ok [of "[]" arr vs reason] by (simp add: coerceArray_def values_ok_def)
next
  case False
  then show ?thesis
    using assms by (auto simp: coerceArray_def values_ok_def reasons_def split: json.splits if_splits)
qed

lemma coerce_ok:
  "coerce v t = (vs, reason) \<Longrightarrow> values_ok vs \<and> (reason = [] \<or> vs = [] \<and> reason \<in> set reasons)"
  using coerceArray_ok [of v vs reason]
  by (auto simp: coerce_def values_ok_def value_ok_def reasons_def MaxArrayItems_def split: if_splits json.splits)

text \<open>What one claim path yields: nothing, values, or an anomaly.\<close>

definition candidate :: "json gomap \<Rightarrow> key_extraction \<Rightarrow> string list \<Rightarrow> string list \<times> string" where
  "candidate claims e p =
     (case walk (JObject claims) p of None \<Rightarrow> ([], []) | Some v \<Rightarrow> coerce v (ke_Type e))"

definition yields :: "json gomap \<Rightarrow> key_extraction \<Rightarrow> string list \<Rightarrow> bool" where
  "yields claims e p \<longleftrightarrow> fst (candidate claims e p) \<noteq> []"

lemma candidate_ok:
  "values_ok (fst (candidate claims e p))"
  "snd (candidate claims e p) \<noteq> [] \<Longrightarrow> fst (candidate claims e p) = [] \<and> snd (candidate claims e p) \<in> set reasons"
proof -
  have "values_ok (fst (candidate claims e p)) \<and>
      (snd (candidate claims e p) = [] \<or> fst (candidate claims e p) = [] \<and> snd (candidate claims e p) \<in> set reasons)"
  proof (cases "walk (JObject claims) p")
    case (Some v)
    then show ?thesis
      using coerce_ok [of v "ke_Type e" "fst (coerce v (ke_Type e))" "snd (coerce v (ke_Type e))"]
      by (simp add: candidate_def)
  qed (simp add: candidate_def values_ok_def)
  then show "values_ok (fst (candidate claims e p))"
    "snd (candidate claims e p) \<noteq> [] \<Longrightarrow> fst (candidate claims e p) = [] \<and> snd (candidate claims e p) \<in> set reasons"
    by blast+
qed

lemma find_case:
  assumes "Q d" "\<And>p. P p \<Longrightarrow> Q (f p)"
  shows "Q (case find P xs of None \<Rightarrow> d | Some p \<Rightarrow> f p)"
  using assms by (auto simp: find_Some_iff split: option.split)

lemma extractKey_loop_spec:
  "extractKey_loop ul claims e firstSkip paths =
     (case find (yields claims e) paths of None \<Rightarrow> [] | Some p \<Rightarrow> normalized ul e (fst (candidate claims e p)),
      if firstSkip \<noteq> [] then firstSkip
      else case find (\<lambda>p. snd (candidate claims e p) \<noteq> []) (takeWhile (\<lambda>p. \<not> yields claims e p) paths) of
        None \<Rightarrow> [] | Some p \<Rightarrow> snd (candidate claims e p))"
proof (induction ul claims e firstSkip paths rule: extractKey_loop.induct)
  case (2 ul claims e firstSkip p paths)
  show ?case
  proof (cases "walk (JObject claims) p")
    case None
    then have "candidate claims e p = ([], [])" by (simp add: candidate_def)
    then show ?thesis using 2(1) [OF None] None by (simp add: yields_def)
  next
    case (Some v)
    obtain vs reason where c: "coerce v (ke_Type e) = (vs, reason)" by fastforce
    then have cand: "candidate claims e p = (vs, reason)" using Some by (simp add: candidate_def)
    have "reason \<noteq> [] \<Longrightarrow> vs = []" using coerce_ok [OF c] by blast
    then show ?thesis
      using 2(2) [OF Some c [symmetric] refl] 2(3) [OF Some c [symmetric] refl] Some c cand
      by (cases "reason = []"; cases "vs = []") (auto simp: yields_def)
  qed
qed simp

text \<open>
  A mapping is served by its first path, primary before fallbacks, whose claim has the
  declared shape and a value left within the limits, and the anomaly reported is the first one met
  before that path: an anomalous claim never hides a later fallback, and a later anomaly never
  replaces an earlier one.
\<close>
theorem extractKey_first_path:
  "extractKey ul claims e =
     (let paths = ke_Path e # ke_Fallbacks e in
      (case find (yields claims e) paths of None \<Rightarrow> [] | Some p \<Rightarrow> normalized ul e (fst (candidate claims e p)),
       case find (\<lambda>p. snd (candidate claims e p) \<noteq> []) (takeWhile (\<lambda>p. \<not> yields claims e p) paths) of
         None \<Rightarrow> [] | Some p \<Rightarrow> snd (candidate claims e p)))"
  unfolding extractKey_def extractKey_loop_spec Let_def by simp

lemma normalize_values: "v \<in> set (normalized ul e vs) \<Longrightarrow> \<exists>w\<in>set vs. v = w \<or> v = ToLower ul w"
  by (auto simp: normalized_def split: if_splits)

lemma normalize_simps [simp]: "length (normalized ul e vs) = length vs" "normalized ul e vs = [] \<longleftrightarrow> vs = []"
  by (simp_all add: normalized_def)

text \<open>The values a key can hold: non-empty and bounded before an optional lowercasing.\<close>

definition held_values :: "(string \<Rightarrow> string) \<Rightarrow> string list \<Rightarrow> bool" where
  "held_values ul vs \<longleftrightarrow> vs \<noteq> [] \<and> length vs \<le> MaxArrayItems \<and>
     (\<forall>v\<in>set vs. \<exists>w. value_ok w \<and> (v = w \<or> v = ToLower ul w))"

lemma normalized_held:
  assumes "values_ok vs" "vs \<noteq> []"
  shows "held_values ul (normalized ul e vs)"
  using assms normalize_values [of _ ul e vs] unfolding held_values_def values_ok_def list_all_iff by fastforce

lemma extractKey_ok:
  assumes "extractKey ul claims e = (vs, reason)"
  shows "(vs = [] \<or> held_values ul vs) \<and> (reason = [] \<or> reason \<in> set reasons)"
proof -
  have vs: "vs = (case find (yields claims e) (ke_Path e # ke_Fallbacks e) of
      None \<Rightarrow> [] | Some p \<Rightarrow> normalized ul e (fst (candidate claims e p)))"
    and reason: "reason = (case find (\<lambda>p. snd (candidate claims e p) \<noteq> [])
        (takeWhile (\<lambda>p. \<not> yields claims e p) (ke_Path e # ke_Fallbacks e)) of
      None \<Rightarrow> [] | Some p \<Rightarrow> snd (candidate claims e p))"
    using assms unfolding extractKey_def extractKey_loop_spec by simp_all
  have "vs = [] \<or> held_values ul vs"
    unfolding vs by (rule find_case) (simp_all add: yields_def normalized_held candidate_ok(1))
  moreover have "reason = [] \<or> reason \<in> set reasons"
    unfolding reason by (rule find_case) (simp_all add: candidate_ok(2))
  ultimately show ?thesis ..
qed

section \<open>Extraction and the explicit form\<close>

definition skip_ok :: "key_extraction list \<Rightarrow> skip \<Rightarrow> bool" where
  "skip_ok plan sk \<longleftrightarrow> sk_Key sk \<in> ke_Key ` set plan \<and> sk_Reason sk \<in> set reasons"

lemma extract_fold_ok:
  assumes "fold (extract_step ul claims) es (keys, skips) = (keys', skips')" "set es \<subseteq> set plan"
    "\<forall>k vs. map_of keys k = Some vs \<longrightarrow> k \<in> ke_Key ` set plan \<and> held_values ul vs" "list_all (skip_ok plan) skips"
  shows "(\<forall>k vs. map_of keys' k = Some vs \<longrightarrow> k \<in> ke_Key ` set plan \<and> held_values ul vs) \<and> list_all (skip_ok plan) skips'"
  using assms
proof (induction es arbitrary: keys skips)
  case (Cons e es)
  obtain vs reason where e: "extractKey ul claims e = (vs, reason)" by fastforce
  have step: "extract_step ul claims e (keys, skips) =
      (if vs \<noteq> [] then AList.update (ke_Key e) vs keys else keys,
       if reason \<noteq> [] then skips @ [\<lparr>sk_Key = ke_Key e, sk_Reason = reason\<rparr>] else skips)"
    by (simp add: extract_step_def e)
  show ?case
  proof (rule Cons.IH)
    show "fold (extract_step ul claims) es
        (if vs \<noteq> [] then AList.update (ke_Key e) vs keys else keys,
         if reason \<noteq> [] then skips @ [\<lparr>sk_Key = ke_Key e, sk_Reason = reason\<rparr>] else skips) = (keys', skips')"
      using Cons.prems(1) step by simp
  qed (use Cons.prems(2-4) extractKey_ok [OF e] in \<open>auto simp: skip_ok_def update_conv' split: if_splits\<close>)
qed simp

lemma distinct_loop_spec:
  "distinct out \<Longrightarrow> distinct (distinct_loop out vs) \<and> set (distinct_loop out vs) = set out \<union> set vs \<and>
     length (distinct_loop out vs) \<le> length out + length vs"
proof (induction out vs rule: distinct_loop.induct)
  case (2 out v vs)
  then show ?case by (cases "v \<in> set out") auto
qed simp

lemma distinct_values_spec:
  "distinct (distinct_values vs)" "set (distinct_values vs) = set vs" "length (distinct_values vs) \<le> length vs"
proof -
  have "length vs < 2 \<Longrightarrow> distinct vs" by (cases vs; cases "tl vs") auto
  then show "distinct (distinct_values vs)" "set (distinct_values vs) = set vs" "length (distinct_values vs) \<le> length vs"
    using distinct_loop_spec [of "[]" vs] by (auto simp: distinct_values_def)
qed

text \<open>What the explicit form makes of one key, whatever the others are.\<close>

definition explicit_result :: "(string \<Rightarrow> string) \<Rightarrow> key_extraction list \<Rightarrow> string \<Rightarrow> string list \<Rightarrow> string list option" where
  "explicit_result ul plan k vs =
     (case explicitValues vs of (kept, reason) \<Rightarrow>
        if reason \<noteq> [] \<or> kept = [] then None
        else Some (distinct_values (case planned plan k of None \<Rightarrow> kept | Some e \<Rightarrow> normalized ul e kept)))"

definition explicit_skips :: "key_extraction list \<Rightarrow> string \<times> string list \<Rightarrow> skip list" where
  "explicit_skips plan kv =
     (case explicitValues (snd kv) of (kept, reason) \<Rightarrow>
        if reason \<noteq> [] \<and> planned plan (fst kv) \<noteq> None then [\<lparr>sk_Key = fst kv, sk_Reason = reason\<rparr>] else [])"

lemma explicit_key_spec:
  "explicit_key ul plan (k, vs) (out, skips) =
     (case explicit_result ul plan k vs of None \<Rightarrow> out | Some ws \<Rightarrow> AList.update k ws out,
      skips @ explicit_skips plan (k, vs))"
  by (auto simp: explicit_key_def explicit_result_def explicit_skips_def Let_def split: prod.split option.split)

lemma explicit_fold_spec:
  "gm_ok keys \<Longrightarrow> snd (fold (explicit_key ul plan) keys (out, skips)) = skips @ concat (map (explicit_skips plan) keys) \<and>
     map_of (fst (fold (explicit_key ul plan) keys (out, skips))) k =
       (case Option.bind (map_of keys k) (explicit_result ul plan k) of None \<Rightarrow> map_of out k | Some ws \<Rightarrow> Some ws)"
proof (induction keys arbitrary: out skips)
  case (Cons kv keys)
  obtain k0 vs where kv: "kv = (k0, vs)" by fastforce
  then have "gm_ok keys" "map_of keys k0 = None" using Cons.prems by (auto simp: gm_ok_def map_of_eq_None_iff)
  then show ?case
    using Cons.IH [of "case explicit_result ul plan k0 vs of None \<Rightarrow> out | Some ws \<Rightarrow> AList.update k0 ws out"
        "skips @ explicit_skips plan (k0, vs)"]
    by (auto simp: kv explicit_key_spec update_conv' split: option.split)
qed simp

lemma Explicit_map:
  "gm_ok keys \<Longrightarrow> map_of (fst (Explicit ul plan keys)) k = Option.bind (map_of keys k) (explicit_result ul plan k)"
  using explicit_fold_spec [of keys ul plan "[]" "[]" k] by (simp add: Explicit_def split: option.splits)

lemma Explicit_skips: "gm_ok keys \<Longrightarrow> snd (Explicit ul plan keys) = concat (map (explicit_skips plan) keys)"
  using explicit_fold_spec [of keys ul plan "[]" "[]"] by (simp add: Explicit_def)

lemma mset_concat_map: "mset (concat (map f xs)) = (\<Sum>x\<in>#mset xs. mset (f x))"
  by (induction xs) simp_all

text \<open>
  The explicit form does not depend on the order in which the runtime walks the caller's map:
  another order of the same keys gives the same values for every key and the same skips.
\<close>
theorem Explicit_order_free:
  assumes "gm_ok keys" "mset keys' = mset keys"
  shows "map_of (fst (Explicit ul plan keys')) = map_of (fst (Explicit ul plan keys)) \<and>
    mset (snd (Explicit ul plan keys')) = mset (snd (Explicit ul plan keys))"
proof -
  have ok: "gm_ok keys'" using assms by (metis gm_ok_def mset_eq_imp_distinct_iff mset_map)
  have "map_of keys' = map_of keys"
    using map_of_inject_set [of keys' keys] assms ok mset_eq_setD [OF assms(2)] by (simp add: gm_ok_def)
  then have "map_of (fst (Explicit ul plan keys')) = map_of (fst (Explicit ul plan keys))"
    by (simp add: fun_eq_iff Explicit_map assms(1) ok)
  moreover have "mset (concat (map (explicit_skips plan) keys')) = mset (concat (map (explicit_skips plan) keys))"
    unfolding mset_concat_map assms(2) ..
  ultimately show ?thesis by (simp add: Explicit_skips assms(1) ok)
qed

definition direct_keys :: "string list gomap" where
  "direct_keys = [(''sub'', [''Alice'', [], ''alice'']), (''plan'', replicate 65 ''x'')]"

definition direct_plan :: "key_extraction list" where
  "direct_plan = [\<lparr>ke_Key = ''sub'', ke_Path = [''sub''], ke_Type = ValueString,
     ke_Normalization = NormalizeLowercase, ke_Fallbacks = []\<rparr>]"

theorem Explicit_order_free_witness:
  "map_of (fst (Explicit id direct_plan (rev direct_keys))) ''sub'' = Some [''alice''] \<and>
   map_of (fst (Explicit id direct_plan (rev direct_keys))) = map_of (fst (Explicit id direct_plan direct_keys))"
proof -
  have "gm_ok direct_keys" by code_simp
  then have "map_of (fst (Explicit id direct_plan (rev direct_keys))) = map_of (fst (Explicit id direct_plan direct_keys))"
    using Explicit_order_free [of direct_keys "rev direct_keys"] by simp
  moreover have "map_of (fst (Explicit id direct_plan direct_keys)) ''sub'' = Some [''alice'']" by code_simp
  ultimately show ?thesis by simp
qed

lemma held_distinct: "held_values ul vs \<Longrightarrow> held_values ul (distinct_values vs)"
  unfolding held_values_def using distinct_values_spec(2,3) [of vs] le_trans
  by (metis empty_iff empty_set last_in_set)

lemma explicit_result_held:
  assumes "explicit_result ul plan k vs = Some ws"
  shows "held_values ul ws \<and> distinct ws"
proof -
  obtain kept reason where kr: "explicitValues vs = (kept, reason)" by fastforce
  then have ws: "kept \<noteq> []" "ws = distinct_values (case planned plan k of None \<Rightarrow> kept | Some e \<Rightarrow> normalized ul e kept)"
    using assms by (auto simp: explicit_result_def split: if_splits)
  have kept: "values_ok kept" using explicitValues_ok [OF kr] by blast
  then have "held_values ul kept" using ws(1) by (fastforce simp: held_values_def values_ok_def list_all_iff)
  then have "held_values ul (case planned plan k of None \<Rightarrow> kept | Some e \<Rightarrow> normalized ul e kept)"
    using normalized_held [OF kept ws(1)] by (simp split: option.split)
  then show ?thesis unfolding ws(2) using held_distinct distinct_values_spec(1) by blast
qed

lemma planned_mem: "planned plan k = Some e \<Longrightarrow> e \<in> set plan \<and> ke_Key e = k"
  by (auto simp: planned_def find_Some_iff)

lemma explicit_skips_ok: "list_all (skip_ok plan) (explicit_skips plan kv)"
  using explicitValues_ok [of "snd kv"] planned_mem [of plan "fst kv"]
  by (force simp: explicit_skips_def skip_ok_def split: prod.split)

lemma Extract_ok:
  assumes "Extract ul plan token = (keys, skips)"
  shows "(\<forall>k vs. map_of keys k = Some vs \<longrightarrow> k \<in> ke_Key ` set plan \<and> held_values ul vs) \<and> list_all (skip_ok plan) skips"
proof (cases "bearer_token token = []")
  case True
  then show ?thesis using assms by (auto simp: Extract_def)
next
  case False
  show ?thesis
  proof (cases "payload (bearer_token token)")
    case None
    then show ?thesis using assms False by (auto simp: Extract_def skip_ok_def reasons_def list_all_iff)
  next
    case (Some claims)
    then show ?thesis
      using extract_fold_ok [of ul claims plan "[]" "[]" keys skips plan] assms False by (simp add: Extract_def)
  qed
qed

text \<open>
  Whatever a caller sends, in the token or as explicit keys, every key the matcher sees holds
  between one and 64 values, each non-empty and at most 256 bytes before an optional lowercasing;
  a token fills declared keys only, and a skip names a declared key and one of the four reasons,
  so no caller chosen text reaches a metric label.
\<close>
theorem identity_bounded:
  assumes "gm_ok keys"
  shows "(map_of (fst (Extract ul plan token)) k = Some vs \<longrightarrow> k \<in> ke_Key ` set plan \<and> held_values ul vs) \<and>
    (map_of (fst (Explicit ul plan keys)) k = Some ws \<longrightarrow> held_values ul ws \<and> distinct ws) \<and>
    list_all (skip_ok plan) (snd (Extract ul plan token) @ snd (Explicit ul plan keys))"
proof (intro conjI impI)
  obtain ks sks where e: "Extract ul plan token = (ks, sks)" by fastforce
  show "k \<in> ke_Key ` set plan" "held_values ul vs" if "map_of (fst (Extract ul plan token)) k = Some vs"
    using Extract_ok [OF e] that e by auto
  show "list_all (skip_ok plan) (snd (Extract ul plan token) @ snd (Explicit ul plan keys))"
    using Extract_ok [OF e] e explicit_skips_ok Explicit_skips [OF assms, of ul plan] by (fastforce simp: list_all_iff)
  show "held_values ul ws" "distinct ws" if "map_of (fst (Explicit ul plan keys)) k = Some ws"
    using that explicit_result_held unfolding Explicit_map [OF assms] bind_eq_Some_conv by blast+
qed

theorem identity_bounded_witness:
  "held_values id [''alice''] \<and> list_all (skip_ok direct_plan) (snd (Explicit id direct_plan direct_keys))"
proof -
  have "gm_ok direct_keys" "map_of (fst (Explicit id direct_plan direct_keys)) ''sub'' = Some [''alice'']" by code_simp+
  then show ?thesis using identity_bounded [of direct_keys id direct_plan "[]" "''sub''" "[]" "[''alice'']"] by simp
qed

section \<open>The two forms agree\<close>

lemma coerceArray_strings: "coerceArray_loop acc (map JString vs) = explicit_loop acc vs"
  by (induction acc vs rule: explicit_loop.induct) auto

lemma coerceArray_explicit: "coerceArray (JArray (map JString vs)) = explicitValues vs"
  by (simp add: coerceArray_def explicitValues_def coerceArray_strings)

text \<open>
  A value counts the same whichever form carried it, up to repeats. For an array key, the
  explicit form of a list of strings gives exactly the token form of the same claim without its
  repeated values, and refuses it for the same reason.
\<close>
theorem explicit_matches_token:
  assumes "gm_ok keys" "map_of keys k = Some vs" "planned plan k = Some e"
    and "ke_Type e = ValueStringArray" "ke_Fallbacks e = []"
    and "walk (JObject claims) (ke_Path e) = Some (JArray (map JString vs))"
  shows "case extractKey ul claims e of (ws, reason) \<Rightarrow>
    map_of (fst (Explicit ul plan keys)) k = (if ws = [] then None else Some (distinct_values ws)) \<and>
    (reason \<noteq> [] \<longrightarrow> \<lparr>sk_Key = k, sk_Reason = reason\<rparr> \<in> set (snd (Explicit ul plan keys)))"
proof -
  obtain kept reason where kr: "explicitValues vs = (kept, reason)" by fastforce
  have "coerce (JArray (map JString vs)) (ke_Type e) = (kept, reason)"
    using assms(4) kr by (simp add: coerce_def coerceArray_explicit)
  then have x: "extractKey ul claims e = (if reason \<noteq> [] then ([], reason) else (normalized ul e kept, []))"
    using assms(5,6) by (auto simp: extractKey_def normalized_def)
  have m: "map_of (fst (Explicit ul plan keys)) k = explicit_result ul plan k vs"
    using assms(1,2) by (simp add: Explicit_map)
  have "(k, vs) \<in> set keys" using assms(2) by (rule map_of_SomeD)
  then have "reason \<noteq> [] \<Longrightarrow> \<lparr>sk_Key = k, sk_Reason = reason\<rparr> \<in> set (snd (Explicit ul plan keys))"
    using kr assms(3) unfolding Explicit_skips [OF assms(1)] by (force simp: explicit_skips_def)
  then show ?thesis using x m kr assms(3) by (auto simp: explicit_result_def)
qed

theorem explicit_matches_token_witness:
  "map_of (fst (Explicit id
      [\<lparr>ke_Key = ''roles'', ke_Path = [''roles''], ke_Type = ValueStringArray, ke_Normalization = [], ke_Fallbacks = []\<rparr>]
      [(''roles'', [''a'', ''a''])])) ''roles'' = Some [''a'']"
proof -
  let ?e = "\<lparr>ke_Key = ''roles'', ke_Path = [''roles''], ke_Type = ValueStringArray, ke_Normalization = [], ke_Fallbacks = []\<rparr>"
  let ?claims = "[(''roles'', JArray (map JString [''a'', ''a'']))]"
  have "extractKey id ?claims ?e = ([''a'', ''a''], [])" "distinct_values [''a'', ''a''] = [''a'']" by code_simp+
  then show ?thesis
    using explicit_matches_token [of "[(''roles'', [''a'', ''a''])]" "''roles''" "[''a'', ''a'']" "[?e]" ?e ?claims id]
    by (simp add: gm_ok_def planned_def)
qed

end
