(* ===== verification/Token_Cache.thy ===== *)
theory Token_Cache
  imports Identity_Shape Identity_Values Compile
begin

text \<open>
  The token cache of the engine (\<open>engine/tokencache.go\<close>): extraction memoized per token hash in
  two generations, bounded by entries and by estimated bytes. SHA-256 is the parameter \<open>sha\<close>;
  where a result depends on it, the hypothesis is that the tokens presented do not collide. The
  lock of the cache makes each read and each insertion atomic and nothing more, so a request is a
  small program of atomic steps here and the theorems are about every interleaving of them. The
  sizes are sums over data in memory and stay far below the width of an \<open>int\<close>.
\<close>

section \<open>Entries\<close>

record cache_entry =
  ce_keys :: "string list gomap"
  ce_skips :: "skip list"
  ce_size :: int

definition tokenCacheBytes :: int where "tokenCacheBytes = 8388608"
definition maxCachedEntryBytes :: int where "maxCachedEntryBytes = 4096"

definition entryOverhead :: int where "entryOverhead = 160"
definition mapOverhead :: int where "mapOverhead = 384"
definition keyOverhead :: int where "keyOverhead = 64"
definition valueOverhead :: int where "valueOverhead = 16"
definition valueAlign :: int where "valueAlign = 16"
definition skipOverhead :: int where "skipOverhead = 32"

definition valueSize :: "string \<Rightarrow> int" where
  "valueSize v = valueOverhead + (int (length v) + valueAlign - 1) div valueAlign * valueAlign"

definition keySize :: "string \<times> string list \<Rightarrow> int" where
  "keySize kv = keyOverhead + int (length (fst kv)) + sum_list (map valueSize (snd kv))"

definition entrySize :: "string list gomap \<Rightarrow> skip list \<Rightarrow> int" where
  "entrySize keys skips =
     entryOverhead + int (length skips) * skipOverhead + (if 0 < length keys then mapOverhead else 0)
     + sum_list (map keySize keys)"

definition newCacheEntry :: "string list gomap \<Rightarrow> skip list \<Rightarrow> int \<Rightarrow> cache_entry" where
  "newCacheEntry keys skips sz = \<lparr>ce_keys = keys, ce_skips = skips, ce_size = sz\<rparr>"

section \<open>The two generations\<close>

record token_cache =
  tc_half :: int
  tc_halfBytes :: int
  tc_single :: bool
  tc_cur :: "cache_entry gomap"
  tc_prev :: "cache_entry gomap"
  tc_curBytes :: int

definition newTokenCache :: "int \<Rightarrow> int \<Rightarrow> token_cache" where
  "newTokenCache capacity budget =
     (if capacity < 2
      then \<lparr>tc_half = 1, tc_halfBytes = budget, tc_single = True, tc_cur = [], tc_prev = [], tc_curBytes = 0\<rparr>
      else \<lparr>tc_half = capacity div 2, tc_halfBytes = budget div 2, tc_single = False,
             tc_cur = [], tc_prev = [], tc_curBytes = 0\<rparr>)"

definition rotateGenerations :: "token_cache \<Rightarrow> token_cache" where
  "rotateGenerations c = c\<lparr>tc_prev := (if tc_single c then tc_prev c else tc_cur c), tc_cur := [], tc_curBytes := 0\<rparr>"

definition cache_store :: "string \<Rightarrow> cache_entry \<Rightarrow> token_cache \<Rightarrow> token_cache" where
  "cache_store h e c =
     (let c' = (if map_of (tc_cur c) h = None then
                  let c1 = (if int (length (tc_cur c)) \<ge> tc_half c \<or> tc_curBytes c + ce_size e > tc_halfBytes c
                            then rotateGenerations c else c)
                  in c1\<lparr>tc_curBytes := tc_curBytes c1 + ce_size e\<rparr>
                else c)
      in c'\<lparr>tc_cur := AList.update h e (tc_cur c')\<rparr>)"

text \<open>The read under the read lock: the entry, and whether it needs promoting.\<close>

definition cache_read :: "string \<Rightarrow> token_cache \<Rightarrow> (cache_entry \<times> bool) option" where
  "cache_read h c =
     (case map_of (tc_cur c) h of
        Some e \<Rightarrow> Some (e, False)
      | None \<Rightarrow> map_option (\<lambda>e. (e, True)) (map_of (tc_prev c) h))"

definition lookup :: "string \<Rightarrow> token_cache \<Rightarrow> cache_entry option \<times> token_cache" where
  "lookup h c =
     (case cache_read h c of
        None \<Rightarrow> (None, c)
      | Some (e, promote) \<Rightarrow> (Some e, if promote then cache_store h e c else c))"

section \<open>The cached extraction\<close>

definition inc64u :: "int \<Rightarrow> int" where "inc64u n = (n + 1) mod 2 ^ 64"

record cache_stats =
  cs_hits :: int
  cs_misses :: int

record engine =
  en_snap :: snapshot
  en_cache :: "token_cache option"
  en_stats :: "cache_stats option"

abbreviation en_plan :: "engine \<Rightarrow> key_extraction list" where
  "en_plan en \<equiv> sn_Extraction (en_snap en)"

definition bypasses :: "engine \<Rightarrow> string \<Rightarrow> bool" where
  "bypasses en token \<longleftrightarrow>
     en_cache en = None \<or> length (en_plan en) = 0 \<or> token = [] \<or> length token > MaxTokenBytes"

definition count_hit :: "engine \<Rightarrow> engine" where
  "count_hit en = en\<lparr>en_stats := map_option (\<lambda>st. st\<lparr>cs_hits := inc64u (cs_hits st)\<rparr>) (en_stats en)\<rparr>"

definition count_miss :: "engine \<Rightarrow> engine" where
  "count_miss en = en\<lparr>en_stats := map_option (\<lambda>st. st\<lparr>cs_misses := inc64u (cs_misses st)\<rparr>) (en_stats en)\<rparr>"

definition cachedExtract ::
  "(string \<Rightarrow> string) \<Rightarrow> (string \<Rightarrow> string) \<Rightarrow> engine \<Rightarrow> string \<Rightarrow>
     (string list gomap \<times> skip list) \<times> engine" where
  "cachedExtract sha ul en token =
     (if bypasses en token then (Extract ul (en_plan en) token, en)
      else
        case lookup (sha token) (the (en_cache en)) of
          (Some entry, c) \<Rightarrow> ((ce_keys entry, ce_skips entry), count_hit (en\<lparr>en_cache := Some c\<rparr>))
        | (None, c) \<Rightarrow>
            let en1 = count_miss en; (keys, skips) = Extract ul (en_plan en) token; sz = entrySize keys skips in
            ((keys, skips),
             if sz \<le> maxCachedEntryBytes
             then en1\<lparr>en_cache := Some (cache_store (sha token) (newCacheEntry keys skips sz) c)\<rparr>
             else en1))"

section \<open>Requests that share a memo table\<close>

text \<open>
  A request against a shared table, between its atomic steps: about to read, about to promote what
  it read from the old generation, about to insert what it computed, and answered.
\<close>

datatype ('t, 'e) request = Reading 't | Promoting 't 'e | Inserting 't 'e | Answered 't 'e

inductive memo_step ::
  "('h \<Rightarrow> 'c \<Rightarrow> ('e \<times> bool) option) \<Rightarrow> ('h \<Rightarrow> 'e \<Rightarrow> 'c \<Rightarrow> 'c) \<Rightarrow> ('t \<Rightarrow> 'h) \<Rightarrow> ('t \<Rightarrow> 'e) \<Rightarrow> ('e \<Rightarrow> bool) \<Rightarrow>
     'c \<times> ('t, 'e) request list \<Rightarrow> 'c \<times> ('t, 'e) request list \<Rightarrow> bool"
  for read put hash compute caches
where
  hit: "i < length rs \<Longrightarrow> rs ! i = Reading t \<Longrightarrow> read (hash t) c = Some (e, False) \<Longrightarrow>
     memo_step read put hash compute caches (c, rs) (c, rs[i := Answered t e])"
| old_hit: "i < length rs \<Longrightarrow> rs ! i = Reading t \<Longrightarrow> read (hash t) c = Some (e, True) \<Longrightarrow>
     memo_step read put hash compute caches (c, rs) (c, rs[i := Promoting t e])"
| promote: "i < length rs \<Longrightarrow> rs ! i = Promoting t e \<Longrightarrow>
     memo_step read put hash compute caches (c, rs) (put (hash t) e c, rs[i := Answered t e])"
| miss: "i < length rs \<Longrightarrow> rs ! i = Reading t \<Longrightarrow> read (hash t) c = None \<Longrightarrow>
     memo_step read put hash compute caches (c, rs) (c, rs[i := Inserting t (compute t)])"
| insert: "i < length rs \<Longrightarrow> rs ! i = Inserting t e \<Longrightarrow> caches e \<Longrightarrow>
     memo_step read put hash compute caches (c, rs) (put (hash t) e c, rs[i := Answered t e])"
| leave: "i < length rs \<Longrightarrow> rs ! i = Inserting t e \<Longrightarrow> \<not> caches e \<Longrightarrow>
     memo_step read put hash compute caches (c, rs) (c, rs[i := Answered t e])"

primrec answer_ok :: "'t set \<Rightarrow> ('t \<Rightarrow> 'e) \<Rightarrow> ('e \<Rightarrow> bool) \<Rightarrow> ('t, 'e) request \<Rightarrow> bool" where
  "answer_ok tokens compute caches (Reading t) = (t \<in> tokens)"
| "answer_ok tokens compute caches (Promoting t e) = (t \<in> tokens \<and> e = compute t \<and> caches e)"
| "answer_ok tokens compute caches (Inserting t e) = (t \<in> tokens \<and> e = compute t)"
| "answer_ok tokens compute caches (Answered t e) = (t \<in> tokens \<and> e = compute t)"

text \<open>The contract of the table, and what its clients get out of it under every interleaving.\<close>

locale memo_table =
  fixes inv :: "'c \<Rightarrow> bool"
    and read :: "'h \<Rightarrow> 'c \<Rightarrow> ('e \<times> bool) option"
    and put :: "'h \<Rightarrow> 'e \<Rightarrow> 'c \<Rightarrow> 'c"
    and hash :: "'t \<Rightarrow> 'h"
    and compute :: "'t \<Rightarrow> 'e"
    and caches :: "'e \<Rightarrow> bool"
    and tokens :: "'t set"
  assumes read_computed: "inv c \<Longrightarrow> t \<in> tokens \<Longrightarrow> read (hash t) c = Some (e, p) \<Longrightarrow> e = compute t \<and> caches e"
    and put_inv: "inv c \<Longrightarrow> t \<in> tokens \<Longrightarrow> caches (compute t) \<Longrightarrow> inv (put (hash t) (compute t) c)"
begin

lemma step_ok:
  assumes "memo_step read put hash compute caches (c, rs) (c', rs')"
    and "inv c" "list_all (answer_ok tokens compute caches) rs"
  shows "inv c' \<and> list_all (answer_ok tokens compute caches) rs'"
proof -
  have at: "answer_ok tokens compute caches (rs ! i)" if "i < length rs" for i
    using that assms(3) by (simp add: list_all_length)
  have upd: "list_all (answer_ok tokens compute caches) (rs[i := r])"
    if "answer_ok tokens compute caches r" for i r
    using assms(3) that by (auto simp: list_all_iff dest!: set_update_subset_insert [THEN subsetD])
  note rd = read_computed [OF assms(2)] and pt = put_inv [OF assms(2)]
  from assms(1) show ?thesis
  proof (cases rule: memo_step.cases)
    case (hit i t e)
    then show ?thesis using at [of i] rd [of t e False] assms(2) upd by auto
  next
    case (old_hit i t e)
    then show ?thesis using at [of i] rd [of t e True] assms(2) upd by auto
  next
    case (promote i t e)
    then show ?thesis using at [of i] pt [of t] upd by auto
  next
    case (miss i t)
    then show ?thesis using at [of i] assms(2) upd by auto
  next
    case (insert i t e)
    then show ?thesis using at [of i] pt [of t] upd by auto
  next
    case (leave i t e)
    then show ?thesis using at [of i] assms(2) upd by auto
  qed
qed

lemma run_ok:
  assumes "(memo_step read put hash compute caches)\<^sup>*\<^sup>* (c, rs) (c', rs')"
    and "inv c" "list_all (answer_ok tokens compute caches) rs"
  shows "inv c' \<and> list_all (answer_ok tokens compute caches) rs'"
  using assms
proof (induction "(c', rs')" arbitrary: c' rs' rule: rtranclp_induct)
  case (step y)
  obtain c1 rs1 where y: "y = (c1, rs1)" by fastforce
  then show ?case using step.hyps(2,3) step.prems step_ok by blast
qed simp

end

section \<open>The cache keeps its bounds and its answers\<close>

definition entry_of :: "(string \<Rightarrow> string) \<Rightarrow> key_extraction list \<Rightarrow> string \<Rightarrow> cache_entry" where
  "entry_of ul plan token =
     (let (keys, skips) = Extract ul plan token in newCacheEntry keys skips (entrySize keys skips))"

definition cacheable :: "cache_entry \<Rightarrow> bool" where
  "cacheable e \<longleftrightarrow> ce_size e \<le> maxCachedEntryBytes"

definition gen_bytes :: "cache_entry gomap \<Rightarrow> int" where
  "gen_bytes g = sum_list (map (ce_size \<circ> snd) g)"

text \<open>One generation: no more entries and bytes than its bounds, and only computed entries.\<close>

definition gen_ok ::
  "(string \<Rightarrow> string) \<Rightarrow> (string \<Rightarrow> string) \<Rightarrow> key_extraction list \<Rightarrow> string set \<Rightarrow> token_cache \<Rightarrow> cache_entry gomap \<Rightarrow> bool" where
  "gen_ok sha ul plan tokens c g \<longleftrightarrow>
     gm_ok g \<and> int (length g) \<le> tc_half c \<and> gen_bytes g \<le> tc_halfBytes c \<and>
     (\<forall>h e. (h, e) \<in> set g \<longrightarrow> (\<exists>t\<in>tokens. h = sha t \<and> e = entry_of ul plan t \<and> cacheable e))"

definition cache_ok ::
  "(string \<Rightarrow> string) \<Rightarrow> (string \<Rightarrow> string) \<Rightarrow> key_extraction list \<Rightarrow> string set \<Rightarrow> int \<Rightarrow> int \<Rightarrow> token_cache \<Rightarrow> bool" where
  "cache_ok sha ul plan tokens capacity budget c \<longleftrightarrow>
     inj_on sha tokens \<and> 1 \<le> capacity \<and> 2 * maxCachedEntryBytes \<le> budget \<and>
     tc_half c = tc_half (newTokenCache capacity budget) \<and>
     tc_halfBytes c = tc_halfBytes (newTokenCache capacity budget) \<and>
     tc_single c = (capacity < 2) \<and> (tc_single c \<longrightarrow> tc_prev c = []) \<and>
     tc_curBytes c = gen_bytes (tc_cur c) \<and>
     gen_ok sha ul plan tokens c (tc_cur c) \<and> gen_ok sha ul plan tokens c (tc_prev c)"

lemma new_cache_ok:
  assumes "inj_on sha tokens" "1 \<le> capacity" "2 * maxCachedEntryBytes \<le> budget"
  shows "cache_ok sha ul plan tokens capacity budget (newTokenCache capacity budget)"
  using assms by (auto simp: cache_ok_def newTokenCache_def gen_ok_def gen_bytes_def maxCachedEntryBytes_def)

lemma valueSize_nonneg: "0 \<le> valueSize v"
  by (simp add: valueSize_def valueOverhead_def valueAlign_def)

lemma entrySize_nonneg: "0 \<le> entrySize keys skips"
proof -
  have "0 \<le> keySize kv" for kv
    by (auto simp: keySize_def keyOverhead_def valueSize_nonneg intro!: add_nonneg_nonneg sum_list_nonneg)
  then have "0 \<le> sum_list (map keySize keys)" by (intro sum_list_nonneg) auto
  then show ?thesis by (simp add: entrySize_def entryOverhead_def skipOverhead_def mapOverhead_def)
qed

lemma entry_of_size: "0 \<le> ce_size (entry_of ul plan t)"
  by (simp add: entry_of_def newCacheEntry_def entrySize_nonneg split: prod.split)

lemma cache_halves:
  assumes "cache_ok sha ul plan tokens capacity budget c"
  shows "1 \<le> tc_half c" "maxCachedEntryBytes \<le> tc_halfBytes c"
    "tc_half c + (if tc_single c then 0 else tc_half c) \<le> capacity"
    "tc_halfBytes c + (if tc_single c then 0 else tc_halfBytes c) \<le> budget"
  using assms by (auto simp: cache_ok_def newTokenCache_def maxCachedEntryBytes_def)

lemma update_same: "map_of g h = Some e \<Longrightarrow> AList.update h e g = g"
  by (induction g) auto

lemma update_new: "map_of g h = None \<Longrightarrow> AList.update h e g = g @ [(h, e)]"
  by (induction g) auto

lemma gen_ok_lookup:
  assumes "gen_ok sha ul plan tokens c g" "inj_on sha tokens" "t \<in> tokens" "map_of g (sha t) = Some e"
  shows "e = entry_of ul plan t \<and> cacheable e"
proof -
  obtain t' where "t' \<in> tokens" "sha t = sha t'" "e = entry_of ul plan t'" "cacheable e"
    using assms(1,4) map_of_SomeD unfolding gen_ok_def by metis
  then show ?thesis using assms(2,3) by (auto dest: inj_onD)
qed

lemma gen_ok_cong: "gen_ok sha ul plan tokens c g \<Longrightarrow> tc_half c' = tc_half c \<Longrightarrow> tc_halfBytes c' = tc_halfBytes c \<Longrightarrow>
    gen_ok sha ul plan tokens c' g"
  by (simp add: gen_ok_def)

lemma rotate_ok:
  assumes "cache_ok sha ul plan tokens capacity budget c"
  shows "cache_ok sha ul plan tokens capacity budget (rotateGenerations c)"
proof -
  have halves: "0 \<le> tc_half c" "0 \<le> tc_halfBytes c"
    using cache_halves(1,2) [OF assms] by (simp_all add: maxCachedEntryBytes_def)
  then have "gen_ok sha ul plan tokens c []" by (simp add: gen_ok_def gen_bytes_def)
  then show ?thesis
    using assms unfolding cache_ok_def rotateGenerations_def
    by (auto simp: gen_bytes_def intro: gen_ok_cong)
qed

lemma insert_ok:
  assumes ok: "cache_ok sha ul plan tokens capacity budget c" and t: "t \<in> tokens" "cacheable (entry_of ul plan t)"
    and new: "map_of (tc_cur c) (sha t) = None"
    and room: "int (length (tc_cur c)) < tc_half c" "tc_curBytes c + ce_size (entry_of ul plan t) \<le> tc_halfBytes c"
  shows "cache_ok sha ul plan tokens capacity budget
    (c\<lparr>tc_curBytes := tc_curBytes c + ce_size (entry_of ul plan t), tc_cur := AList.update (sha t) (entry_of ul plan t) (tc_cur c)\<rparr>)"
proof -
  define g where "g = tc_cur c @ [(sha t, entry_of ul plan t)]"
  have gen: "gen_ok sha ul plan tokens c (tc_cur c)" and bytes: "tc_curBytes c = gen_bytes (tc_cur c)"
    using ok by (simp_all add: cache_ok_def)
  have g: "gm_ok g" "int (length g) \<le> tc_half c" "gen_bytes g = tc_curBytes c + ce_size (entry_of ul plan t)"
    using gen new room(1) by (auto simp: g_def gen_ok_def gm_ok_def map_of_eq_None_iff bytes gen_bytes_def)
  have "gen_ok sha ul plan tokens c g"
    unfolding gen_ok_def using g room(2) gen t by (auto simp: g_def gen_ok_def)
  then show ?thesis
    using ok g(3) unfolding update_new [OF new] g_def [symmetric] cache_ok_def
    by (auto intro: gen_ok_cong)
qed

lemma cache_store_ok:
  assumes ok: "cache_ok sha ul plan tokens capacity budget c" and t: "t \<in> tokens" "cacheable (entry_of ul plan t)"
  shows "cache_ok sha ul plan tokens capacity budget (cache_store (sha t) (entry_of ul plan t) c)"
proof (cases "map_of (tc_cur c) (sha t)")
  case (Some e)
  have "gen_ok sha ul plan tokens c (tc_cur c)" "inj_on sha tokens" using ok by (simp_all add: cache_ok_def)
  then have "e = entry_of ul plan t" using gen_ok_lookup t(1) Some by blast
  then have "cache_store (sha t) (entry_of ul plan t) c = c"
    using Some by (simp add: cache_store_def update_same)
  then show ?thesis using ok by simp
next
  case None
  let ?e = "entry_of ul plan t"
  let ?full = "int (length (tc_cur c)) \<ge> tc_half c \<or> tc_curBytes c + ce_size ?e > tc_halfBytes c"
  define c1 where "c1 = (if ?full then rotateGenerations c else c)"
  have c1: "cache_ok sha ul plan tokens capacity budget c1" using ok rotate_ok by (simp add: c1_def)
  have new: "map_of (tc_cur c1) (sha t) = None" using None by (simp add: c1_def rotateGenerations_def)
  have "ce_size ?e \<le> tc_halfBytes c" using t(2) cache_halves(2) [OF ok] by (simp add: cacheable_def)
  then have room: "int (length (tc_cur c1)) < tc_half c1" "tc_curBytes c1 + ce_size ?e \<le> tc_halfBytes c1"
    using cache_halves(1) [OF ok] by (auto simp: c1_def rotateGenerations_def)
  have "cache_store (sha t) ?e c =
      c1\<lparr>tc_curBytes := tc_curBytes c1 + ce_size ?e, tc_cur := AList.update (sha t) ?e (tc_cur c1)\<rparr>"
    using None by (simp add: cache_store_def c1_def Let_def)
  then show ?thesis using insert_ok [OF c1 t new room] by simp
qed

lemma cache_read_ok:
  assumes "cache_ok sha ul plan tokens capacity budget c" "t \<in> tokens" "cache_read (sha t) c = Some (e, p)"
  shows "e = entry_of ul plan t \<and> cacheable e"
  using assms gen_ok_lookup [of sha ul plan tokens c] unfolding cache_ok_def
  by (auto simp: cache_read_def split: option.splits)

interpretation token_memo: memo_table "cache_ok sha ul plan tokens capacity budget" cache_read cache_store sha
    "entry_of ul plan" cacheable tokens
  by unfold_locales (rule cache_read_ok, assumption+, rule cache_store_ok)

lemma cache_ok_bounds:
  assumes "cache_ok sha ul plan tokens capacity budget c"
  shows "int (length (tc_cur c) + length (tc_prev c)) \<le> capacity \<and> gen_bytes (tc_cur c) + gen_bytes (tc_prev c) \<le> budget"
proof -
  have "int (length (tc_cur c)) \<le> tc_half c" "gen_bytes (tc_cur c) \<le> tc_halfBytes c"
    "int (length (tc_prev c)) \<le> (if tc_single c then 0 else tc_half c)"
    "gen_bytes (tc_prev c) \<le> (if tc_single c then 0 else tc_halfBytes c)"
    using assms by (auto simp: cache_ok_def gen_ok_def gen_bytes_def)
  then show ?thesis using cache_halves(3,4) [OF assms] by linarith
qed

text \<open>
  C22. The token cache changes cost, never results, and stays within its bounds, whatever the
  interleaving. Any number of requests run against one cache, each a read, a possible promotion
  and a possible insertion, in any order of their atomic steps: every answer is what extraction
  gives for its own token, and the cache never holds more entries than its capacity or more
  estimated bytes than its budget.
\<close>
theorem token_cache_transparent:
  assumes "inj_on sha (set toks)" "1 \<le> capacity" "2 * maxCachedEntryBytes \<le> budget"
    and "(memo_step cache_read cache_store sha (entry_of ul plan) cacheable)\<^sup>*\<^sup>*
           (newTokenCache capacity budget, map Reading toks) (c, rs)"
  shows "(Answered t e \<in> set rs \<longrightarrow> (ce_keys e, ce_skips e) = Extract ul plan t) \<and>
    int (length (tc_cur c) + length (tc_prev c)) \<le> capacity \<and> gen_bytes (tc_cur c) + gen_bytes (tc_prev c) \<le> budget"
proof -
  have "list_all (answer_ok (set toks) (entry_of ul plan) cacheable) (map Reading toks)" by (simp add: list_all_iff)
  then have run: "cache_ok sha ul plan (set toks) capacity budget c"
      "list_all (answer_ok (set toks) (entry_of ul plan) cacheable) rs"
    using token_memo.run_ok [OF assms(4) new_cache_ok [OF assms(1-3)]] by auto
  have "(ce_keys e, ce_skips e) = Extract ul plan t" if "Answered t e \<in> set rs"
    using run(2) that by (force simp: list_all_iff entry_of_def newCacheEntry_def split: prod.split)
  then show ?thesis using cache_ok_bounds [OF run(1)] by blast
qed

theorem token_cache_transparent_witness:
  "\<exists>c e. (memo_step cache_read cache_store id (entry_of id direct_plan) cacheable)\<^sup>*\<^sup>*
      (newTokenCache 2 tokenCacheBytes, map Reading [sample_token]) (c, [Answered sample_token e]) \<and>
    (ce_keys e, ce_skips e) = Extract id direct_plan sample_token \<and> int (length (tc_cur c)) \<le> 2"
proof -
  let ?step = "memo_step cache_read cache_store id (entry_of id direct_plan) cacheable"
  let ?e = "entry_of id direct_plan sample_token"
  let ?c = "newTokenCache 2 tokenCacheBytes"
  have one: "?step (?c, [Reading sample_token]) (?c, [Reading sample_token][0 := Inserting sample_token ?e])"
    by (rule memo_step.miss) (simp_all add: cache_read_def newTokenCache_def)
  have "\<exists>c. ?step (?c, [Inserting sample_token ?e]) (c, [Inserting sample_token ?e][0 := Answered sample_token ?e])"
  proof (cases "cacheable ?e")
    case True
    show ?thesis by (rule exI, rule memo_step.insert) (simp_all add: True)
  next
    case False
    show ?thesis by (rule exI, rule memo_step.leave) (simp_all add: False)
  qed
  then obtain c where two: "?step (?c, [Inserting sample_token ?e]) (c, [Answered sample_token ?e])" by auto
  have run: "?step\<^sup>*\<^sup>* (?c, map Reading [sample_token]) (c, [Answered sample_token ?e])"
    using rtranclp.rtrancl_into_rtrancl [OF r_into_rtranclp [of ?step, OF one]] two by simp
  have "2 * maxCachedEntryBytes \<le> tokenCacheBytes" by (simp add: maxCachedEntryBytes_def tokenCacheBytes_def)
  then have "(ce_keys ?e, ce_skips ?e) = Extract id direct_plan sample_token \<and> int (length (tc_cur c)) \<le> 2"
    using token_cache_transparent [OF _ _ _ run, of sample_token ?e] by simp
  with run show ?thesis by blast
qed

section \<open>One request after another\<close>

text \<open>The sequential reading of the same program: the engine's own call.\<close>

definition engine_ok ::
  "(string \<Rightarrow> string) \<Rightarrow> (string \<Rightarrow> string) \<Rightarrow> string set \<Rightarrow> int \<Rightarrow> int \<Rightarrow> engine \<Rightarrow> bool" where
  "engine_ok sha ul tokens capacity budget en \<longleftrightarrow>
     (case en_cache en of None \<Rightarrow> True | Some c \<Rightarrow> cache_ok sha ul (en_plan en) tokens capacity budget c)"

lemma lookup_ok:
  assumes "cache_ok sha ul plan tokens capacity budget c" "t \<in> tokens" "lookup (sha t) c = (r, c')"
  shows "cache_ok sha ul plan tokens capacity budget c' \<and> (case r of None \<Rightarrow> c' = c | Some e \<Rightarrow> e = entry_of ul plan t)"
proof (cases "cache_read (sha t) c")
  case None
  then show ?thesis using assms by (simp add: lookup_def)
next
  case (Some ep)
  obtain e p where ep: "ep = (e, p)" by fastforce
  have e: "e = entry_of ul plan t" "cacheable e" using cache_read_ok [OF assms(1,2)] Some ep by auto
  then have "cache_ok sha ul plan tokens capacity budget (cache_store (sha t) e c)"
    using cache_store_ok [OF assms(1,2)] by simp
  then show ?thesis using assms Some ep e by (auto simp: lookup_def split: if_splits)
qed

lemma counts_simps [simp]:
  "en_snap (count_hit en) = en_snap en" "en_cache (count_hit en) = en_cache en"
  "en_snap (count_miss en) = en_snap en" "en_cache (count_miss en) = en_cache en"
  by (simp_all add: count_hit_def count_miss_def)

lemma cachedExtract_ok:
  assumes ok: "engine_ok sha ul tokens capacity budget en" and t: "token \<in> tokens"
    and r: "cachedExtract sha ul en token = (r, en')"
  shows "r = Extract ul (en_plan en) token \<and> engine_ok sha ul tokens capacity budget en' \<and> en_snap en' = en_snap en"
proof (cases "bypasses en token")
  case True
  then show ?thesis using r ok by (auto simp: cachedExtract_def)
next
  case False
  then obtain c where c: "en_cache en = Some c" by (auto simp: bypasses_def)
  then have cok: "cache_ok sha ul (en_plan en) tokens capacity budget c" using ok by (simp add: engine_ok_def)
  obtain l c' where l: "lookup (sha token) c = (l, c')" by fastforce
  obtain keys skips where x: "Extract ul (en_plan en) token = (keys, skips)" by fastforce
  have e: "entry_of ul (en_plan en) token = newCacheEntry keys skips (entrySize keys skips)"
    by (simp add: entry_of_def x)
  note lok = lookup_ok [OF cok t l]
  show ?thesis
  proof (cases l)
    case None
    have "cacheable (entry_of ul (en_plan en) token) \<Longrightarrow> cache_ok sha ul (en_plan en) tokens capacity budget
        (cache_store (sha token) (newCacheEntry keys skips (entrySize keys skips)) c')"
      using cache_store_ok [OF conjunct1 [OF lok] t] unfolding e .
    then show ?thesis
      using r False c l x None ok cok e
      by (auto simp: cachedExtract_def engine_ok_def cacheable_def newCacheEntry_def Let_def split: if_splits)
  next
    case (Some entry)
    then show ?thesis
      using r False c l x lok e by (auto simp: cachedExtract_def engine_ok_def newCacheEntry_def)
  qed
qed

end
