(* ===== verification/Engine.thy ===== *)
theory Engine
  imports Match_Rules Token_Cache
begin

text \<open>
  The engine facade (\<open>engine/engine.go\<close>): one request through extraction, matching, one store
  call and the aggregation of the verdicts. The store call is a parameter, as in the source, where
  \<open>Decide\<close> and \<open>Peek\<close> hand their own store method to the same pipeline. \<open>None\<close> is a panic. The
  index \<open>-1\<close> of the source's searches is \<open>None\<close> too.
\<close>

section \<open>Construction\<close>

definition DefaultTokenCacheSize :: int where "DefaultTokenCacheSize = 10000"

record options =
  op_tokenCache :: int
  op_stats :: "cache_stats option"

definition WithTokenCache :: "int \<Rightarrow> options \<Rightarrow> options" where
  "WithTokenCache capacity o0 = o0\<lparr>op_tokenCache := capacity\<rparr>"

definition WithCacheStats :: "cache_stats \<Rightarrow> options \<Rightarrow> options" where
  "WithCacheStats stats o0 = o0\<lparr>op_stats := Some stats\<rparr>"

definition NewEngine :: "snapshot \<Rightarrow> (options \<Rightarrow> options) list \<Rightarrow> engine" where
  "NewEngine snap opts =
     (let o1 = fold (\<lambda>f o0. f o0) opts \<lparr>op_tokenCache = DefaultTokenCacheSize, op_stats = None\<rparr> in
      \<lparr>en_snap = snap,
       en_cache = (if op_tokenCache o1 > 0 then Some (newTokenCache (op_tokenCache o1) tokenCacheBytes) else None),
       en_stats = op_stats o1\<rparr>)"

definition MaxDecisionBuckets :: nat where "MaxDecisionBuckets = MaxDomainDecisionBuckets"

section \<open>Requests and decisions\<close>

record request_msg =
  rq_Path :: string
  rq_Method :: string
  rq_Token :: string
  rq_Keys :: "string list gomap"
  rq_Cost :: int

record headers =
  hd_Block :: string
  hd_Rule :: string
  hd_Limit :: int
  hd_Remaining :: int
  hd_RetryAfter :: int
  hd_ResetAfter :: int
  hd_Cost :: int
  hd_EffectiveWindow :: int
  hd_Algorithm :: string
  hd_PeriodSeconds :: int

record rule_outcome =
  ro_Block :: string
  ro_Rule :: string
  ro_Shadow :: bool
  ro_Allowed :: bool
  ro_Cost :: int
  ro_CostExceedsCapacity :: bool
  ro_Limit :: int
  ro_Capacity :: int
  ro_Remaining :: int
  ro_RetryAfter :: int
  ro_Algorithm :: string
  ro_PeriodSeconds :: int

record decision =
  dc_Allowed :: bool
  dc_CostExceedsCapacity :: bool
  dc_Headers :: "headers option"
  dc_Rules :: "rule_outcome list"
  dc_Targeted :: bool
  dc_Skips :: "skip list"
  dc_ExtractedKeys :: "string list"

definition no_decision :: decision where
  "no_decision = \<lparr>dc_Allowed = False, dc_CostExceedsCapacity = False, dc_Headers = None, dc_Rules = [],
     dc_Targeted = False, dc_Skips = [], dc_ExtractedKeys = []\<rparr>"

section \<open>Names\<close>

definition algorithmName :: "alg_id \<Rightarrow> string" where
  "algorithmName i = (case ByID the_registry i of None \<Rightarrow> [] | Some a \<Rightarrow> lower_name (alg_Name a))"

definition keyNames :: "engine \<Rightarrow> string list gomap \<Rightarrow> string list" where
  "keyNames en keys =
     (if length keys = 0 then [] else filter (\<lambda>k. map_of keys k \<noteq> None) (sn_EffectiveKeys (en_snap en)))"

definition extractKeys ::
  "(string \<Rightarrow> string) \<Rightarrow> (string \<Rightarrow> string) \<Rightarrow> engine \<Rightarrow> request_msg \<Rightarrow> (string list gomap \<times> skip list) \<times> engine" where
  "extractKeys sha ul en req =
     (let ((extracted, skips), en1) = cachedExtract sha ul en (rq_Token req) in
      if length (rq_Keys req) = 0 then ((extracted, skips), en1)
      else
        let (explicit, explicitSkips) = Explicit ul (en_plan en) (rq_Keys req);
            skips1 = skips @ explicitSkips
        in if length explicit = 0 then ((extracted, skips1), en1)
           else ((fold (\<lambda>(k, vs) m. AList.update k vs m) explicit extracted, skips1), en1))"

section \<open>The strictest bucket\<close>

definition bucketCapacity :: "window \<Rightarrow> int" where
  "bucketCapacity w = (if Burst w > 0 then Burst w else Requests w)"

definition stricter :: "bucket list \<Rightarrow> verdict list \<Rightarrow> nat \<Rightarrow> nat \<Rightarrow> bool \<Rightarrow> bool" where
  "stricter buckets verdicts i best allowed =
     (if allowed then
        let left = mul64 (v_Remaining (verdicts ! i)) (bk_Cost (buckets ! best));
            right = mul64 (v_Remaining (verdicts ! best)) (bk_Cost (buckets ! i))
        in if left \<noteq> right then left < right else bk_Key (buckets ! i) < bk_Key (buckets ! best)
      else if v_CostExceedsCapacity (verdicts ! i) \<noteq> v_CostExceedsCapacity (verdicts ! best) then
        v_CostExceedsCapacity (verdicts ! i)
      else if \<not> v_CostExceedsCapacity (verdicts ! i) \<and>
              v_RetryAfter (verdicts ! i) \<noteq> v_RetryAfter (verdicts ! best) then
        v_RetryAfter (verdicts ! i) > v_RetryAfter (verdicts ! best)
      else bk_Key (buckets ! i) < bk_Key (buckets ! best))"

definition strictest_step ::
  "bucket list \<Rightarrow> verdict list \<Rightarrow> bool \<Rightarrow> bool \<Rightarrow> nat \<Rightarrow> nat option \<Rightarrow> nat option" where
  "strictest_step buckets verdicts allowed skipShadow i best =
     (if skipShadow \<and> bk_Shadow (buckets ! i) then best
      else if \<not> allowed \<and> v_Allowed (verdicts ! i) then best
      else (case best of
          None \<Rightarrow> Some i
        | Some b \<Rightarrow> if stricter buckets verdicts i b allowed then Some i else best))"

definition strictestIndex ::
  "bucket list \<Rightarrow> verdict list \<Rightarrow> nat \<Rightarrow> nat \<Rightarrow> bool \<Rightarrow> bool \<Rightarrow> nat option" where
  "strictestIndex buckets verdicts from to allowed skipShadow =
     fold (strictest_step buckets verdicts allowed skipShadow) [from..<to] None"

fun ruleOf :: "matched_rule list \<Rightarrow> nat \<Rightarrow> matched_rule" where
  "ruleOf [] i = \<lparr>mr_Block = [], mr_Rule = [], mr_Shadow = False, mr_Cost = 0, mr_Buckets = []\<rparr>"
| "ruleOf (m # ms) i = (if i < length (mr_Buckets m) then m else ruleOf ms (i - length (mr_Buckets m)))"

section \<open>Outcomes and headers\<close>

definition effectiveWindow :: "bucket \<Rightarrow> verdict \<Rightarrow> int option" where
  "effectiveWindow b v =
     (if v_Remaining v \<ge> bucketCapacity (bk_Window b) then Some (-1)
      else if bk_Algorithm b \<noteq> GCRAID then Some (v_ResetAfter v)
      else do {
        emission \<leftarrow> EmissionMicros (bk_Window b);
        tau \<leftarrow> TauMicros (bk_Window b);
        Some (mul64 (add64 (sub64 (quo64 (v_ResetAfter v) Microsecond) tau)
                (mul64 (add64 (v_Remaining v) 1) emission)) Microsecond) })"

definition ruleOutcome :: "bucket list \<Rightarrow> verdict list \<Rightarrow> matched_rule \<Rightarrow> nat \<Rightarrow> rule_outcome" where
  "ruleOutcome buckets verdicts m from =
     (let to = from + length (mr_Buckets m);
          allowed = list_all (\<lambda>j. v_Allowed (verdicts ! j)) [from..<to];
          exceeds = list_ex (\<lambda>j. \<not> v_Allowed (verdicts ! j) \<and> v_CostExceedsCapacity (verdicts ! j)) [from..<to];
          base = \<lparr>ro_Block = mr_Block m, ro_Rule = mr_Rule m, ro_Shadow = mr_Shadow m, ro_Allowed = allowed,
                  ro_Cost = mr_Cost m, ro_CostExceedsCapacity = exceeds, ro_Limit = 0, ro_Capacity = 0,
                  ro_Remaining = 0, ro_RetryAfter = 0, ro_Algorithm = [], ro_PeriodSeconds = 0\<rparr>
      in case strictestIndex buckets verdicts from to allowed False of
           None \<Rightarrow> base
         | Some best \<Rightarrow>
             base\<lparr>ro_Limit := Requests (bk_Window (buckets ! best)),
                  ro_Capacity := bucketCapacity (bk_Window (buckets ! best)),
                  ro_Remaining := v_Remaining (verdicts ! best),
                  ro_RetryAfter := v_RetryAfter (verdicts ! best),
                  ro_Algorithm := algorithmName (bk_Algorithm (buckets ! best)),
                  ro_PeriodSeconds := quo64 (Period (bk_Window (buckets ! best))) Second\<rparr>)"

fun ruleOutcomes_loop :: "bucket list \<Rightarrow> verdict list \<Rightarrow> nat \<Rightarrow> matched_rule list \<Rightarrow> rule_outcome list" where
  "ruleOutcomes_loop buckets verdicts i [] = []"
| "ruleOutcomes_loop buckets verdicts i (m # ms) =
     ruleOutcome buckets verdicts m i # ruleOutcomes_loop buckets verdicts (i + length (mr_Buckets m)) ms"

definition ruleOutcomes :: "matched_rule list \<Rightarrow> bucket list \<Rightarrow> verdict list \<Rightarrow> rule_outcome list" where
  "ruleOutcomes matched buckets verdicts = ruleOutcomes_loop buckets verdicts 0 matched"

definition aggregate ::
  "matched_rule list \<Rightarrow> bucket list \<Rightarrow> verdict list \<Rightarrow> bool \<Rightarrow> (headers option \<times> bool) option" where
  "aggregate matched buckets verdicts allowed =
     (let costExceeds = (\<not> allowed \<and>
            list_ex (\<lambda>i. \<not> bk_Shadow (buckets ! i) \<and> v_CostExceedsCapacity (verdicts ! i)) [0..<length buckets])
      in case strictestIndex buckets verdicts 0 (length buckets) allowed True of
           None \<Rightarrow> Some (None, False)
         | Some best \<Rightarrow> do {
             let owner = ruleOf matched best;
             window \<leftarrow> effectiveWindow (buckets ! best) (verdicts ! best);
             let h = \<lparr>hd_Block = mr_Block owner, hd_Rule = mr_Rule owner,
                      hd_Limit = Requests (bk_Window (buckets ! best)),
                      hd_Remaining = v_Remaining (verdicts ! best),
                      hd_RetryAfter = v_RetryAfter (verdicts ! best),
                      hd_ResetAfter = v_ResetAfter (verdicts ! best),
                      hd_Cost = bk_Cost (buckets ! best),
                      hd_EffectiveWindow = window,
                      hd_Algorithm = algorithmName (bk_Algorithm (buckets ! best)),
                      hd_PeriodSeconds = quo64 (Period (bk_Window (buckets ! best))) Second\<rparr>;
             Some (Some (if costExceeds then h\<lparr>hd_RetryAfter := -1\<rparr> else h), costExceeds) })"

section \<open>The pipeline\<close>

definition evaluate ::
  "(string \<Rightarrow> string) \<Rightarrow> (string \<Rightarrow> string) \<Rightarrow> ('s \<Rightarrow> bucket list \<Rightarrow> verdict list result \<times> 's) \<Rightarrow>
     engine \<Rightarrow> 's \<Rightarrow> request_msg \<Rightarrow> (decision result \<times> engine \<times> 's) option" where
  "evaluate sha ul judge en st req =
     (let cost = (if rq_Cost req = 0 then 1 else rq_Cost req);
          cands = Match (en_snap en) (rq_Path req) (rq_Method req)
      in if Empty cands then Some (Inr (no_decision\<lparr>dc_Allowed := True\<rparr>), en, st)
         else do {
           let ((keys, skips), en1) = extractKeys sha ul en req;
           matched \<leftarrow> Evaluate cands keys cost;
           let buckets = Buckets matched;
           if length buckets = 0 then
             Some (Inr (no_decision\<lparr>dc_Allowed := True, dc_Targeted := True, dc_Skips := skips,
                     dc_ExtractedKeys := keyNames en keys\<rparr>), en1, st)
           else if length buckets > MaxDecisionBuckets then
             Some (Inl (Errorf ''%w: the request matched %d buckets''
                     [FStr ''engine: the decision exceeds the bucket budget'', FInt (int (length buckets))]), en1, st)
           else
             (case judge st buckets of
                (Inl err, st1) \<Rightarrow> Some (Inl err, en1, st1)
              | (Inr verdicts, st1) \<Rightarrow> do {
                  allowed \<leftarrow> Admitted buckets verdicts;
                  (hs, costExceeds) \<leftarrow> aggregate matched buckets verdicts allowed;
                  Some (Inr \<lparr>dc_Allowed = allowed, dc_CostExceedsCapacity = costExceeds, dc_Headers = hs,
                         dc_Rules = ruleOutcomes matched buckets verdicts, dc_Targeted = True, dc_Skips = skips,
                         dc_ExtractedKeys = keyNames en keys\<rparr>, en1, st1) })
         })"

text \<open>The engine over the in-memory store, whose clock reads \<open>nowUS\<close> at the call.\<close>

definition Engine_Decide ::
  "(string \<Rightarrow> string) \<Rightarrow> (string \<Rightarrow> string) \<Rightarrow> int \<Rightarrow> engine \<Rightarrow> mem \<Rightarrow> request_msg \<Rightarrow> (decision result \<times> engine \<times> mem) option" where
  "Engine_Decide sha ul nowUS en st req = evaluate sha ul (\<lambda>m bs. Decide m nowUS bs) en st req"

definition Engine_Peek ::
  "(string \<Rightarrow> string) \<Rightarrow> (string \<Rightarrow> string) \<Rightarrow> int \<Rightarrow> engine \<Rightarrow> mem \<Rightarrow> request_msg \<Rightarrow> (decision result \<times> engine \<times> mem) option" where
  "Engine_Peek sha ul nowUS en st req = evaluate sha ul (\<lambda>m bs. Peek m nowUS bs) en st req"

end
