(* ===== verification/Engine_Strictest.thy ===== *)
theory Engine_Strictest
  imports Engine
begin

text \<open>
  The aggregation of the engine (\<open>stricter\<close>, \<open>strictestIndex\<close>, \<open>ruleOf\<close>, \<open>ruleOutcomes\<close>): the
  bucket behind the response headers is the one that binds the client hardest, by exact ratios,
  and the outcome of each rule is the outcome of its own buckets.
\<close>

section \<open>Selecting a least element\<close>

definition select_step :: "('a \<Rightarrow> bool) \<Rightarrow> ('a \<Rightarrow> 'a \<Rightarrow> bool) \<Rightarrow> 'a \<Rightarrow> 'a option \<Rightarrow> 'a option" where
  "select_step elig lt i best =
     (if elig i then (case best of None \<Rightarrow> Some i | Some b \<Rightarrow> if lt i b then Some i else best) else best)"

lemma select_least:
  assumes trans: "\<And>a b c. a \<in> A \<Longrightarrow> b \<in> A \<Longrightarrow> c \<in> A \<Longrightarrow> lt a b \<Longrightarrow> lt b c \<Longrightarrow> lt a c"
    and total: "\<And>a b. a \<in> A \<Longrightarrow> b \<in> A \<Longrightarrow> a \<noteq> b \<Longrightarrow> lt a b \<or> lt b a"
    and "{x \<in> set xs. elig x} \<subseteq> A"
  shows "case fold (select_step elig lt) xs None of
      None \<Rightarrow> \<forall>x\<in>set xs. \<not> elig x
    | Some b \<Rightarrow> b \<in> set xs \<and> elig b \<and> (\<forall>x\<in>set xs. elig x \<longrightarrow> x \<noteq> b \<longrightarrow> lt b x)"
  using assms(3)
proof (induction xs rule: rev_induct)
  case (snoc x xs)
  have IH: "case fold (select_step elig lt) xs None of
      None \<Rightarrow> \<forall>x\<in>set xs. \<not> elig x
    | Some b \<Rightarrow> b \<in> set xs \<and> elig b \<and> (\<forall>x\<in>set xs. elig x \<longrightarrow> x \<noteq> b \<longrightarrow> lt b x)"
    using snoc by fastforce
  show ?case
  proof (cases "fold (select_step elig lt) xs None")
    case None
    then have fx: "fold (select_step elig lt) (xs @ [x]) None = (if elig x then Some x else None)"
      by (simp add: select_step_def [of elig lt x])
    show ?thesis unfolding fx using IH None by auto
  next
    case (Some b)
    then have fx: "fold (select_step elig lt) (xs @ [x]) None = (if elig x \<and> lt x b then Some x else Some b)"
      by (simp add: select_step_def [of elig lt x])
    have b: "b \<in> set xs" "elig b" "b \<in> A" "\<forall>y\<in>set xs. elig y \<longrightarrow> y \<noteq> b \<longrightarrow> lt b y"
      using IH Some snoc.prems by auto
    have x: "elig x \<Longrightarrow> x \<in> A" using snoc.prems by auto
    have y: "y \<in> A" if "y \<in> set xs" "elig y" for y using that snoc.prems by auto
    consider "\<not> elig x" | "elig x" "lt x b" | "elig x" "\<not> lt x b" by blast
    then show ?thesis
    proof cases
      case 2
      then have "lt x y" if "y \<in> set xs" "elig y" for y
        using trans [OF x b(3) y] that b(4) by (cases "y = b") auto
      then show ?thesis unfolding fx using 2 by auto
    next
      case 3
      then show ?thesis unfolding fx using b total [OF b(3) x] by auto
    qed (use b in \<open>auto simp: fx simp del: fold_append\<close>)
  qed
qed simp

section \<open>What binds harder\<close>

text \<open>
  On allow, fewer further requests at the bucket's own cost, as an exact comparison of the ratios
  of remaining to cost. On refusal, a cost that never fits before one that waiting cures, then the
  longer wait. The smaller key on a tie.
\<close>

definition tighter :: "bucket list \<Rightarrow> verdict list \<Rightarrow> bool \<Rightarrow> nat \<Rightarrow> nat \<Rightarrow> bool" where
  "tighter bs vs allowed i j \<longleftrightarrow>
     (let ki = bk_Key (bs ! i); kj = bk_Key (bs ! j); vi = vs ! i; vj = vs ! j in
      if allowed then
        let l = v_Remaining vi * bk_Cost (bs ! j); r = v_Remaining vj * bk_Cost (bs ! i)
        in l < r \<or> l = r \<and> ki < kj
      else
        v_CostExceedsCapacity vi \<and> \<not> v_CostExceedsCapacity vj \<or>
        v_CostExceedsCapacity vi = v_CostExceedsCapacity vj \<and>
          (if v_CostExceedsCapacity vi then ki < kj
           else v_RetryAfter vj < v_RetryAfter vi \<or> v_RetryAfter vi = v_RetryAfter vj \<and> ki < kj))"

text \<open>The numbers of a bucket that admitted its cost, within a window capacity below \<open>2 ^ 31\<close>.\<close>

definition small :: "bucket list \<Rightarrow> verdict list \<Rightarrow> nat \<Rightarrow> bool" where
  "small bs vs i \<longleftrightarrow> 0 \<le> v_Remaining (vs ! i) \<and> v_Remaining (vs ! i) < 2 ^ 31 \<and>
     1 \<le> bk_Cost (bs ! i) \<and> bk_Cost (bs ! i) < 2 ^ 31"

lemma product_small:
  assumes "0 \<le> a" "a < (2 :: int) ^ 31" "1 \<le> b" "b < 2 ^ 31"
  shows "mul64 a b = a * b"
proof -
  have "a * b \<le> 2 ^ 31 * 2 ^ 31" using assms by (intro mult_mono) auto
  moreover have "0 \<le> a * b" using assms by simp
  ultimately show ?thesis by (simp add: i64 in64_def)
qed

lemma stricter_tighter:
  assumes "allowed \<Longrightarrow> small bs vs i \<and> small bs vs j"
  shows "stricter bs vs i j allowed = tighter bs vs allowed i j"
proof (cases allowed)
  case True
  then have "mul64 (v_Remaining (vs ! i)) (bk_Cost (bs ! j)) = v_Remaining (vs ! i) * bk_Cost (bs ! j)"
    "mul64 (v_Remaining (vs ! j)) (bk_Cost (bs ! i)) = v_Remaining (vs ! j) * bk_Cost (bs ! i)"
    using assms by (auto simp: small_def intro!: product_small)
  then show ?thesis using True by (simp add: stricter_def tighter_def Let_def)
next
  case False
  then show ?thesis by (auto simp: stricter_def tighter_def Let_def)
qed

lemma ratio_trans:
  fixes a b c p q r :: int
  assumes "0 < p" "0 < q" "0 < r" "a * q \<le> b * p" "b * r \<le> c * q"
  shows "a * r \<le> c * p" "a * q < b * p \<or> b * r < c * q \<Longrightarrow> a * r < c * p"
proof -
  have 1: "(a * q) * r \<le> (b * p) * r" using assms by (simp add: mult_right_mono)
  have 2: "(b * r) * p \<le> (c * q) * p" using assms by (simp add: mult_right_mono)
  have "q * (a * r) \<le> q * (c * p)" using 1 2 by (simp add: ac_simps)
  then show "a * r \<le> c * p" using assms(2) by simp
  assume "a * q < b * p \<or> b * r < c * q"
  then have "(a * q) * r < (b * p) * r \<or> (b * r) * p < (c * q) * p" using assms by simp
  then have "q * (a * r) < q * (c * p)" using 1 2 by (auto simp: ac_simps)
  then show "a * r < c * p" using assms(2) by simp
qed

lemma tighter_trans:
  assumes "allowed \<Longrightarrow> 0 < bk_Cost (bs ! i) \<and> 0 < bk_Cost (bs ! j) \<and> 0 < bk_Cost (bs ! k)"
    and "tighter bs vs allowed i j" "tighter bs vs allowed j k"
  shows "tighter bs vs allowed i k"
proof (cases allowed)
  case True
  define a b c where "a = v_Remaining (vs ! i)" and "b = v_Remaining (vs ! j)" and "c = v_Remaining (vs ! k)"
  define p q r where "p = bk_Cost (bs ! i)" and "q = bk_Cost (bs ! j)" and "r = bk_Cost (bs ! k)"
  have pos: "0 < p" "0 < q" "0 < r" using assms(1) True by (simp_all add: p_def q_def r_def)
  have ij: "a * q < b * p \<or> a * q = b * p \<and> bk_Key (bs ! i) < bk_Key (bs ! j)"
    and jk: "b * r < c * q \<or> b * r = c * q \<and> bk_Key (bs ! j) < bk_Key (bs ! k)"
    using assms(2,3) True by (auto simp: tighter_def Let_def a_def b_def c_def p_def q_def r_def)
  have le: "a * q \<le> b * p" "b * r \<le> c * q" using ij jk by auto
  have "a * r < c * p \<or> a * r = c * p \<and> bk_Key (bs ! i) < bk_Key (bs ! k)"
    using ratio_trans [OF pos le] ij jk by force
  then show ?thesis using True by (auto simp: tighter_def Let_def a_def c_def p_def r_def)
next
  case False
  then show ?thesis using assms(2,3) by (auto simp: tighter_def Let_def split: if_splits)
qed

lemma tighter_total:
  assumes "bk_Key (bs ! i) \<noteq> bk_Key (bs ! j)"
  shows "tighter bs vs allowed i j \<or> tighter bs vs allowed j i"
  using assms by (cases "bk_Key (bs ! i) < bk_Key (bs ! j)") (auto simp: tighter_def Let_def)

section \<open>The strictest bucket\<close>

definition eligible :: "bucket list \<Rightarrow> verdict list \<Rightarrow> bool \<Rightarrow> bool \<Rightarrow> nat \<Rightarrow> bool" where
  "eligible bs vs allowed skipShadow i \<longleftrightarrow>
     \<not> (skipShadow \<and> bk_Shadow (bs ! i)) \<and> (allowed \<or> \<not> v_Allowed (vs ! i))"

lemma strictest_fold:
  assumes "\<And>i. i \<in> set is \<Longrightarrow> allowed \<Longrightarrow> eligible bs vs allowed skipShadow i \<Longrightarrow> small bs vs i"
  shows "fold (strictest_step bs vs allowed skipShadow) is None =
      fold (select_step (eligible bs vs allowed skipShadow) (tighter bs vs allowed)) is None \<and>
    (\<forall>b. fold (strictest_step bs vs allowed skipShadow) is None = Some b \<longrightarrow>
      b \<in> set is \<and> eligible bs vs allowed skipShadow b)"
  using assms
proof (induction "is" rule: rev_induct)
  case (snoc i "is")
  define f where "f = fold (strictest_step bs vs allowed skipShadow) is None"
  have "f = fold (select_step (eligible bs vs allowed skipShadow) (tighter bs vs allowed)) is None \<and>
      (\<forall>b. f = Some b \<longrightarrow> b \<in> set is \<and> eligible bs vs allowed skipShadow b)"
    unfolding f_def by (rule snoc.IH) (rule snoc.prems, simp_all)
  then have IH: "f = fold (select_step (eligible bs vs allowed skipShadow) (tighter bs vs allowed)) is None"
    "f = Some b \<Longrightarrow> b \<in> set is \<and> eligible bs vs allowed skipShadow b" for b by blast+
  have "stricter bs vs i b allowed = tighter bs vs allowed i b"
    if "f = Some b" "eligible bs vs allowed skipShadow i" for b
    using IH(2) [OF that(1)] that(2) snoc.prems [of i] snoc.prems [of b] by (intro stricter_tighter) auto
  then have same: "strictest_step bs vs allowed skipShadow i f =
      select_step (eligible bs vs allowed skipShadow) (tighter bs vs allowed) i f"
    by (auto simp: strictest_step_def select_step_def eligible_def split: option.split)
  have found: "b \<in> set (is @ [i]) \<and> eligible bs vs allowed skipShadow b"
    if "strictest_step bs vs allowed skipShadow i f = Some b" for b
    using that IH(2) [of b] unfolding strictest_step_def eligible_def
    by (cases f) (auto split: if_splits)
  have "fold (strictest_step bs vs allowed skipShadow) (is @ [i]) None = strictest_step bs vs allowed skipShadow i f"
    "fold (select_step (eligible bs vs allowed skipShadow) (tighter bs vs allowed)) (is @ [i]) None =
      select_step (eligible bs vs allowed skipShadow) (tighter bs vs allowed) i f"
    by (simp_all add: f_def [symmetric] IH(1) [symmetric])
  then show ?case using same found by presburger
qed simp

text \<open>
  The headers and the rule outcomes are computed from the bucket that binds hardest. The
  search finds a bucket whenever one is eligible, enforcing where shadows are skipped and refusing
  where the decision refused; and the bucket it finds beats every other eligible one by the exact
  order, remaining over cost on allow, hopeless before waiting and the longer wait on refusal, and
  the smaller key on a tie, so every replica picks the same one. The products of the comparison do
  not overflow for costs and remainders below \<open>2 ^ 31\<close>.
\<close>
theorem strictestIndex_binds:
  assumes "distinct (map bk_Key bs)" "to \<le> length bs"
    and "\<And>i. i \<in> {from..<to} \<Longrightarrow> allowed \<Longrightarrow> eligible bs vs allowed skipShadow i \<Longrightarrow> small bs vs i"
  shows "case strictestIndex bs vs from to allowed skipShadow of
      None \<Rightarrow> \<forall>i\<in>{from..<to}. \<not> eligible bs vs allowed skipShadow i
    | Some b \<Rightarrow> b \<in> {from..<to} \<and> eligible bs vs allowed skipShadow b \<and>
        (\<forall>i\<in>{from..<to}. eligible bs vs allowed skipShadow i \<longrightarrow> i \<noteq> b \<longrightarrow> tighter bs vs allowed b i)"
proof -
  let ?elig = "eligible bs vs allowed skipShadow"
  let ?A = "{i. i \<in> {from..<to} \<and> ?elig i}"
  have pos: "0 < bk_Cost (bs ! i)" if "i \<in> ?A" "allowed" for i
    using assms(3) [of i] that by (auto simp: small_def)
  have fold_eq: "strictestIndex bs vs from to allowed skipShadow = fold (select_step ?elig (tighter bs vs allowed)) [from..<to] None"
    using strictest_fold [of "[from..<to]" allowed bs vs skipShadow] assms(3) by (simp add: strictestIndex_def)
  have "case fold (select_step ?elig (tighter bs vs allowed)) [from..<to] None of
      None \<Rightarrow> \<forall>x\<in>set [from..<to]. \<not> ?elig x
    | Some b \<Rightarrow> b \<in> set [from..<to] \<and> ?elig b \<and> (\<forall>x\<in>set [from..<to]. ?elig x \<longrightarrow> x \<noteq> b \<longrightarrow> tighter bs vs allowed b x)"
  proof (rule select_least [where A = ?A])
    fix i j k assume "i \<in> ?A" "j \<in> ?A" "k \<in> ?A" "tighter bs vs allowed i j" "tighter bs vs allowed j k"
    then show "tighter bs vs allowed i k" using pos by (intro tighter_trans [of allowed bs i j k]) blast+
  next
    fix i j assume ij: "i \<in> ?A" "j \<in> ?A" "i \<noteq> j"
    then have "bk_Key (bs ! i) \<noteq> bk_Key (bs ! j)"
      using assms(1,2) by (auto simp: distinct_conv_nth)
    then show "tighter bs vs allowed i j \<or> tighter bs vs allowed j i" by (rule tighter_total)
  qed auto
  then show ?thesis unfolding fold_eq set_upt .
qed

definition sample_verdict :: "int \<Rightarrow> verdict" where
  "sample_verdict n = \<lparr>v_Allowed = True, v_Remaining = n, v_CostExceedsCapacity = False, v_RetryAfter = -1, v_ResetAfter = 0\<rparr>"

theorem strictestIndex_binds_witness:
  "strictestIndex [sample_minute\<lparr>bk_Cost := 100\<rparr>, sample_day\<lparr>bk_Cost := 1\<rparr>] [sample_verdict 500, sample_verdict 30] 0 2 True True = Some 0 \<and>
   tighter [sample_minute\<lparr>bk_Cost := 100\<rparr>, sample_day\<lparr>bk_Cost := 1\<rparr>] [sample_verdict 500, sample_verdict 30] True 0 1"
proof -
  let ?bs = "[sample_minute\<lparr>bk_Cost := 100\<rparr>, sample_day\<lparr>bk_Cost := 1\<rparr>]"
  let ?vs = "[sample_verdict 500, sample_verdict 30]"
  have found: "strictestIndex ?bs ?vs 0 2 True True = Some 0" by code_simp
  have "distinct (map bk_Key ?bs)" by code_simp
  moreover have "small ?bs ?vs i" if "i \<in> {0..<2}" for i
    using that by (auto simp: small_def sample_verdict_def less_2_cases_iff)
  moreover have "eligible ?bs ?vs True True 1" by code_simp
  ultimately show ?thesis using strictestIndex_binds [of ?bs 2 0 True ?vs True] found by simp
qed

section \<open>The rule behind a bucket\<close>

lemma ruleOf_owner:
  "i < length (Buckets ms) \<Longrightarrow> ruleOf ms i \<in> set ms \<and> Buckets ms ! i \<in> set (mr_Buckets (ruleOf ms i))"
  by (induction ms i rule: ruleOf.induct) (auto simp: Buckets_def nth_append)

definition shadows_agree :: "matched_rule list \<Rightarrow> bool" where
  "shadows_agree ms \<longleftrightarrow> (\<forall>m\<in>set ms. \<forall>b\<in>set (mr_Buckets m). bk_Shadow b = mr_Shadow m \<and> bk_Cost b = mr_Cost m)"

lemma Evaluate_shadows: "Evaluate c keys cost = Some ms \<Longrightarrow> shadows_agree ms"
  by (auto simp: Evaluate_rules match_rules_def shadows_agree_def applied_def rule_bucket_def)

lemma ruleOutcome_fields:
  "ro_Shadow (ruleOutcome bs vs m i) = mr_Shadow m"
  "ro_Allowed (ruleOutcome bs vs m i) = (\<forall>k < length (mr_Buckets m). v_Allowed (vs ! (i + k)))"
  "ro_Block (ruleOutcome bs vs m i) = mr_Block m" "ro_Rule (ruleOutcome bs vs m i) = mr_Rule m"
  "ro_Cost (ruleOutcome bs vs m i) = mr_Cost m"
proof -
  have "list_all (\<lambda>j. v_Allowed (vs ! j)) [i..<i + length (mr_Buckets m)] =
      (\<forall>k < length (mr_Buckets m). v_Allowed (vs ! (i + k)))"
    by (simp add: list_all_length)
  then show "ro_Allowed (ruleOutcome bs vs m i) = (\<forall>k < length (mr_Buckets m). v_Allowed (vs ! (i + k)))"
    by (simp add: ruleOutcome_def Let_def split: option.split)
qed (simp_all add: ruleOutcome_def Let_def split: option.split)

lemma outcomes_allowed:
  "shadows_agree ms \<Longrightarrow>
     list_all (\<lambda>o1. ro_Shadow o1 \<or> ro_Allowed o1) (ruleOutcomes_loop bs vs i ms) \<longleftrightarrow>
     (\<forall>k < length (Buckets ms). bk_Shadow (Buckets ms ! k) \<or> v_Allowed (vs ! (i + k)))"
proof (induction ms arbitrary: i)
  case (Cons m ms)
  let ?n = "length (mr_Buckets m)"
  have IH: "list_all (\<lambda>o1. ro_Shadow o1 \<or> ro_Allowed o1) (ruleOutcomes_loop bs vs (i + ?n) ms) \<longleftrightarrow>
      (\<forall>k < length (Buckets ms). bk_Shadow (Buckets ms ! k) \<or> v_Allowed (vs ! (i + ?n + k)))"
    using Cons by (simp add: shadows_agree_def)
  have here: "bk_Shadow (mr_Buckets m ! k) = mr_Shadow m" if "k < ?n" for k
    using Cons.prems that by (simp add: shadows_agree_def)
  have split: "(\<forall>k < ?n + l. P k) \<longleftrightarrow> (\<forall>k < ?n. P k) \<and> (\<forall>k < l. P (?n + k))" for P and l :: nat
    by (auto, metis le_add_diff_inverse nat_add_left_cancel_less not_less)
  have b: "Buckets (m # ms) = mr_Buckets m @ Buckets ms" by (simp add: Buckets_def)
  show ?case unfolding b length_append split
    using IH here by (auto simp: ruleOutcome_fields nth_append add.assoc)
qed (simp add: Buckets_def)

lemma outcomes_length: "map (\<lambda>o1. (ro_Block o1, ro_Rule o1)) (ruleOutcomes_loop bs vs i ms) = map (\<lambda>m. (mr_Block m, mr_Rule m)) ms"
  by (induction ms arbitrary: i) (simp_all add: ruleOutcome_fields)

end
