(* ===== verification/Engine_Pipeline.thy ===== *)
theory Engine_Pipeline
  imports Engine_Strictest
begin

text \<open>
  The whole request path (\<open>evaluate\<close> of \<open>engine/engine.go\<close>) over the compiler, the matcher and
  the in-memory store: what a decision means, that it is always reached, and what a peek shares
  with it.
\<close>

section \<open>The three ways to a decision\<close>

abbreviation cost_of :: "request_msg \<Rightarrow> int" where
  "cost_of req \<equiv> (if rq_Cost req = 0 then 1 else rq_Cost req)"

abbreviation cands_of :: "engine \<Rightarrow> request_msg \<Rightarrow> candidates" where
  "cands_of en req \<equiv> Match (en_snap en) (rq_Path req) (rq_Method req)"

text \<open>The keys the matcher sees, and the buckets the request collects.\<close>

definition keys_of :: "(string \<Rightarrow> string) \<Rightarrow> (string \<Rightarrow> string) \<Rightarrow> engine \<Rightarrow> request_msg \<Rightarrow> string list gomap" where
  "keys_of sha ul en req = fst (fst (extractKeys sha ul en req))"

definition rules_of :: "(string \<Rightarrow> string) \<Rightarrow> (string \<Rightarrow> string) \<Rightarrow> engine \<Rightarrow> request_msg \<Rightarrow> matched_rule list" where
  "rules_of sha ul en req =
     (if Empty (cands_of en req) then []
      else the (Evaluate (cands_of en req) (keys_of sha ul en req) (cost_of req)))"

abbreviation buckets_of :: "(string \<Rightarrow> string) \<Rightarrow> (string \<Rightarrow> string) \<Rightarrow> engine \<Rightarrow> request_msg \<Rightarrow> bucket list" where
  "buckets_of sha ul en req \<equiv> Buckets (rules_of sha ul en req)"

lemma Evaluate_rules_of:
  "\<not> Empty (cands_of en req) \<Longrightarrow>
     Evaluate (cands_of en req) (keys_of sha ul en req) (cost_of req) = Some (rules_of sha ul en req)"
  by (simp add: rules_of_def Evaluate_rules)

lemma rules_of_shadows: "shadows_agree (rules_of sha ul en req)"
proof (cases "Empty (cands_of en req)")
  case False
  then show ?thesis using Evaluate_rules_of Evaluate_shadows by blast
qed (simp add: rules_of_def shadows_agree_def)

definition untouched :: "(string \<Rightarrow> string) \<Rightarrow> (string \<Rightarrow> string) \<Rightarrow> engine \<Rightarrow> request_msg \<Rightarrow> decision" where
  "untouched sha ul en req =
     (if Empty (cands_of en req) then no_decision\<lparr>dc_Allowed := True\<rparr>
      else no_decision\<lparr>dc_Allowed := True, dc_Targeted := True, dc_Skips := snd (fst (extractKeys sha ul en req)),
             dc_ExtractedKeys := keyNames en (keys_of sha ul en req)\<rparr>)"

lemma evaluate_no_buckets:
  assumes "buckets_of sha ul en req = []"
  shows "\<exists>en'. evaluate sha ul judge en st req = Some (Inr (untouched sha ul en req), en', st)"
proof (cases "Empty (cands_of en req)")
  case True
  then show ?thesis by (simp add: evaluate_def untouched_def)
next
  case False
  obtain ks sk en1 where x: "extractKeys sha ul en req = ((ks, sk), en1)" by (metis surj_pair)
  have "keys_of sha ul en req = ks" by (simp add: keys_of_def x)
  then show ?thesis
    using False assms Evaluate_rules_of [OF False, of sha ul] x
    by (simp add: evaluate_def untouched_def Let_def)
qed

lemma evaluate_buckets:
  assumes "buckets_of sha ul en req \<noteq> []" "length (buckets_of sha ul en req) \<le> MaxDecisionBuckets"
  shows "\<exists>en'. evaluate sha ul judge en st req =
    (case judge st (buckets_of sha ul en req) of
       (Inl err, st1) \<Rightarrow> Some (Inl err, en', st1)
     | (Inr vs, st1) \<Rightarrow> do {
         allowed \<leftarrow> Admitted (buckets_of sha ul en req) vs;
         (hs, exceeds) \<leftarrow> aggregate (rules_of sha ul en req) (buckets_of sha ul en req) vs allowed;
         Some (Inr \<lparr>dc_Allowed = allowed, dc_CostExceedsCapacity = exceeds, dc_Headers = hs,
           dc_Rules = ruleOutcomes (rules_of sha ul en req) (buckets_of sha ul en req) vs, dc_Targeted = True,
           dc_Skips = snd (fst (extractKeys sha ul en req)),
           dc_ExtractedKeys = keyNames en (keys_of sha ul en req)\<rparr>, en', st1) })"
proof -
  have ne: "\<not> Empty (cands_of en req)" using assms(1) by (auto simp: rules_of_def Buckets_def)
  obtain ks sk en1 where x: "extractKeys sha ul en req = ((ks, sk), en1)" by (metis surj_pair)
  have ks: "keys_of sha ul en req = ks" by (simp add: keys_of_def x)
  show ?thesis
    using ne assms Evaluate_rules_of [OF ne, of sha ul] unfolding ks x fst_conv snd_conv
    by (intro exI [of _ en1]) (simp add: evaluate_def x Let_def)
qed

lemma rules_of_compiled:
  assumes "snapshot_ok namespace (en_snap en)"
  shows "length (buckets_of sha ul en req) \<le> MaxDecisionBuckets" "distinct (map bk_Key (buckets_of sha ul en req))"
    and "snapshot_typed (en_snap en) \<Longrightarrow> 0 \<le> rq_Cost req \<Longrightarrow> in64 (rq_Cost req) \<Longrightarrow>
      b \<in> set (buckets_of sha ul en req) \<Longrightarrow> bucket_ok b"
proof -
  have E: "\<not> Empty (cands_of en req) \<Longrightarrow>
      Evaluate (cands_of en req) (keys_of sha ul en req) (cost_of req) = Some (rules_of sha ul en req)"
    by (rule Evaluate_rules_of)
  have none: "Empty (cands_of en req) \<Longrightarrow> buckets_of sha ul en req = []" by (simp add: rules_of_def Buckets_def)
  show "length (buckets_of sha ul en req) \<le> MaxDecisionBuckets"
    using none Evaluate_budget [OF E] assms by (cases "Empty (cands_of en req)") (auto simp: snapshot_ok_def MaxDecisionBuckets_def)
  show "distinct (map bk_Key (buckets_of sha ul en req))"
    using none match_keys_distinct [OF assms E] by (cases "Empty (cands_of en req)") auto
  assume t: "snapshot_typed (en_snap en)" "0 \<le> rq_Cost req" "in64 (rq_Cost req)" "b \<in> set (buckets_of sha ul en req)"
  then have "\<not> Empty (cands_of en req)" using none by auto
  moreover have "1 \<le> cost_of req" "in64 (cost_of req)" using t(2,3) by (auto simp: in64_def)
  ultimately show "bucket_ok b" using match_buckets_ok [OF assms t(1) _ _ E t(4)] by blast
qed

lemma effectiveWindow_defined:
  assumes "bucket_ok b"
  shows "\<exists>x. effectiveWindow b v = Some x"
proof (cases "bk_Algorithm b = GCRAID")
  case True
  then have "gcra_ok (bk_Window b)" using assms ids_distinct(1) unfolding bucket_ok_def Check_gcra_iff by metis
  from gcra_ok_numbers(1,2) [OF this] True show ?thesis by (simp add: effectiveWindow_def)
next
  case False
  then show ?thesis by (simp add: effectiveWindow_def)
qed

lemma strictest_in_range:
  "fold (strictest_step bs vs allowed skipShadow) is best = Some b \<Longrightarrow> best = Some b \<or> b \<in> set is"
proof (induction "is" arbitrary: best)
  case (Cons i "is")
  have "strictest_step bs vs allowed skipShadow i best = Some b \<Longrightarrow> best = Some b \<or> b = i"
    by (cases best) (auto simp: strictest_step_def split: if_splits)
  then show ?case using Cons.IH [of "strictest_step bs vs allowed skipShadow i best"] Cons.prems by auto
qed simp

lemma strictestIndex_range: "strictestIndex bs vs from to allowed skipShadow = Some b \<Longrightarrow> from \<le> b \<and> b < to"
  using strictest_in_range [of bs vs allowed skipShadow "[from..<to]" None b] by (auto simp: strictestIndex_def)

lemma aggregate_defined:
  assumes "\<forall>b \<in> set bs. bucket_ok b"
  shows "\<exists>hs exceeds. aggregate ms bs vs allowed = Some (hs, exceeds)"
proof (cases "strictestIndex bs vs 0 (length bs) allowed True")
  case None
  then show ?thesis by (intro exI [of _ None] exI [of _ False]) (simp add: aggregate_def)
next
  case (Some best)
  then have "bs ! best \<in> set bs" using strictestIndex_range [OF Some] by simp
  then obtain x where "effectiveWindow (bs ! best) (vs ! best) = Some x"
    using assms effectiveWindow_defined by blast
  then show ?thesis using Some by (simp add: aggregate_def Let_def)
qed

section \<open>Properties\<close>

text \<open>
  C20. The request path never fails. Over a compiled snapshot and a sound in-memory store, every
  request with a non-negative cost, whatever its path, method, token and keys, ends in a decision:
  no panic, no bucket budget error, no error of the store's guard. The store stays sound.
\<close>
theorem engine_always_decides:
  assumes "Compile namespace domain p = Some (en_snap en, problems)" "snapshot_typed (en_snap en)"
    and "store_ok t m" "clock_ok t" "0 \<le> rq_Cost req" "in64 (rq_Cost req)"
  shows "\<exists>d en' m'. Engine_Decide sha ul t en m req = Some (Inr d, en', m') \<and> store_ok t m'"
proof -
  have ok: "snapshot_ok namespace (en_snap en)" using Compile_snapshot_ok [OF assms(1)] .
  let ?bs = "buckets_of sha ul en req"
  have buckets: "\<forall>b \<in> set ?bs. bucket_ok b" using rules_of_compiled(3) [OF ok assms(2,5,6)] by blast
  show ?thesis
  proof (cases "?bs = []")
    case True
    then show ?thesis using evaluate_no_buckets [of sha ul en req "\<lambda>m bs. Decide m t bs" m] assms(3)
      by (auto simp: Engine_Decide_def)
  next
    case False
    obtain vs m' where D: "Decide m t ?bs = (Inr vs, m')" "length vs = length ?bs" "store_ok t m'"
      using Decide_succeeds [OF assms(3,4) buckets rules_of_compiled(2) [OF ok]] by blast
    obtain allowed where A: "Admitted ?bs vs = Some allowed" using D(2) by (auto simp: Admitted_def)
    obtain hs exceeds where G: "aggregate (rules_of sha ul en req) ?bs vs allowed = Some (hs, exceeds)"
      using aggregate_defined [OF buckets] by blast
    show ?thesis
      using evaluate_buckets [OF False rules_of_compiled(1) [OF ok], of "\<lambda>m bs. Decide m t bs" m] D A G
      by (auto simp: Engine_Decide_def)
  qed
qed

definition sample_engine :: engine where
  "sample_engine = NewEngine sample_snapshot []"

definition sample_request :: request_msg where
  "sample_request = \<lparr>rq_Path = ''/orders/42?n=3'', rq_Method = ''GET'', rq_Token = [],
     rq_Keys = [(''sub'', [''alice'']), (''plan'', [''gold''])], rq_Cost = 0\<rparr>"

lemma sample_engine_snap: "en_snap sample_engine = sample_snapshot"
  by (simp add: sample_engine_def NewEngine_def Let_def)

lemma sample_typed: "snapshot_typed sample_snapshot"
proof -
  have "list_all (\<lambda>cb. list_all (\<lambda>cu. list_all (\<lambda>ct. Requests (ct_Window ct) = wrap64 (Requests (ct_Window ct)))
      (cu_Rates cu)) (cb_Rules cb)) (sn_Blocks sample_snapshot)" by code_simp
  moreover have "x = wrap64 x \<Longrightarrow> in64 x" for x
    by (auto simp: in64_def wrap64_def)
  ultimately show ?thesis by (auto simp: snapshot_typed_def list_all_iff)
qed

theorem engine_always_decides_witness:
  "\<exists>d en' m'. Engine_Decide id id sample_time sample_engine New sample_request = Some (Inr d, en', m') \<and> store_ok sample_time m'"
  using engine_always_decides [of "''ns''" "''gw''" "Some sample_policy" sample_engine "[]" sample_time New sample_request id id]
    sample_compiled sample_typed store_ok_New sample_clock_ok
  by (simp add: sample_engine_snap) (simp add: sample_request_def in64_def)

lemma engine_decided:
  assumes "evaluate sha ul judge en st req = Some (Inr d, en', st')"
    and "length (buckets_of sha ul en req) \<le> MaxDecisionBuckets"
  shows "buckets_of sha ul en req = [] \<and> st' = st \<and> d = untouched sha ul en req \<or>
    buckets_of sha ul en req \<noteq> [] \<and> (\<exists>vs hs exceeds. judge st (buckets_of sha ul en req) = (Inr vs, st') \<and>
       Admitted (buckets_of sha ul en req) vs = Some (dc_Allowed d) \<and>
       aggregate (rules_of sha ul en req) (buckets_of sha ul en req) vs (dc_Allowed d) = Some (hs, exceeds) \<and>
       dc_Headers d = hs \<and> dc_CostExceedsCapacity d = exceeds \<and>
       dc_Rules d = ruleOutcomes (rules_of sha ul en req) (buckets_of sha ul en req) vs)"
proof (cases "buckets_of sha ul en req = []")
  case True
  then show ?thesis using evaluate_no_buckets [OF True, of judge st] assms(1) by auto
next
  case False
  obtain v st1 where J: "judge st (buckets_of sha ul en req) = (v, st1)" by fastforce
  obtain en1 where E: "(case v of Inl err \<Rightarrow> Some (Inl err, en1, st1) | Inr vs \<Rightarrow>
      Option.bind (Admitted (buckets_of sha ul en req) vs) (\<lambda>allowed.
      Option.bind (aggregate (rules_of sha ul en req) (buckets_of sha ul en req) vs allowed) (\<lambda>(hs, exceeds).
         Some (Inr \<lparr>dc_Allowed = allowed, dc_CostExceedsCapacity = exceeds, dc_Headers = hs,
           dc_Rules = ruleOutcomes (rules_of sha ul en req) (buckets_of sha ul en req) vs, dc_Targeted = True,
           dc_Skips = snd (fst (extractKeys sha ul en req)),
           dc_ExtractedKeys = keyNames en (keys_of sha ul en req)\<rparr>, en1, st1)))) = Some (Inr d, en', st')"
    using evaluate_buckets [OF False assms(2), of judge st] assms(1) J by auto
  then obtain vs where v: "v = Inr vs" by (cases v) auto
  from E [unfolded v sum.case] obtain allowed hs exceeds where
      "Admitted (buckets_of sha ul en req) vs = Some allowed"
      "aggregate (rules_of sha ul en req) (buckets_of sha ul en req) vs allowed = Some (hs, exceeds)"
      "st1 = st'" "d = \<lparr>dc_Allowed = allowed, dc_CostExceedsCapacity = exceeds, dc_Headers = hs,
           dc_Rules = ruleOutcomes (rules_of sha ul en req) (buckets_of sha ul en req) vs, dc_Targeted = True,
           dc_Skips = snd (fst (extractKeys sha ul en req)),
           dc_ExtractedKeys = keyNames en (keys_of sha ul en req)\<rparr>"
    unfolding bind_eq_Some_conv by auto
  then show ?thesis using False J v by simp
qed

lemma untouched_allowed: "dc_Allowed (untouched sha ul en req)" "dc_Rules (untouched sha ul en req) = []"
  by (simp_all add: untouched_def no_decision_def)

text \<open>
  C6. What a decision means, end to end. The request is allowed exactly when its cost fits the
  free units of every bucket of every enforcing rule that matched; it is allowed exactly when no
  enforcing rule refused, so the verdict and the per-rule outcomes never contradict each other,
  one outcome per matched rule in order; and a refused request leaves every bucket as it was.
\<close>
theorem engine_decision_meaning:
  assumes "Compile namespace domain p = Some (en_snap en, problems)" "snapshot_typed (en_snap en)"
    and "store_ok t m" "clock_ok t" "0 \<le> rq_Cost req" "in64 (rq_Cost req)"
    and "Engine_Decide sha ul t en m req = Some (Inr d, en', m')"
  shows "(dc_Allowed d \<longleftrightarrow> (\<forall>b\<in>set (buckets_of sha ul en req). bk_Shadow b \<or> bk_Cost b \<le> bucket_free m t b)) \<and>
    (dc_Allowed d \<longleftrightarrow> list_all (\<lambda>o1. ro_Shadow o1 \<or> ro_Allowed o1) (dc_Rules d)) \<and>
    (\<not> dc_Allowed d \<longrightarrow> (\<forall>b\<in>set (buckets_of sha ul en req). bucket_free m' t b = bucket_free m t b))"
proof -
  have ok: "snapshot_ok namespace (en_snap en)" using Compile_snapshot_ok [OF assms(1)] .
  let ?bs = "buckets_of sha ul en req"
  have buckets: "\<forall>b \<in> set ?bs. bucket_ok b" using rules_of_compiled(3) [OF ok assms(2,5,6)] by blast
  from engine_decided [OF assms(7) [unfolded Engine_Decide_def] rules_of_compiled(1) [OF ok]]
  show ?thesis
  proof (elim disjE conjE exE)
    assume "?bs = []" "d = untouched sha ul en req"
    then show ?thesis using untouched_allowed [of sha ul en req] by simp
  next
    fix vs hs exceeds
    assume D: "Decide m t ?bs = (Inr vs, m')" and A: "Admitted ?bs vs = Some (dc_Allowed d)"
      and R: "dc_Rules d = ruleOutcomes (rules_of sha ul en req) ?bs vs"
    have len: "length vs = length ?bs" using memory.decide_length [OF D] .
    have "dc_Allowed d \<longleftrightarrow> (\<forall>k < length ?bs. bk_Shadow (?bs ! k) \<or> v_Allowed (vs ! k))"
      using A len by (auto simp: Admitted_Some set_zip)
    then have rules: "dc_Allowed d \<longleftrightarrow> list_all (\<lambda>o1. ro_Shadow o1 \<or> ro_Allowed o1) (dc_Rules d)"
      using outcomes_allowed [OF rules_of_shadows, of ?bs vs 0 sha ul en req] by (simp add: R ruleOutcomes_def)
    have fits: "dc_Allowed d \<longleftrightarrow> (\<forall>b\<in>set ?bs. bk_Shadow b \<or> bk_Cost b \<le> bucket_free m t b)"
      and free: "\<not> dc_Allowed d \<Longrightarrow> i < length ?bs \<Longrightarrow> bucket_free m' t (?bs ! i) = bucket_free m t (?bs ! i)" for i
      using Decide_judgement [OF assms(3,4) buckets D] A by (auto simp: Let_def)
    show ?thesis using rules fits free by (auto simp: all_set_conv_all_nth)
  qed
qed

lemma sample_decides:
  "\<exists>d en' m'. Engine_Decide id id sample_time sample_engine New sample_request = Some (Inr d, en', m') \<and>
     dc_Allowed d \<and> length (dc_Rules d) = 2"
proof -
  let ?D = "Engine_Decide id id sample_time sample_engine New sample_request"
  have "map_option (map_sum id (\<lambda>d. (dc_Allowed d, length (dc_Rules d))) \<circ> fst) ?D = Some (Inr (True, 2))"
    by code_simp
  then obtain r en' m' where r: "?D = Some (r, en', m')" "map_sum id (\<lambda>d. (dc_Allowed d, length (dc_Rules d))) r = Inr (True, 2)"
    by (cases ?D) auto
  then show ?thesis by (cases r) auto
qed

lemma sample_cost: "0 \<le> rq_Cost sample_request" "in64 (rq_Cost sample_request)"
  by (simp_all add: sample_request_def in64_def)

theorem engine_decision_meaning_witness:
  "\<exists>d en' m'. Engine_Decide id id sample_time sample_engine New sample_request = Some (Inr d, en', m') \<and>
     dc_Allowed d \<and> length (dc_Rules d) = 2 \<and>
     list_all (\<lambda>o1. ro_Shadow o1 \<or> ro_Allowed o1) (dc_Rules d)"
proof -
  obtain d en' m' where D: "Engine_Decide id id sample_time sample_engine New sample_request = Some (Inr d, en', m')"
    "dc_Allowed d" "length (dc_Rules d) = 2" using sample_decides by blast
  from engine_decision_meaning [OF _ _ store_ok_New sample_clock_ok sample_cost D(1), of "''ns''" "''gw''" "Some sample_policy" "[]"]
  show ?thesis using D sample_compiled sample_typed by (simp add: sample_engine_snap)
qed

text \<open>
  A peek tells what a decision would do and charges nothing. On the same state and clock the
  engine's \<open>Peek\<close> reaches a decision with the same verdict as \<open>Decide\<close>, and afterwards every
  bucket of the request holds what it held before.
\<close>
theorem engine_peek_agrees:
  assumes "Compile namespace domain p = Some (en_snap en, problems)" "snapshot_typed (en_snap en)"
    and "store_ok t m" "clock_ok t" "0 \<le> rq_Cost req" "in64 (rq_Cost req)"
    and "Engine_Decide sha ul t en m req = Some (Inr d, en', m')"
  shows "\<exists>d' en'' m''. Engine_Peek sha ul t en m req = Some (Inr d', en'', m'') \<and> dc_Allowed d' = dc_Allowed d \<and>
    (\<forall>b\<in>set (buckets_of sha ul en req). \<forall>t'\<ge>t. mem_view m'' t' b = mem_view m t' b)"
proof -
  have ok: "snapshot_ok namespace (en_snap en)" using Compile_snapshot_ok [OF assms(1)] .
  let ?bs = "buckets_of sha ul en req"
  have buckets: "\<forall>b \<in> set ?bs. bucket_ok b" using rules_of_compiled(3) [OF ok assms(2,5,6)] by blast
  have kept: "mem_view (snd (Peek m t ?bs)) t' b = mem_view m t' b" if "b \<in> set ?bs" "t \<le> t'" for b t'
    using memory.peek_view [OF that(2) distinct_same_algorithm [OF rules_of_compiled(2) [OF ok] that(1)]] .
  from engine_decided [OF assms(7) [unfolded Engine_Decide_def] rules_of_compiled(1) [OF ok]]
  show ?thesis
  proof (elim disjE conjE exE)
    assume none: "?bs = []" and d: "d = untouched sha ul en req"
    then show ?thesis
      using evaluate_no_buckets [OF none, of "\<lambda>m bs. Peek m t bs" m] by (auto simp: Engine_Peek_def)
  next
    fix vs hs exceeds
    assume ne: "?bs \<noteq> []" and D: "Decide m t ?bs = (Inr vs, m')" and A: "Admitted ?bs vs = Some (dc_Allowed d)"
    obtain us where us: "fst (Peek m t ?bs) = Inr us" "Admitted ?bs us = Admitted ?bs vs"
      using memory.peek_same_admission [OF D] by blast
    then obtain m2 where P: "Peek m t ?bs = (Inr us, m2)" by (cases "Peek m t ?bs") auto
    obtain hs' ex' where G: "aggregate (rules_of sha ul en req) ?bs us (dc_Allowed d) = Some (hs', ex')"
      using aggregate_defined [OF buckets] by blast
    obtain en1 where "evaluate sha ul (\<lambda>m bs. Peek m t bs) en m req =
        Some (Inr \<lparr>dc_Allowed = dc_Allowed d, dc_CostExceedsCapacity = ex', dc_Headers = hs',
          dc_Rules = ruleOutcomes (rules_of sha ul en req) ?bs us, dc_Targeted = True,
          dc_Skips = snd (fst (extractKeys sha ul en req)),
          dc_ExtractedKeys = keyNames en (keys_of sha ul en req)\<rparr>, en1, m2)"
      using evaluate_buckets [OF ne rules_of_compiled(1) [OF ok], of "\<lambda>m bs. Peek m t bs" m] P us(2) A G by auto
    then show ?thesis using kept [unfolded P snd_conv] by (simp add: Engine_Peek_def)
  qed
qed

theorem engine_peek_agrees_witness:
  "\<exists>d' en'' m''. Engine_Peek id id sample_time sample_engine New sample_request = Some (Inr d', en'', m'') \<and> dc_Allowed d'"
proof -
  obtain d en' m' where D: "Engine_Decide id id sample_time sample_engine New sample_request = Some (Inr d, en', m')"
    "dc_Allowed d" using sample_decides by blast
  from engine_peek_agrees [OF _ _ store_ok_New sample_clock_ok sample_cost D(1), of "''ns''" "''gw''" "Some sample_policy" "[]"]
  show ?thesis using D(2) sample_compiled sample_typed by (auto simp: sample_engine_snap)
qed

section \<open>Identity in the engine\<close>

lemma copy_lookup:
  "gm_ok new \<Longrightarrow> map_of (fold (\<lambda>(k, vs) m. AList.update k vs m) new old) k =
     (case map_of new k of Some vs \<Rightarrow> Some vs | None \<Rightarrow> map_of old k)"
proof (induction new arbitrary: old)
  case (Cons kv new)
  obtain k0 vs where kv: "kv = (k0, vs)" by fastforce
  then have "gm_ok new" "map_of new k0 = None" using Cons.prems by (auto simp: gm_ok_def map_of_eq_None_iff)
  then show ?case using Cons.IH [of "AList.update k0 vs old"] by (auto simp: kv update_conv' split: option.split)
qed simp

lemma Explicit_gm_ok: "gm_ok (fst (Explicit ul plan keys))"
proof -
  have "gm_ok out \<Longrightarrow> gm_ok (fst (fold (explicit_key ul plan) keys (out, skips)))" for out skips
    by (induction keys arbitrary: out skips) (auto simp: explicit_key_spec split: option.split)
  then show ?thesis by (simp add: Explicit_def)
qed

text \<open>
  The identity of a request. With a sound token cache, the matcher sees for each key the
  explicit value where the caller's form kept one, and the token's extracted value otherwise: the
  cache is invisible, explicit keys win per key, and a key they leave absent leaves the token's
  value in place. The cache stays sound.
\<close>
theorem extractKeys_overlay:
  assumes "engine_ok sha ul tokens capacity budget en" "rq_Token req \<in> tokens"
    and "extractKeys sha ul en req = ((keys, skips), en')"
  shows "map_of keys k = (case map_of (fst (Explicit ul (en_plan en) (rq_Keys req))) k of
       Some vs \<Rightarrow> Some vs | None \<Rightarrow> map_of (fst (Extract ul (en_plan en) (rq_Token req))) k) \<and>
    skips = snd (Extract ul (en_plan en) (rq_Token req)) @ snd (Explicit ul (en_plan en) (rq_Keys req)) \<and>
    engine_ok sha ul tokens capacity budget en'"
proof -
  obtain extracted sk en1 where c: "cachedExtract sha ul en (rq_Token req) = ((extracted, sk), en1)"
    by (metis surj_pair)
  have x: "(extracted, sk) = Extract ul (en_plan en) (rq_Token req)" "engine_ok sha ul tokens capacity budget en1"
    using cachedExtract_ok [OF assms(1,2) c] by auto
  obtain ex es where e: "Explicit ul (en_plan en) (rq_Keys req) = (ex, es)" by fastforce
  have empty: "rq_Keys req = [] \<Longrightarrow> ex = [] \<and> es = []" using e by (simp add: Explicit_def)
  have keys: "keys = (if ex = [] then extracted else fold (\<lambda>(k, vs) m. AList.update k vs m) ex extracted)"
    and rest: "skips = sk @ es" "en' = en1"
    using assms(3) empty unfolding extractKeys_def c e by (auto simp: Let_def split: if_splits)
  have "gm_ok ex" using Explicit_gm_ok [of ul "en_plan en" "rq_Keys req"] e by simp
  from copy_lookup [OF this] have "map_of keys k = (case map_of ex k of Some vs \<Rightarrow> Some vs | None \<Rightarrow> map_of extracted k)"
    by (simp add: keys)
  then show ?thesis using rest x(2) unfolding e x(1) [symmetric] fst_conv snd_conv by simp
qed

theorem extractKeys_overlay_witness:
  "map_of (keys_of id id sample_engine sample_request) ''sub'' = Some [''alice'']"
proof -
  have "inj_on id {[] :: string}" "1 \<le> DefaultTokenCacheSize" "2 * maxCachedEntryBytes \<le> tokenCacheBytes"
    by (simp_all add: DefaultTokenCacheSize_def maxCachedEntryBytes_def tokenCacheBytes_def)
  then have ok: "engine_ok id id {[]} DefaultTokenCacheSize tokenCacheBytes sample_engine"
    using new_cache_ok [of id "{[]}" DefaultTokenCacheSize tokenCacheBytes id "sn_Extraction sample_snapshot"]
    by (simp add: engine_ok_def sample_engine_def NewEngine_def Let_def DefaultTokenCacheSize_def)
  obtain keys skips en' where x: "extractKeys id id sample_engine sample_request = ((keys, skips), en')"
    by (metis surj_pair)
  have "map_of (fst (Explicit id (en_plan sample_engine) (rq_Keys sample_request))) ''sub'' = Some [''alice'']"
    by code_simp
  moreover have "rq_Token sample_request \<in> {[]}" by (simp add: sample_request_def)
  ultimately show ?thesis
    using extractKeys_overlay [OF ok _ x, of "''sub''"] unfolding keys_of_def x fst_conv by simp
qed


end
