(* ===== verification/Rule_Set.thy ===== *)
theory Rule_Set
  imports Engine
begin

text \<open>
  The rule set the server reads on every check (\<open>service/internal/store/store.go\<close>): the bound domains with
  their engines, published as one value behind an atomic pointer. A time is nanoseconds since the zero time
  of Go, so the zero time is \<open>0\<close>. A Go map is an association list; its iteration order only shows sorted.
\<close>

record refusal =
  rf_FormatVersion :: int
  rf_Reason :: goerror

record domain_entry =
  do_Engine :: "engine option"
  do_Snapshot :: "snapshot option"
  do_Version :: string
  do_Generation :: int
  do_UID :: string
  do_AppliedAt :: int

definition zero_domain :: domain_entry where
  "zero_domain = \<lparr>do_Engine = None, do_Snapshot = None, do_Version = [], do_Generation = 0, do_UID = [], do_AppliedAt = 0\<rparr>"

record rule_set =
  rs_domains :: "domain_entry gomap"
  rs_swappedAt :: int
  rs_refusal :: "refusal option"

text \<open>The clone of a map is the same association list; \<open>None\<close> is the nil map.\<close>

definition NewRuleSet :: "domain_entry gomap option \<Rightarrow> rule_set" where
  "NewRuleSet domains =
     \<lparr>rs_domains = (case domains of Some ds \<Rightarrow> ds | None \<Rightarrow> []), rs_swappedAt = 0, rs_refusal = None\<rparr>"

definition set_Domain :: "rule_set \<Rightarrow> string \<Rightarrow> domain_entry \<times> bool" where
  "set_Domain r domain =
     (case map_of (rs_domains r) domain of Some d \<Rightarrow> (d, True) | None \<Rightarrow> (zero_domain, False))"

definition set_Engine :: "rule_set \<Rightarrow> string \<Rightarrow> engine option" where
  "set_Engine r domain = do_Engine (fst (set_Domain r domain))"

definition set_Snapshot :: "rule_set \<Rightarrow> string \<Rightarrow> snapshot option" where
  "set_Snapshot r domain = do_Snapshot (fst (set_Domain r domain))"

definition set_Version :: "rule_set \<Rightarrow> string \<Rightarrow> string" where
  "set_Version r domain = do_Version (fst (set_Domain r domain))"

definition set_Domains :: "rule_set \<Rightarrow> string list" where
  "set_Domains r = sort (gm_keys (rs_domains r))"

definition set_Has :: "rule_set \<Rightarrow> string \<Rightarrow> bool" where
  "set_Has r domain \<longleftrightarrow> set_Engine r domain \<noteq> None"

definition set_Len :: "rule_set \<Rightarrow> nat" where
  "set_Len r = length (rs_domains r)"

text \<open>The store: the current rule set.\<close>

record rule_store =
  st_current :: rule_set

definition NewStore :: rule_store where
  "NewStore = \<lparr>st_current = NewRuleSet None\<rparr>"

definition Load :: "rule_store \<Rightarrow> rule_set" where
  "Load s = st_current s"

definition Replace :: "int \<Rightarrow> rule_set option \<Rightarrow> rule_store \<Rightarrow> rule_store" where
  "Replace now rs s =
     s\<lparr>st_current := \<lparr>rs_domains = (case rs of Some r \<Rightarrow> rs_domains r | None \<Rightarrow> []),
        rs_swappedAt = now, rs_refusal = None\<rparr>\<rparr>"

definition store_Refuse :: "refusal \<Rightarrow> rule_store \<Rightarrow> rule_store" where
  "store_Refuse refusal s =
     (let current = Load s in
      s\<lparr>st_current := \<lparr>rs_domains = rs_domains current, rs_swappedAt = rs_swappedAt current, rs_refusal = Some refusal\<rparr>\<rparr>)"

definition SwappedAt :: "rule_store \<Rightarrow> int" where
  "SwappedAt s = rs_swappedAt (Load s)"

definition store_Engine :: "rule_store \<Rightarrow> string \<Rightarrow> engine option" where
  "store_Engine s domain = set_Engine (Load s) domain"

definition HasDomain :: "rule_store \<Rightarrow> string \<Rightarrow> bool" where
  "HasDomain s domain = set_Has (Load s) domain"

text \<open>
  An engine is reached through a pointer, so what a check leaves in its token cache is seen through the
  domain's entry. \<open>touch_engine\<close> writes the engine back to the entry it was read from.
\<close>

definition touch_engine :: "string \<Rightarrow> engine \<Rightarrow> rule_store \<Rightarrow> rule_store" where
  "touch_engine domain en s =
     (case map_of (rs_domains (Load s)) domain of
        None \<Rightarrow> s
      | Some d \<Rightarrow> s\<lparr>st_current := (Load s)\<lparr>rs_domains :=
          AList.update domain (d\<lparr>do_Engine := Some en\<rparr>) (rs_domains (Load s))\<rparr>\<rparr>)"

lemma store_Engine_New [simp]: "store_Engine NewStore domain = None"
  by (simp add: store_Engine_def set_Engine_def set_Domain_def Load_def NewStore_def NewRuleSet_def zero_domain_def)

lemma store_Engine_touch:
  "store_Engine (touch_engine domain en s) dom' =
     (if dom' = domain \<and> map_of (rs_domains (Load s)) domain \<noteq> None then Some en else store_Engine s dom')"
  by (auto simp: store_Engine_def set_Engine_def set_Domain_def touch_engine_def Load_def split: option.splits)

lemma store_Engine_refuse [simp]: "store_Engine (store_Refuse refusal s) domain = store_Engine s domain"
  by (simp add: store_Engine_def set_Engine_def set_Domain_def store_Refuse_def Load_def Let_def)

lemma store_Engine_replace:
  "store_Engine (Replace now (Some (NewRuleSet (Some ds))) s) domain =
     (case map_of ds domain of Some d \<Rightarrow> do_Engine d | None \<Rightarrow> None)"
  by (simp add: store_Engine_def set_Engine_def set_Domain_def Replace_def Load_def NewRuleSet_def zero_domain_def
      split: option.splits)

lemma store_Engine_bound: "store_Engine s domain = Some en \<Longrightarrow> map_of (rs_domains (Load s)) domain \<noteq> None"
  by (auto simp: store_Engine_def set_Engine_def set_Domain_def zero_domain_def split: option.splits)

end
