(* ===== verification/Rls_Sampler.thy ===== *)
theory Rls_Sampler
  imports GoPrelude
begin

text \<open>
  The log sampler of the rate limit server (\<open>service/internal/rls/sampler.go\<close>). Its three counters
  are atomics that concurrent checks touch without a lock, so \<open>admit\<close> is a small program whose
  steps interleave: each step is one atomic operation of one caller.
\<close>

section \<open>The sampler\<close>

record logSampler =
  ls_limit :: int
  ls_window :: int
  ls_count :: int
  ls_dropped :: int

definition new_sampler :: "int \<Rightarrow> logSampler" where
  "new_sampler limit = \<lparr>ls_limit = limit, ls_window = 0, ls_count = 0, ls_dropped = 0\<rparr>"

text \<open>Where a caller of \<open>admit\<close> stands: before the load of the window, after it, and so on to its result.\<close>

datatype caller =
    Enter int
  | Loaded int int
  | Resetting
  | Admitting
  | Dropping
  | Returned bool int

text \<open>One atomic operation of a caller.\<close>

fun admit_step :: "logSampler \<Rightarrow> caller \<Rightarrow> logSampler \<times> caller" where
  "admit_step l (Enter now) = (l, Loaded now (ls_window l))"
| "admit_step l (Loaded now window) =
     (if now \<le> window then
        let l' = l\<lparr>ls_count := add64 (ls_count l) 1\<rparr> in
        (l', if ls_count l' \<le> ls_limit l then Admitting else Dropping)
      else if ls_window l = window then (l\<lparr>ls_window := now\<rparr>, Resetting)
      else (l, Enter now))"
| "admit_step l Resetting = (l\<lparr>ls_count := 1\<rparr>, Admitting)"
| "admit_step l Admitting = (l\<lparr>ls_dropped := 0\<rparr>, Returned True (ls_dropped l))"
| "admit_step l Dropping = (l\<lparr>ls_dropped := add64 (ls_dropped l) 1\<rparr>, Returned False 0)"
| "admit_step l (Returned ok dropped) = (l, Returned ok dropped)"

text \<open>A call that runs without interference: the steps end after at most four.\<close>

definition admit :: "logSampler \<Rightarrow> int \<Rightarrow> bool \<times> int \<times> logSampler" where
  "admit l now =
     (case ((\<lambda>(l, c). admit_step l c) ^^ 4) (l, Enter now) of
        (l', Returned ok dropped) \<Rightarrow> (ok, dropped, l')
      | (l', _) \<Rightarrow> (False, 0, l'))"

text \<open>The interleavings of a set of calls.\<close>

inductive sampler_run :: "logSampler \<Rightarrow> caller list \<Rightarrow> logSampler \<Rightarrow> caller list \<Rightarrow> bool"
  for l0 :: logSampler and cs0 :: "caller list" where
  start: "sampler_run l0 cs0 l0 cs0"
| step: "sampler_run l0 cs0 l cs \<Longrightarrow> i < length cs \<Longrightarrow> admit_step l (cs ! i) = (l', c') \<Longrightarrow>
    sampler_run l0 cs0 l' (cs[i := c'])"

section \<open>Calls without interference\<close>

lemma admit_eq:
  "admit l now =
     (if now \<le> ls_window l then
        if add64 (ls_count l) 1 \<le> ls_limit l
        then (True, ls_dropped l, l\<lparr>ls_count := add64 (ls_count l) 1, ls_dropped := 0\<rparr>)
        else (False, 0, l\<lparr>ls_count := add64 (ls_count l) 1, ls_dropped := add64 (ls_dropped l) 1\<rparr>)
      else (True, ls_dropped l, l\<lparr>ls_window := now, ls_count := 1, ls_dropped := 0\<rparr>))"
  by (simp add: admit_def numeral_eq_Suc Let_def)

text \<open>The calls one after another, each with its answer and the window it was counted in.\<close>

fun admit_all :: "logSampler \<Rightarrow> int list \<Rightarrow> (bool \<times> int) list" where
  "admit_all l [] = []"
| "admit_all l (now # nows) =
     (case admit l now of (ok, _, l') \<Rightarrow> (ok, ls_window l') # admit_all l' nows)"

definition lines_in :: "int \<Rightarrow> (bool \<times> int) list \<Rightarrow> int" where
  "lines_in w rs = int (length (filter (\<lambda>(ok, window). ok \<and> window = w) rs))"

lemma lines_in_simps [simp]:
  "lines_in w [] = 0" "lines_in w ((ok, v) # rs) = (if ok \<and> v = w then 1 else 0) + lines_in w rs"
  by (simp_all add: lines_in_def)

lemma admit_window: "snd (snd (admit l now)) = l' \<Longrightarrow> ls_window l' = max now (ls_window l)"
  by (auto simp: admit_eq max_def split: if_splits)

lemma admit_all_past: "w < ls_window l \<Longrightarrow> lines_in w (admit_all l nows) = 0"
proof (induction nows arbitrary: l)
  case (Cons now nows)
  obtain ok d l' where a: "admit l now = (ok, d, l')" by (cases "admit l now") auto
  have "ls_window l' = max now (ls_window l)" by (rule admit_window) (simp add: a)
  with Cons a show ?case by auto
qed simp

lemma admit_all_lines:
  "1 \<le> ls_limit l \<Longrightarrow> ls_limit l + int (length nows) < 2 ^ 63 \<Longrightarrow> 0 \<le> ls_count l \<Longrightarrow>
   ls_count l + int (length nows) < 2 ^ 63 \<Longrightarrow>
   lines_in w (admit_all l nows) \<le> (if w = ls_window l then max 0 (ls_limit l - ls_count l) else ls_limit l)"
proof (induction nows arbitrary: l)
  case (Cons now nows)
  then have add: "add64 (ls_count l) 1 = ls_count l + 1" by (simp add: add64_id in64_def)
  consider (later) "ls_window l < now" | (fits) "now \<le> ls_window l" "ls_count l + 1 \<le> ls_limit l"
    | (full) "now \<le> ls_window l" "ls_limit l < ls_count l + 1" by linarith
  then show ?case
  proof cases
    case later
    let ?l = "l\<lparr>ls_window := now, ls_count := 1, ls_dropped := 0\<rparr>"
    have "lines_in w (admit_all ?l nows) \<le> (if w = now then max 0 (ls_limit l - 1) else ls_limit l)"
      using Cons.IH [of ?l] Cons.prems by (cases "w = ls_window ?l") auto
    moreover have "w < now \<Longrightarrow> lines_in w (admit_all ?l nows) = 0" by (rule admit_all_past) simp
    ultimately show ?thesis using later Cons.prems(1) by (auto simp: admit_eq)
  next
    case fits
    let ?l = "l\<lparr>ls_count := ls_count l + 1, ls_dropped := 0\<rparr>"
    have "lines_in w (admit_all ?l nows) \<le> (if w = ls_window l then max 0 (ls_limit l - (ls_count l + 1)) else ls_limit l)"
      using Cons.IH [of ?l] Cons.prems by (cases "w = ls_window ?l") auto
    then show ?thesis using fits Cons.prems by (auto simp: admit_eq add)
  next
    case full
    let ?l = "l\<lparr>ls_count := ls_count l + 1, ls_dropped := add64 (ls_dropped l) 1\<rparr>"
    have "lines_in w (admit_all ?l nows) \<le> (if w = ls_window l then max 0 (ls_limit l - (ls_count l + 1)) else ls_limit l)"
      using Cons.IH [of ?l] Cons.prems by (cases "w = ls_window ?l") auto
    then show ?thesis using full Cons.prems by (auto simp: admit_eq add)
  qed
qed simp

section \<open>Interleaved calls\<close>

definition dropped_calls :: "caller list \<Rightarrow> int" where
  "dropped_calls cs = sum_list (map (\<lambda>c. case c of Returned False _ \<Rightarrow> 1 | _ \<Rightarrow> 0) cs)"

definition reported_drops :: "caller list \<Rightarrow> int" where
  "reported_drops cs = sum_list (map (\<lambda>c. case c of Returned True d \<Rightarrow> d | _ \<Rightarrow> 0) cs)"

lemma sum_list_update_int:
  "i < length cs \<Longrightarrow> sum_list (map f (cs[i := c])) = sum_list (map f cs) - f (cs ! i) + (f c :: int)"
proof (induction cs arbitrary: i)
  case (Cons x cs)
  then show ?case by (cases i) auto
qed simp

lemma dropped_calls_bounds: "0 \<le> dropped_calls cs \<and> dropped_calls cs \<le> int (length cs)"
  unfolding dropped_calls_def by (induction cs) (auto split: caller.splits bool.splits)

text \<open>
  The accounting of dropped lines: what waits in the counter, plus what admitted calls reported,
  is what was dropped.
\<close>

lemma sampler_run_length: "sampler_run l0 cs0 l cs \<Longrightarrow> length cs = length cs0"
  by (induction rule: sampler_run.induct) auto

lemma admit_step_drops:
  assumes "admit_step l c = (l', c')" "0 \<le> ls_dropped l" "ls_dropped l < 2 ^ 62"
  shows "ls_dropped l' - ls_dropped l =
    (dropped_calls [c'] - dropped_calls [c]) - (reported_drops [c'] - reported_drops [c])"
  using assms
  by (cases c) (auto simp: dropped_calls_def reported_drops_def add64_id in64_def Let_def split: if_splits bool.splits)

lemma drops_update:
  assumes "i < length cs"
  shows "dropped_calls (cs[i := c]) = dropped_calls cs - dropped_calls [cs ! i] + dropped_calls [c]"
    and "reported_drops (cs[i := c]) = reported_drops cs - reported_drops [cs ! i] + reported_drops [c]"
  using assms by (simp_all add: dropped_calls_def reported_drops_def sum_list_update_int)

lemma sampler_run_conserves:
  assumes "sampler_run l0 cs0 l cs" "ls_dropped l0 = 0" "\<forall>c \<in> set cs0. \<exists>now. c = Enter now"
    and "int (length cs0) < 2 ^ 62"
  shows "ls_dropped l + reported_drops cs = dropped_calls cs \<and> 0 \<le> ls_dropped l \<and> 0 \<le> reported_drops cs"
  using assms(1)
proof (induction rule: sampler_run.induct)
  case start
  have "dropped_calls cs0 = 0" "reported_drops cs0 = 0"
    using assms(3) unfolding dropped_calls_def reported_drops_def by (induction cs0) auto
  with assms(2) show ?case by simp
next
  case (step l cs i l' c')
  have "ls_dropped l < 2 ^ 62"
    using step.IH dropped_calls_bounds [of cs] sampler_run_length [OF step.hyps(1)] assms(4) by simp
  with step.IH have eq: "ls_dropped l' - ls_dropped l =
      (dropped_calls [c'] - dropped_calls [cs ! i]) - (reported_drops [c'] - reported_drops [cs ! i])"
    by (intro admit_step_drops [OF step.hyps(3)]) auto
  have "0 \<le> ls_dropped l' \<and> 0 \<le> reported_drops (cs[i := c'])"
    using step.IH step.hyps(3) eq \<open>ls_dropped l < 2 ^ 62\<close> drops_update(2) [OF step.hyps(2), of c']
    by (cases "cs ! i") (auto simp: reported_drops_def add64_id in64_def Let_def split: if_splits)
  with eq step.IH drops_update [OF step.hyps(2), of c'] show ?case by linarith
qed

text \<open>A schedule names the caller that moves next.\<close>

fun follow :: "logSampler \<Rightarrow> caller list \<Rightarrow> nat list \<Rightarrow> logSampler \<times> caller list" where
  "follow l cs [] = (l, cs)"
| "follow l cs (i # is) = (case admit_step l (cs ! i) of (l', c') \<Rightarrow> follow l' (cs[i := c']) is)"

lemma follow_run:
  "\<forall>i \<in> set is. i < length cs \<Longrightarrow> sampler_run l0 cs0 l cs \<Longrightarrow> follow l cs is = (l', cs') \<Longrightarrow> sampler_run l0 cs0 l' cs'"
proof (induction "is" arbitrary: l cs)
  case (Cons i "is")
  obtain l1 c1 where s: "admit_step l (cs ! i) = (l1, c1)" by (cases "admit_step l (cs ! i)")
  have "sampler_run l0 cs0 l1 (cs[i := c1])" using Cons.prems s by (intro sampler_run.step) auto
  with Cons.IH [of "cs[i := c1]" l1] Cons.prems s show ?case by simp
qed simp

section \<open>Properties\<close>

text \<open>
  Calls that do not overlap keep the budget: however many lines are asked for, with whatever
  timestamps, each window prints at most \<open>limit\<close> of them, and a late timestamp never opens a second
  budget for its own second.
\<close>

theorem sampler_serial_budget:
  assumes "1 \<le> limit" "limit + int (length nows) < 2 ^ 63"
  shows "lines_in w (admit_all (new_sampler limit) nows) \<le> limit"
proof -
  have "int (length nows) < 2 ^ 63" using assms by linarith
  then show ?thesis
    using admit_all_lines [of "new_sampler limit" nows w] assms by (simp add: new_sampler_def split: if_splits)
qed

theorem sampler_serial_budget_witness:
  "lines_in 7 (admit_all (new_sampler 2) [7, 7, 3, 7, 8, 7]) \<le> 2"
  using sampler_serial_budget [of 2 "[7, 7, 3, 7, 8, 7]" 7] by simp

text \<open>
  No dropped line goes unaccounted under any interleaving of concurrent calls: at every moment the
  drops still waiting in the sampler and the drops the admitted lines reported add up to the calls that
  returned without a line, so a drop is reported once and never lost.
\<close>

theorem sampler_accounts:
  assumes "sampler_run (new_sampler limit) cs0 l cs" "\<forall>c \<in> set cs0. \<exists>now. c = Enter now"
    and "int (length cs0) < 2 ^ 62"
  shows "ls_dropped l + reported_drops cs = dropped_calls cs"
  using sampler_run_conserves [OF assms(1) _ assms(2,3)] by (simp add: new_sampler_def)

theorem sampler_accounts_witness:
  "case follow (new_sampler 1) [Enter 5, Enter 5, Enter 6] [0, 0, 1, 1, 0, 1, 0, 2, 2, 2, 2] of (l, cs) \<Rightarrow>
     ls_dropped l + reported_drops cs = dropped_calls cs"
proof -
  obtain l cs where f: "follow (new_sampler 1) [Enter 5, Enter 5, Enter 6] [0, 0, 1, 1, 0, 1, 0, 2, 2, 2, 2] = (l, cs)"
    by (metis surj_pair)
  have "sampler_run (new_sampler 1) [Enter 5, Enter 5, Enter 6] l cs"
    by (rule follow_run [OF _ sampler_run.start f]) simp
  then show ?thesis unfolding f using sampler_accounts by simp
qed


end
