(* ===== verification/Rls_Log.thy ===== *)
theory Rls_Log
  imports Go_Json
begin

text \<open>
  What the rate limit server lets into its log of a request (\<open>sanitizeValue\<close> and \<open>sanitizePath\<close> of
  \<open>service/internal/rls/server.go\<close>): control characters, query strings and overlong values stay out.
\<close>

section \<open>Runes\<close>

text \<open>The runes of a string as \<open>range\<close> visits them, each with the bytes it takes.\<close>

fun rune_list :: "string \<Rightarrow> (int \<times> string) list" where
  "rune_list [] = []"
| "rune_list (c # cs) =
     (case DecodeRune (c # cs) of (r, width) \<Rightarrow> (r, c # take (width - 1) cs) # rune_list (drop (width - 1) cs))"

text \<open>\<open>strings.Map\<close> and \<open>strings.ToValidUTF8\<close> with an empty replacement.\<close>

definition strings_Map :: "(int \<Rightarrow> int) \<Rightarrow> string \<Rightarrow> string" where
  "strings_Map mapping s =
     concat (map (\<lambda>(r, _). let m = mapping r in if m < 0 then [] else EncodeRune m) (rune_list s))"

definition ToValidUTF8 :: "string \<Rightarrow> string" where
  "ToValidUTF8 s =
     concat (map (\<lambda>(r, bytes). if r = RuneError \<and> length bytes = 1 then [] else bytes) (rune_list s))"

section \<open>The source\<close>

definition maxLoggedValueLength :: nat where "maxLoggedValueLength = 256"
definition valueTruncated :: string where "valueTruncated = ''[truncated]''"
definition queryRedacted :: string where "queryRedacted = ''?[redacted]''"

definition sanitizeValue :: "string \<Rightarrow> string" where
  "sanitizeValue v =
     (let v1 = strings_Map (\<lambda>r. if r < 0x20 \<or> r = 0x7f then -1 else r) v in
      if length v1 > maxLoggedValueLength
      then ToValidUTF8 (take maxLoggedValueLength v1) @ valueTruncated
      else v1)"

definition sanitizePath :: "string \<Rightarrow> string" where
  "sanitizePath path =
     (case Cut path (CHR ''?'') of
        (before, _, found) \<Rightarrow> sanitizeValue before @ (if found then queryRedacted else []))"

section \<open>Lemmas\<close>

definition printable :: "char \<Rightarrow> bool" where
  "printable c \<longleftrightarrow> 32 \<le> (of_char c :: int) \<and> of_char c \<noteq> (127 :: int)"

lemma of_char_byte: "0 \<le> n \<Longrightarrow> n < 256 \<Longrightarrow> of_char (byte n) = n"
  by (simp add: byte_def)

lemma printable_byte: "32 \<le> n \<Longrightarrow> n < 256 \<Longrightarrow> n \<noteq> 127 \<Longrightarrow> printable (byte n)"
  by (simp add: printable_def of_char_byte)

lemma EncodeRune_printable:
  assumes "32 \<le> r" "r \<noteq> 127" "c \<in> set (EncodeRune r)"
  shows "printable c"
proof -
  consider "r < 128" | "128 \<le> r" "r < 2048" | "2048 \<le> r" "r < 65536" | "65536 \<le> r" by linarith
  then show ?thesis
  proof cases
    case 1
    then show ?thesis using assms by (auto simp: EncodeRune_def intro!: printable_byte)
  next
    case 2
    then have "2 \<le> r div 64" "r div 64 < 32" "0 \<le> r mod 64" "r mod 64 < 64" by auto
    then show ?thesis using assms 2 by (auto simp: EncodeRune_def intro!: printable_byte)
  next
    case 3
    then have "r div 4096 < 16" "0 \<le> r div 4096" by auto
    then show ?thesis using assms 3 by (auto simp: EncodeRune_def intro!: printable_byte split: if_splits)
  next
    case 4
    then have "r \<le> 1114111 \<Longrightarrow> r div 262144 < 16" "0 \<le> r div 262144" by auto
    then show ?thesis using assms 4 by (auto simp: EncodeRune_def intro!: printable_byte split: if_splits)
  qed
qed

lemma strings_Map_printable:
  "c \<in> set (strings_Map (\<lambda>r. if r < 0x20 \<or> r = 0x7f then -1 else r) v) \<Longrightarrow> printable c"
  by (auto simp: strings_Map_def Let_def not_less split: if_splits intro: EncodeRune_printable)

lemma rune_list_bytes: "concat (map snd (rune_list s)) = s"
  by (induction s rule: rune_list.induct) (auto split: prod.splits)

lemma ToValidUTF8_subset: "set (ToValidUTF8 s) \<subseteq> set s" "length (ToValidUTF8 s) \<le> length s"
proof -
  have gen: "set (concat (map (\<lambda>(r, bs). if P r bs then [] else bs) xs)) \<subseteq> set (concat (map snd xs)) \<and>
      length (concat (map (\<lambda>(r, bs). if P r bs then [] else bs) xs)) \<le> length (concat (map snd xs))"
    for P and xs :: "(int \<times> string) list"
    by (induction xs) auto
  from gen [of "\<lambda>r bs. r = RuneError \<and> length bs = 1" "rune_list s"]
  show "set (ToValidUTF8 s) \<subseteq> set s" "length (ToValidUTF8 s) \<le> length s"
    unfolding ToValidUTF8_def rune_list_bytes by auto
qed

lemma sanitizeValue_printable: "c \<in> set (sanitizeValue v) \<Longrightarrow> printable c"
proof -
  have "c \<in> set valueTruncated \<Longrightarrow> printable c" by (auto simp: valueTruncated_def printable_def)
  then show "c \<in> set (sanitizeValue v) \<Longrightarrow> printable c"
    using ToValidUTF8_subset(1) strings_Map_printable
    by (fastforce simp: sanitizeValue_def Let_def split: if_splits dest: in_set_takeD)
qed

lemma sanitizeValue_length: "length (sanitizeValue v) \<le> 267"
proof -
  let ?m = "strings_Map (\<lambda>r. if r < 0x20 \<or> r = 0x7f then -1 else r) v"
  have "length (ToValidUTF8 (take 256 ?m)) \<le> 256"
    using ToValidUTF8_subset(2) [of "take 256 ?m"] by simp
  then show ?thesis
    unfolding sanitizeValue_def Let_def maxLoggedValueLength_def valueTruncated_def by auto
qed

section \<open>Valid text\<close>

text \<open>A chunk of bytes that is one whole rune, whatever follows it.\<close>

definition rune_chunk :: "string \<Rightarrow> bool" where
  "rune_chunk bs \<longleftrightarrow> bs \<noteq> [] \<and> snd (DecodeRune bs) = length bs \<and> DecodeRune bs \<noteq> (RuneError, 1)"

definition valid_utf8 :: "string \<Rightarrow> bool" where
  "valid_utf8 s \<longleftrightarrow> (RuneError, 1) \<notin> (\<lambda>(r, bs). (r, length bs)) ` set (rune_list s)"

text \<open>The four shapes of a whole rune, by its first bytes.\<close>

definition lead3 :: "char \<Rightarrow> char \<Rightarrow> bool" where
  "lead3 a b \<longleftrightarrow> in_range a 224 239 \<and> cont b \<and>
     ((of_char a :: int) = 224 \<longrightarrow> 160 \<le> (of_char b :: int)) \<and> ((of_char a :: int) = 237 \<longrightarrow> (of_char b :: int) \<le> 159)"

definition lead4 :: "char \<Rightarrow> char \<Rightarrow> bool" where
  "lead4 a b \<longleftrightarrow> in_range a 240 244 \<and> cont b \<and>
     ((of_char a :: int) = 240 \<longrightarrow> 144 \<le> (of_char b :: int)) \<and> ((of_char a :: int) = 244 \<longrightarrow> (of_char b :: int) \<le> 143)"

lemma decode_1: "(of_char a :: int) < 128 \<Longrightarrow> DecodeRune (a # t) = (of_char a, 1)"
  by (simp add: DecodeRune_def)

lemma decode_2:
  "in_range a 194 223 \<Longrightarrow> cont b \<Longrightarrow> DecodeRune (a # b # t) = (of_char a mod 32 * 64 + low6 b, 2)"
  by (simp add: DecodeRune_def in_range_def)

lemma decode_3:
  "lead3 a b \<Longrightarrow> cont c \<Longrightarrow> DecodeRune (a # b # c # t) = (of_char a mod 16 * 4096 + low6 b * 64 + low6 c, 3)"
  unfolding DecodeRune_def list.case Let_def lead3_def by (simp add: in_range_def)

lemma decode_4:
  "lead4 a b \<Longrightarrow> cont c \<Longrightarrow> cont d \<Longrightarrow>
     DecodeRune (a # b # c # d # t) = (of_char a mod 8 * 262144 + low6 b * 4096 + low6 c * 64 + low6 d, 4)"
  unfolding DecodeRune_def list.case Let_def lead4_def by (simp add: in_range_def)

lemma decode_cases:
  assumes "s \<noteq> []" "DecodeRune s \<noteq> (RuneError, 1)"
  obtains (one) a t where "s = a # t" "(of_char a :: int) < 128"
  | (two) a b t where "s = a # b # t" "in_range a 194 223" "cont b"
  | (three) a b c t where "s = a # b # c # t" "lead3 a b" "cont c"
  | (four) a b c d t where "s = a # b # c # d # t" "lead4 a b" "cont c" "cont d"
proof -
  obtain a s1 where s: "s = a # s1" using assms(1) by (cases s) auto
  show thesis
  proof (cases "(of_char a :: int) < 128")
    case True
    then show thesis using one s by blast
  next
    case a: False
    then obtain b s2 where s1: "s1 = b # s2" using assms(2) s by (cases s1) (auto simp: DecodeRune_def)
    show thesis
    proof (cases "in_range a 194 223 \<and> cont b")
      case True
      then show thesis using two s s1 by blast
    next
      case b: False
      then obtain c s3 where s2: "s2 = c # s3" using assms(2) s s1 a by (cases s2) (auto simp: DecodeRune_def)
      show thesis
      proof (cases "lead3 a b \<and> cont c")
        case True
        then show thesis using three s s1 s2 by blast
      next
        case c: False
        have eq: "DecodeRune s = (case s3 of [] \<Rightarrow> (RuneError, 1) | d # _ \<Rightarrow>
            if lead4 a b \<and> cont c \<and> cont d
            then (of_char a mod 8 * 262144 + low6 b * 4096 + low6 c * 64 + low6 d, 4) else (RuneError, 1))"
          using a b c unfolding s s1 s2 DecodeRune_def list.case Let_def lead3_def lead4_def
          by (auto split: list.split)
        then obtain d s4 where "s3 = d # s4" using assms(2) by (cases s3) auto
        with eq assms(2) show thesis using four [of a b c d s4] s s1 s2 by (auto split: if_splits)
      qed
    qed
  qed
qed

lemma rune_chunk_shape:
  assumes "rune_chunk bs"
  obtains (one) a where "bs = [a]" "(of_char a :: int) < 128"
  | (two) a b where "bs = [a, b]" "in_range a 194 223" "cont b"
  | (three) a b c where "bs = [a, b, c]" "lead3 a b" "cont c"
  | (four) a b c d where "bs = [a, b, c, d]" "lead4 a b" "cont c" "cont d"
proof -
  have bs: "bs \<noteq> []" "DecodeRune bs \<noteq> (RuneError, 1)" "snd (DecodeRune bs) = length bs"
    using assms by (auto simp: rune_chunk_def)
  show thesis
    using bs(1,2)
  proof (cases rule: decode_cases)
    case (one a t)
    with bs(3) that(1) show thesis by (simp add: decode_1)
  next
    case (two a b t)
    with bs(3) that(2) show thesis by (simp add: decode_2)
  next
    case (three a b c t)
    with bs(3) that(3) show thesis by (simp add: decode_3)
  next
    case (four a b c d t)
    with bs(3) that(4) show thesis by (simp add: decode_4)
  qed
qed

lemma DecodeRune_local:
  assumes "rune_chunk bs"
  shows "DecodeRune (bs @ t) = DecodeRune bs"
  using assms by (cases rule: rune_chunk_shape) (simp_all add: decode_1 decode_2 decode_3 decode_4)

lemma rune_list_chunk:
  assumes "rune_chunk bs"
  shows "rune_list (bs @ t) = (fst (DecodeRune bs), bs) # rune_list t"
proof -
  obtain c cs where bs: "bs = c # cs" using assms by (auto simp: rune_chunk_def neq_Nil_conv)
  have "DecodeRune (c # cs @ t) = (fst (DecodeRune bs), Suc (length cs))"
    using DecodeRune_local [OF assms, of t] assms by (auto simp: rune_chunk_def bs prod_eq_iff)
  then show ?thesis by (simp add: bs)
qed

lemma valid_chunks: "\<forall>bs \<in> set bss. rune_chunk bs \<Longrightarrow> valid_utf8 (concat bss)"
proof (induction bss)
  case (Cons bs bss)
  then have "rune_chunk bs" by simp
  then have "(RuneError, 1) \<noteq> (fst (DecodeRune bs), length bs)" by (auto simp: rune_chunk_def prod_eq_iff)
  with Cons rune_list_chunk [of bs "concat bss"] show ?case by (auto simp: valid_utf8_def)
qed (simp add: valid_utf8_def)

lemma DecodeRune_take:
  assumes "s \<noteq> []" "DecodeRune s = (r, w)" "(r, w) \<noteq> (RuneError, 1)"
  shows "DecodeRune (take w s) = (r, w) \<and> 1 \<le> w \<and> w \<le> length s"
proof -
  have "DecodeRune s \<noteq> (RuneError, 1)" using assms by simp
  with assms(1) show ?thesis
    using assms(2) by (cases rule: decode_cases) (auto simp: decode_1 decode_2 decode_3 decode_4)
qed

lemma rune_list_chunks: "(r, bs) \<in> set (rune_list s) \<Longrightarrow> (r, length bs) \<noteq> (RuneError, 1) \<Longrightarrow> rune_chunk bs"
proof (induction s rule: rune_list.induct)
  case (2 c cs)
  obtain r0 w where d: "DecodeRune (c # cs) = (r0, w)" by (metis surj_pair)
  from "2.prems"(1) d consider "r = r0" "bs = c # take (w - 1) cs" | "(r, bs) \<in> set (rune_list (drop (w - 1) cs))" by auto
  then show ?case
  proof cases
    case 1
    show ?thesis
    proof (cases "(r0, w) = (RuneError, 1)")
      case False
      from DecodeRune_take [OF _ d False] have t: "DecodeRune (take w (c # cs)) = (r0, w)" "1 \<le> w" "w \<le> Suc (length cs)" by auto
      then have "bs = take w (c # cs)" using 1 by (cases w) auto
      with t False show ?thesis by (auto simp: rune_chunk_def)
    qed (use 1 "2.prems" in simp)
  next
    case 2
    with "2.IH" [OF d [symmetric]] "2.prems"(2) show ?thesis by blast
  qed
qed simp

lemma concat_kept:
  "concat (map (\<lambda>(r, bs). if P r bs then [] else f r bs) xs) =
     concat (map (\<lambda>(r, bs). f r bs) (filter (\<lambda>(r, bs). \<not> P r bs) xs))"
  by (induction xs) auto

lemma ToValidUTF8_valid: "valid_utf8 (ToValidUTF8 s)"
proof -
  have "\<forall>bs \<in> set (map (\<lambda>(r, bs). bs) (filter (\<lambda>(r, bs). \<not> (r = RuneError \<and> length bs = 1)) (rune_list s))). rune_chunk bs"
    using rune_list_chunks [of _ _ s] by auto
  then show ?thesis unfolding ToValidUTF8_def concat_kept by (rule valid_chunks)
qed

lemma chunk_2:
  assumes "2 \<le> a" "a < 32" "0 \<le> b" "b < 64"
  shows "rune_chunk [byte (192 + a), byte (128 + b)]"
proof -
  have "in_range (byte (192 + a)) 194 223" "cont (byte (128 + b))"
    using assms by (simp_all add: of_char_byte in_range_def cont_def)
  then show ?thesis by (simp add: rune_chunk_def decode_2)
qed

lemma chunk_3:
  assumes "0 \<le> a" "a < 16" "0 \<le> b" "b < 64" "0 \<le> c" "c < 64" "a = 0 \<Longrightarrow> 32 \<le> b" "a = 13 \<Longrightarrow> b \<le> 31"
  shows "rune_chunk [byte (224 + a), byte (128 + b), byte (128 + c)]"
proof -
  have "lead3 (byte (224 + a)) (byte (128 + b))" "cont (byte (128 + c))"
    using assms by (auto simp: of_char_byte in_range_def cont_def lead3_def)
  then show ?thesis by (simp add: rune_chunk_def decode_3)
qed

lemma chunk_4:
  assumes "0 \<le> a" "a \<le> 4" "0 \<le> b" "b < 64" "0 \<le> c" "c < 64" "0 \<le> d" "d < 64"
    and "a = 0 \<Longrightarrow> 16 \<le> b" "a = 4 \<Longrightarrow> b \<le> 15"
  shows "rune_chunk [byte (240 + a), byte (128 + b), byte (128 + c), byte (128 + d)]"
proof -
  have "lead4 (byte (240 + a)) (byte (128 + b))" "cont (byte (128 + c))" "cont (byte (128 + d))"
    using assms by (auto simp: of_char_byte in_range_def cont_def lead4_def)
  then show ?thesis by (simp add: rune_chunk_def decode_4)
qed

lemma div_bracket: "0 < m \<Longrightarrow> m * (k div m) \<le> k \<and> k < m * (k div m) + m \<and> k mod m = k - m * (k div m)" for k m :: int
  using mult_div_mod_eq [of m k] pos_mod_bound [of m k] pos_mod_sign [of m k] by linarith

lemma EncodeRune_chunk:
  assumes "0 \<le> r"
  shows "rune_chunk (EncodeRune r)"
proof -
  have bad: "rune_chunk (map byte [239, 191, 189])" using chunk_3 [of 15 63 61] by simp
  consider "r < 128" | "128 \<le> r" "r < 2048" | "2048 \<le> r" "55296 \<le> r \<and> r \<le> 57343 \<or> 1114111 < r"
    | "2048 \<le> r" "r < 65536" "\<not> (55296 \<le> r \<and> r \<le> 57343)" | "65536 \<le> r" "r \<le> 1114111" by linarith
  then show ?thesis
  proof cases
    case 1
    then show ?thesis using assms by (simp add: EncodeRune_def rune_chunk_def decode_1 of_char_byte RuneError_def)
  next
    case 2
    then show ?thesis using chunk_2 [of "r div 64" "r mod 64"] by (simp add: EncodeRune_def)
  next
    case 3
    then show ?thesis using bad by (auto simp: EncodeRune_def)
  next
    case 4
    define q where "q = r div 64"
    have d: "r div 4096 = q div 64" using zdiv_zmult2_eq [of 64 r 64] by (simp add: q_def)
    from 4 div_bracket [of 64 r] have q: "32 \<le> q" "q < 1024" "q < 864 \<or> 896 \<le> q" unfolding q_def [symmetric] by linarith+
    from q div_bracket [of 64 q] have "q div 64 = 0 \<Longrightarrow> 32 \<le> q mod 64" "q div 64 = 13 \<Longrightarrow> q mod 64 \<le> 31" "0 \<le> q div 64" "q div 64 < 16" by auto
    then have "rune_chunk [byte (224 + q div 64), byte (128 + q mod 64), byte (128 + r mod 64)]"
      by (intro chunk_3) simp_all
    moreover have "EncodeRune r = [byte (224 + q div 64), byte (128 + q mod 64), byte (128 + r mod 64)]"
      unfolding EncodeRune_def d q_def [symmetric] using 4 by auto
    ultimately show ?thesis by simp
  next
    case 5
    define q where "q = r div 4096"
    have d: "r div 262144 = q div 64" using zdiv_zmult2_eq [of 64 r 4096] by (simp add: q_def)
    from 5 div_bracket [of 4096 r] have q: "16 \<le> q" "q \<le> 271" unfolding q_def [symmetric] by linarith+
    from q div_bracket [of 64 q] have "q div 64 = 0 \<Longrightarrow> 16 \<le> q mod 64" "q div 64 = 4 \<Longrightarrow> q mod 64 \<le> 15" "0 \<le> q div 64" "q div 64 \<le> 4" by auto
    then have "rune_chunk [byte (240 + q div 64), byte (128 + q mod 64), byte (128 + r div 64 mod 64), byte (128 + r mod 64)]"
      by (intro chunk_4) simp_all
    moreover have "EncodeRune r = [byte (240 + q div 64), byte (128 + q mod 64), byte (128 + r div 64 mod 64), byte (128 + r mod 64)]"
      unfolding EncodeRune_def d q_def [symmetric] using 5 by auto
    ultimately show ?thesis by simp
  qed
qed

lemma strings_Map_valid: "valid_utf8 (strings_Map mapping v)"
proof -
  have "\<forall>bs \<in> set (map (\<lambda>(r, bs). EncodeRune (mapping r)) (filter (\<lambda>(r, bs). \<not> mapping r < 0) (rune_list v))). rune_chunk bs"
    by (auto intro: EncodeRune_chunk)
  then show ?thesis unfolding strings_Map_def Let_def concat_kept by (rule valid_chunks)
qed

lemma valid_utf8_chunk:
  assumes "valid_utf8 x" "(r, bs) \<in> set (rune_list x)"
  shows "rune_chunk bs"
proof -
  have "(r, length bs) \<in> (\<lambda>(r, bs). (r, length bs)) ` set (rune_list x)"
    using assms(2) by (intro rev_image_eqI [OF assms(2)]) simp
  with assms(1) have "(r, length bs) \<noteq> (RuneError, 1)" unfolding valid_utf8_def by metis
  with assms(2) show ?thesis by (rule rune_list_chunks)
qed

lemma valid_utf8_append:
  assumes "valid_utf8 s" "valid_utf8 t"
  shows "valid_utf8 (s @ t)"
proof -
  have "\<forall>bs \<in> set (map snd (rune_list s) @ map snd (rune_list t)). rune_chunk bs"
    using assms by (auto intro: valid_utf8_chunk)
  from valid_chunks [OF this] show ?thesis by (simp add: rune_list_bytes)
qed

lemma sanitizeValue_valid: "valid_utf8 (sanitizeValue v)"
proof -
  have "rune_list valueTruncated = map (\<lambda>c. (of_char c, [c])) valueTruncated"
    by (simp add: valueTruncated_def decode_1)
  then have "valid_utf8 valueTruncated" by (auto simp: valid_utf8_def valueTruncated_def RuneError_def)
  then show ?thesis
    by (simp add: sanitizeValue_def Let_def strings_Map_valid ToValidUTF8_valid valid_utf8_append)
qed

lemma sanitizePath_cut: "sanitizePath (path @ CHR ''?'' # q) = sanitizeValue (fst (Cut path (CHR ''?''))) @ queryRedacted"
proof (cases "CHR ''?'' \<in> set path")
  case True
  then obtain a b where "path = a @ CHR ''?'' # b" "CHR ''?'' \<notin> set a" by (metis split_list_first)
  then show ?thesis by (simp add: sanitizePath_def)
next
  case False
  then show ?thesis by (simp add: sanitizePath_def Cut_append [OF False] Cut_no_sep [OF False])
qed

section \<open>Properties\<close>

text \<open>
  What the server logs of a path is safe text. It has no control character, so a caller cannot forge a
  second line. It is at most 278 bytes. It is valid UTF-8, also where it was cut. It does not depend on the
  query string, which may hold credentials.
\<close>

theorem logged_path_safe:
  "list_all printable (sanitizePath path) \<and> length (sanitizePath path) \<le> 278 \<and> valid_utf8 (sanitizePath path) \<and>
   sanitizePath (path @ CHR ''?'' # q) = sanitizePath (path @ CHR ''?'' # q')"
proof -
  obtain before rest found where c: "Cut path (CHR ''?'') = (before, rest, found)" by (metis surj_pair)
  have red: "list_all printable queryRedacted" "length queryRedacted = 11" "valid_utf8 queryRedacted"
    by (auto simp: queryRedacted_def printable_def valid_utf8_def decode_1 RuneError_def)
  have "list_all printable (sanitizePath path)"
    using red sanitizeValue_printable by (auto simp: sanitizePath_def c list_all_iff)
  moreover have "length (sanitizePath path) \<le> 278"
    using red sanitizeValue_length [of before] by (auto simp: sanitizePath_def c)
  moreover have "valid_utf8 (sanitizePath path)"
    using red sanitizeValue_valid [of before] by (auto simp: sanitizePath_def c intro: valid_utf8_append)
  ultimately show ?thesis by (simp add: sanitizePath_cut)
qed

end
