(* ===== verification/Rls_Server.thy ===== *)
theory Rls_Server
  imports Engine_Pipeline Lua_Number Rule_Set Rls_Sampler Rls_Log
begin

text \<open>
  The rate limit server (\<open>service/internal/rls/server.go\<close>): one check of the gateway, with its
  descriptors, becomes one engine request per descriptor, and their decisions become one answer. The
  counter store's two methods are parameters of the handler, as they are of the engine; metrics and log
  lines are recorded as events in the order they happen. A check logs at most one sampled line, so one
  reading \<open>sec\<close> of the clock in Unix seconds serves it. \<open>None\<close> is a panic. Floating-point numbers are
  doubles that round after every operation, without fused multiply-add.
\<close>

section \<open>Messages\<close>

record descriptor =
  ds_Entries :: "(string \<times> string) list"
  ds_HitsAddend :: "int option"
  ds_IsNegativeHits :: bool

record rls_request =
  rr_Domain :: string
  rr_Descriptors :: "descriptor list"
  rr_HitsAddend :: int

datatype rls_code = RLS_OK | RLS_OVER_LIMIT

record rls_response =
  rp_OverallCode :: rls_code
  rp_Headers :: "(string \<times> string) list"

section \<open>The server\<close>

definition maxDescriptorsPerCheck :: nat where "maxDescriptorsPerCheck = 16"
definition maxHitsAddend :: int where "maxHitsAddend = MaxCost"
definition DefaultNearLimitRatio :: rat where "DefaultNearLimitRatio = dbl (9 / 10)"
definition refusalLogPerSecond :: int where "refusalLogPerSecond = 10"

record rls_server =
  sv_nearLimitRatio :: rat
  sv_ietfHeaders :: bool
  sv_exemptPrefix :: string
  sv_exemptDomains :: "string list"

definition WithNearLimitRatio :: "rat \<Rightarrow> rls_server \<Rightarrow> rls_server" where
  "WithNearLimitRatio ratio s = (if ratio > 0 \<and> ratio < 1 then s\<lparr>sv_nearLimitRatio := ratio\<rparr> else s)"

definition WithIETFHeaders :: "bool \<Rightarrow> rls_server \<Rightarrow> rls_server" where
  "WithIETFHeaders enabled s = s\<lparr>sv_ietfHeaders := enabled\<rparr>"

definition WithExemptPath :: "string \<Rightarrow> string list \<Rightarrow> rls_server \<Rightarrow> rls_server" where
  "WithExemptPath pfx domains s =
     (if pfx = [] \<or> length domains = 0 then s
      else s\<lparr>sv_exemptPrefix := pfx, sv_exemptDomains := domains\<rparr>)"

definition NewServer :: "(rls_server \<Rightarrow> rls_server) list \<Rightarrow> rls_server" where
  "NewServer opts =
     fold (\<lambda>f s. f s) opts
       \<lparr>sv_nearLimitRatio = DefaultNearLimitRatio, sv_ietfHeaders = True, sv_exemptPrefix = [], sv_exemptDomains = []\<rparr>"

text \<open>What the handler does outside its answer: metric increments and log lines.\<close>

datatype level = LInfo | LError | LDebug

datatype event =
    MUnknownDomain
  | MCheck string string
  | MDuration string
  | MRefusal string string
  | MTokenSeen string
  | MDecision string string string
  | MNearLimit string string
  | MSkip string string string
  | MExtraction string string
  | MUnmatched string
  | LogLine level string "fmt_arg list"

text \<open>The state a check touches: the rule store, the counters, the four samplers.\<close>

record 's rls_world =
  rw_store :: rule_store
  rw_counters :: 's
  rw_refusalLog :: logSampler
  rw_violationLog :: logSampler
  rw_unknownLog :: logSampler
  rw_storeLog :: logSampler
  rw_events :: "event list"

definition new_world :: "rule_store \<Rightarrow> 's \<Rightarrow> 's rls_world" where
  "new_world st counters =
     \<lparr>rw_store = st, rw_counters = counters, rw_refusalLog = new_sampler refusalLogPerSecond,
      rw_violationLog = new_sampler refusalLogPerSecond, rw_unknownLog = new_sampler refusalLogPerSecond,
      rw_storeLog = new_sampler refusalLogPerSecond, rw_events = []\<rparr>"

definition emit :: "event list \<Rightarrow> ('s, 'z) rls_world_scheme \<Rightarrow> ('s, 'z) rls_world_scheme" where
  "emit es w = w\<lparr>rw_events := rw_events w @ es\<rparr>"

section \<open>Requests\<close>

record check =
  ck_req :: request_msg
  ck_free :: bool

definition empty_request :: "int \<Rightarrow> request_msg" where
  "empty_request cost = \<lparr>rq_Path = [], rq_Method = [], rq_Token = [], rq_Keys = [], rq_Cost = cost\<rparr>"

definition add_entry :: "string \<times> string \<Rightarrow> request_msg \<Rightarrow> request_msg" where
  "add_entry entry er =
     (let (key, v) = entry in
      if v = [] then er
      else if key = ''path'' then er\<lparr>rq_Path := v\<rparr>
      else if key = ''method'' then er\<lparr>rq_Method := v\<rparr>
      else if key = ''token'' then er\<lparr>rq_Token := v\<rparr>
      else if key = ''request_id'' then er
      else er\<lparr>rq_Keys := AList.update key ((case map_of (rq_Keys er) key of Some vs \<Rightarrow> vs | None \<Rightarrow> []) @ [v]) (rq_Keys er)\<rparr>)"

definition engineRequest :: "int \<Rightarrow> descriptor \<Rightarrow> check" where
  "engineRequest cost d =
     (let own = (case ds_HitsAddend d of None \<Rightarrow> cost | Some a \<Rightarrow> wrap64 a);
          free = (case ds_HitsAddend d of None \<Rightarrow> False | Some a \<Rightarrow> own = 0)
      in \<lparr>ck_req = fold add_entry (ds_Entries d) (empty_request own), ck_free = free\<rparr>)"

definition engineRequests :: "rls_request \<Rightarrow> check list" where
  "engineRequests req =
     (let cost = rr_HitsAddend req in
      if length (rr_Descriptors req) = 0 then [\<lparr>ck_req = empty_request cost, ck_free = False\<rparr>]
      else map (engineRequest cost) (rr_Descriptors req))"

text \<open>The loop of \<open>costViolation\<close>; a \<open>uint64\<close> sum wraps. The result is the violation, unrendered, \<open>None\<close> for none.\<close>

fun cost_loop :: "int \<Rightarrow> int \<Rightarrow> int \<Rightarrow> descriptor list \<Rightarrow> goerror + int" where
  "cost_loop requestCost i acc [] = Inr acc"
| "cost_loop requestCost i acc (d # ds) =
     (if ds_IsNegativeHits d then Inl (Errorf ''is_negative_hits on descriptor %d'' [FInt i])
      else (case ds_HitsAddend d of
          None \<Rightarrow> cost_loop requestCost (i + 1) ((acc + requestCost) mod 2 ^ 64) ds
        | Some a \<Rightarrow>
            if a > maxHitsAddend then
              Inl (Errorf ''hits_addend %d on descriptor %d, over the limit of %d'' [FInt a, FInt i, FInt maxHitsAddend])
            else cost_loop requestCost (i + 1) ((acc + a) mod 2 ^ 64) ds))"

definition costViolation :: "rls_request \<Rightarrow> goerror option" where
  "costViolation req =
     (let requestCost = (if rr_HitsAddend req = 0 then 1 else rr_HitsAddend req) in
      case cost_loop requestCost 0 0 (rr_Descriptors req) of
        Inl v \<Rightarrow> Some v
      | Inr acc \<Rightarrow>
          let whole = (if length (rr_Descriptors req) = 0 then requestCost else acc) in
          if whole > maxHitsAddend
          then Some (Errorf ''a total cost of %d, over the limit of %d'' [FInt whole, FInt maxHitsAddend]) else None)"

definition underPrefix :: "string \<Rightarrow> string \<Rightarrow> bool" where
  "underPrefix path pfx =
     (let p = fst (Cut path (CHR ''?'')) in
      HasPrefix p pfx \<and> (let rest = drop (length pfx) p in rest = [] \<or> hd rest = CHR ''/''))"

definition withoutExempt :: "rls_server \<Rightarrow> string \<Rightarrow> check list \<Rightarrow> check list" where
  "withoutExempt s domain requests =
     (if domain \<notin> set (sv_exemptDomains s) then requests
      else filter (\<lambda>c. \<not> underPrefix (rq_Path (ck_req c)) (sv_exemptPrefix s)) requests)"

definition loggableEntries :: "rls_request \<Rightarrow> string \<times> string" where
  "loggableEntries req =
     fold (\<lambda>(key, v) (path, requestID).
         if key = ''path'' then (sanitizePath v, requestID)
         else if key = ''request_id'' then (path, sanitizeValue v)
         else (path, requestID))
       (concat (map ds_Entries (rr_Descriptors req))) ([], [])"

section \<open>Metrics and headers\<close>

definition RuleID :: "string \<Rightarrow> string \<Rightarrow> string" where
  "RuleID block rule = block @ ''/'' @ rule"

definition nearLimit :: "rule_outcome \<Rightarrow> rat \<Rightarrow> bool" where
  "nearLimit rule ratio =
     (let capacity = dbl (of_int (ro_Capacity rule)) in
      ro_Capacity rule > 0 \<and>
      dbl (of_int (ro_Remaining rule)) \<le>
        ladd (lmul capacity (lsub 1 ratio)) (lmul capacity (dbl (1 / 10 ^ 12))))"

definition rule_events :: "rls_server \<Rightarrow> string \<Rightarrow> rule_outcome \<Rightarrow> event list" where
  "rule_events s domain rule =
     (let i = RuleID (ro_Block rule) (ro_Rule rule);
          outcome = (if \<not> ro_Allowed rule then if ro_Shadow rule then ''shadow_over_limit'' else ''over_limit'' else ''ok'')
      in MDecision domain i outcome #
         (if ro_Allowed rule \<and> \<not> ro_Shadow rule \<and> nearLimit rule (sv_nearLimitRatio s) then [MNearLimit domain i] else []))"

definition observeDecision :: "rls_server \<Rightarrow> string \<Rightarrow> decision \<Rightarrow> event list" where
  "observeDecision s domain d =
     concat (map (rule_events s domain) (dc_Rules d)) @
     map (\<lambda>sk. MSkip domain (sk_Key sk) (sk_Reason sk)) (dc_Skips d) @
     map (MExtraction domain) (dc_ExtractedKeys d)"

definition ceilSeconds :: "int \<Rightarrow> int" where
  "ceilSeconds d = (if d \<le> 0 then 0 else quo64 (sub64 (add64 d Second) 1) Second)"

definition stricter_decision :: "bool \<Rightarrow> headers \<Rightarrow> headers \<Rightarrow> bool" where
  "stricter_decision allowed h best =
     (if allowed then mul64 (hd_Remaining h) (hd_Cost best) < mul64 (hd_Remaining best) (hd_Cost h)
      else hd_RetryAfter h > hd_RetryAfter best)"

definition strictest_pick :: "bool \<Rightarrow> decision \<Rightarrow> decision \<Rightarrow> decision" where
  "strictest_pick allowed d best =
     (case dc_Headers d of
        None \<Rightarrow> best
      | Some h \<Rightarrow>
          if dc_Allowed d \<noteq> allowed then best
          else (case dc_Headers best of
              None \<Rightarrow> d
            | Some b \<Rightarrow> if stricter_decision allowed h b then d else best))"

definition strictestDecision :: "decision list \<Rightarrow> bool \<Rightarrow> decision" where
  "strictestDecision decisions allowed =
     (let best = fold (strictest_pick allowed) decisions no_decision in
      if dc_Headers best = None then best\<lparr>dc_Allowed := allowed\<rparr> else best)"

definition responseHeaders :: "rls_server \<Rightarrow> decision \<Rightarrow> (string \<times> string) list" where
  "responseHeaders s d =
     (case dc_Headers d of
        None \<Rightarrow> []
      | Some h \<Rightarrow>
          let out = [(''x-ratelimit-limit'', FormatInt (hd_Limit h)),
                     (''x-ratelimit-remaining'', FormatInt (hd_Remaining h)),
                     (''x-ratelimit-reset'', FormatInt (ceilSeconds (hd_ResetAfter h)))] @
                    (if \<not> dc_Allowed d \<and> hd_RetryAfter h \<ge> 0
                     then [(''retry-after'', FormatInt (ceilSeconds (hd_RetryAfter h)))] else []);
              policy = [CHR 0x22] @ hd_Block h @ ''/'' @ hd_Rule h @ [CHR 0x22];
              quota = policy @ '';r='' @ FormatInt (hd_Remaining h) @
                      (if hd_EffectiveWindow h \<ge> 0 then '';t='' @ FormatInt (ceilSeconds (hd_EffectiveWindow h)) else [])
          in if \<not> sv_ietfHeaders s then out
             else out @ [(''ratelimit-policy'', policy @ '';q='' @ FormatInt (hd_Limit h) @ '';w='' @ FormatInt (hd_PeriodSeconds h)),
                         (''ratelimit'', quota)])"

section \<open>Sampled log lines\<close>

definition sampled :: "logSampler \<Rightarrow> int \<Rightarrow> level \<Rightarrow> string \<Rightarrow> fmt_arg list \<Rightarrow> event list \<times> logSampler" where
  "sampled l sec lv fmt args =
     (case admit l sec of (ok, dropped, l') \<Rightarrow> (if ok then [LogLine lv fmt (args @ [FInt dropped])] else [], l'))"

definition logRefusal :: "int \<Rightarrow> string \<Rightarrow> string \<Rightarrow> 's rls_world \<Rightarrow> 's rls_world" where
  "logRefusal sec domain path w =
     (let (es, l) = sampled (rw_refusalLog w) sec LInfo ''rate limit refused domain=%v path=%v suppressed=%v'' [FStr domain, FStr path]
      in emit es (w\<lparr>rw_refusalLog := l\<rparr>))"

definition logViolation :: "int \<Rightarrow> string \<Rightarrow> fmt_arg list \<Rightarrow> 's rls_world \<Rightarrow> 's rls_world" where
  "logViolation sec fmt args w =
     (let (es, l) = sampled (rw_violationLog w) sec LError (fmt @ '' suppressed=%v'') args in emit es (w\<lparr>rw_violationLog := l\<rparr>))"

definition logStoreError :: "int \<Rightarrow> string \<Rightarrow> fmt_arg list \<Rightarrow> 's rls_world \<Rightarrow> 's rls_world" where
  "logStoreError sec fmt args w =
     (let (es, l) = sampled (rw_storeLog w) sec LError (fmt @ '' suppressed=%v'') args in emit es (w\<lparr>rw_storeLog := l\<rparr>))"

section \<open>The handler\<close>

definition tooManyBuckets :: "goerror \<Rightarrow> bool" where
  "tooManyBuckets err \<longleftrightarrow>
     (case err of
        Errorf f (FStr s # _) \<Rightarrow>
          f = ''%w: the request matched %d buckets'' \<and> s = ''engine: the decision exceeds the bucket budget''
      | _ \<Rightarrow> False)"

definition over_limit :: "(string \<times> string) list \<Rightarrow> rls_response" where
  "over_limit hs = \<lparr>rp_OverallCode = RLS_OVER_LIMIT, rp_Headers = hs\<rparr>"

definition unavailable :: goerror where
  "unavailable = Errorf ''rpc error: code = Unavailable desc = rate limit store unavailable'' []"

text \<open>An engine request that failed ends the check: the answer by the kind of the error.\<close>

definition failed_check ::
  "rls_server \<Rightarrow> int \<Rightarrow> string \<Rightarrow> string \<Rightarrow> goerror \<Rightarrow> decision list \<Rightarrow> bool \<Rightarrow> 's rls_world \<Rightarrow> rls_response result \<times> 's rls_world" where
  "failed_check s sec domain path err decisions allowed w =
     (if tooManyBuckets err then
        (Inr (over_limit []),
         logViolation sec ''rate limit decision over the bucket budget domain=%v path=%v error=%v'' [FStr domain, FStr path, FErr err]
           (emit [MRefusal domain ''too_many_buckets'', MCheck domain ''over_limit''] w))
      else if \<not> allowed then
        (Inr (over_limit (responseHeaders s (strictestDecision decisions False))),
         logStoreError sec ''rate limit store error after a refusal domain=%v path=%v error=%v'' [FStr domain, FStr path, FErr err]
           (emit [MCheck domain ''over_limit''] w))
      else
        (Inl unavailable,
         logStoreError sec ''rate limit store error domain=%v path=%v error=%v'' [FStr domain, FStr path, FErr err]
           (emit [MCheck domain ''unavailable''] w)))"

text \<open>The end of a check whose requests were all decided.\<close>

definition answer_check ::
  "rls_server \<Rightarrow> int \<Rightarrow> string \<Rightarrow> string \<Rightarrow> decision list \<Rightarrow> bool \<Rightarrow> 's rls_world \<Rightarrow> rls_response result \<times> 's rls_world" where
  "answer_check s sec domain path decisions allowed w =
     (let rules = sum_list (map (\<lambda>d. length (dc_Rules d)) decisions);
          w1 = emit ([MCheck domain (if allowed then ''ok'' else ''over_limit'')] @
                     (if rules = 0 then [MUnmatched domain] else [])) w;
          w2 = (if allowed then w1 else logRefusal sec domain path w1);
          w3 = emit [LogLine LDebug ''rate limit check domain=%v path=%v allowed=%v rules=%v''
                       [FStr domain, FStr path, FStr (if allowed then ''true'' else ''false''), FInt (int rules)]] w2
      in (Inr \<lparr>rp_OverallCode = (if allowed then RLS_OK else RLS_OVER_LIMIT),
               rp_Headers = responseHeaders s (strictestDecision decisions allowed)\<rparr>, w3))"

text \<open>The engine call of one request: \<open>Peek\<close> for a descriptor that asks for a free check.\<close>

definition run_check ::
  "(string \<Rightarrow> string) \<Rightarrow> (string \<Rightarrow> string) \<Rightarrow> ('s \<Rightarrow> bucket list \<Rightarrow> verdict list result \<times> 's) \<Rightarrow>
     ('s \<Rightarrow> bucket list \<Rightarrow> verdict list result \<times> 's) \<Rightarrow> engine \<Rightarrow> 's \<Rightarrow> check \<Rightarrow> (decision result \<times> engine \<times> 's) option" where
  "run_check sha ul decide peek en st c = evaluate sha ul (if ck_free c then peek else decide) en st (ck_req c)"

text \<open>The loop over the requests, with the engine that \<open>ShouldRateLimit\<close> loaded.\<close>

fun decide_loop ::
  "(engine \<Rightarrow> 's \<Rightarrow> check \<Rightarrow> (decision result \<times> engine \<times> 's) option) \<Rightarrow> rls_server \<Rightarrow> int \<Rightarrow> string \<Rightarrow> string \<Rightarrow>
     check list \<Rightarrow> decision list \<Rightarrow> bool \<Rightarrow> engine \<Rightarrow> 's rls_world \<Rightarrow> (rls_response result \<times> engine \<times> 's rls_world) option" where
  "decide_loop run s sec domain path [] decisions allowed en w =
     (case answer_check s sec domain path decisions allowed w of (res, w') \<Rightarrow> Some (res, en, w'))"
| "decide_loop run s sec domain path (c # cs) decisions allowed en w =
     (case run en (rw_counters w) c of
        None \<Rightarrow> None
      | Some (Inl err, en1, st) \<Rightarrow>
          (case failed_check s sec domain path err decisions allowed (w\<lparr>rw_counters := st\<rparr>) of (res, w') \<Rightarrow> Some (res, en1, w'))
      | Some (Inr d, en1, st) \<Rightarrow>
          decide_loop run s sec domain path cs (decisions @ [d]) (allowed \<and> dc_Allowed d) en1
            (emit ((if rq_Token (ck_req c) \<noteq> [] \<and> dc_Targeted d then [MTokenSeen domain] else []) @ observeDecision s domain d)
              (w\<lparr>rw_counters := st\<rparr>)))"

text \<open>A check of a domain no policy claims, and of one with an engine.\<close>

definition unknown_domain :: "int \<Rightarrow> rls_request \<Rightarrow> 's rls_world \<Rightarrow> rls_response result \<times> 's rls_world" where
  "unknown_domain sec req w =
     (let (es, l) = sampled (rw_unknownLog w) sec LInfo
            ''unknown rate limit domain: no RateLimitPolicy is bound to it domain=%v path=%v suppressed=%v''
            [FStr (sanitizeValue (rr_Domain req)), FStr (fst (loggableEntries req))]
      in (Inr \<lparr>rp_OverallCode = RLS_OK, rp_Headers = []\<rparr>,
          emit ([MUnknownDomain, MCheck ''[unknown]'' ''ok'', MDuration ''[unknown]''] @ es) (w\<lparr>rw_unknownLog := l\<rparr>)))"

definition known_domain ::
  "(engine \<Rightarrow> 's \<Rightarrow> check \<Rightarrow> (decision result \<times> engine \<times> 's) option) \<Rightarrow> rls_server \<Rightarrow> int \<Rightarrow> rls_request \<Rightarrow>
     engine \<Rightarrow> 's rls_world \<Rightarrow> (rls_response result \<times> engine \<times> 's rls_world) option" where
  "known_domain run s sec req en w =
     (let domain = rr_Domain req; path = fst (loggableEntries req); requests = engineRequests req in
      if length requests > maxDescriptorsPerCheck then
        Some (Inr (over_limit []), en,
          logViolation sec ''rate limit check carries %v descriptors, over the limit of %v domain=%v path=%v''
            [FInt (int (length requests)), FInt (int maxDescriptorsPerCheck), FStr domain, FStr path]
            (emit [MRefusal domain ''too_many_descriptors'', MCheck domain ''over_limit''] w))
      else (case costViolation req of
          Some violation \<Rightarrow>
            Some (Inr (over_limit []), en,
              logViolation sec ''rate limit check carries %v domain=%v path=%v'' [FErr violation, FStr domain, FStr path]
                (emit [MRefusal domain ''invalid_cost'', MCheck domain ''over_limit''] w))
        | None \<Rightarrow>
            let kept = withoutExempt s domain requests in
            if length kept = 0 then
              Some (Inr \<lparr>rp_OverallCode = RLS_OK, rp_Headers = []\<rparr>, en,
                emit [MCheck domain ''exempt'', LogLine LDebug ''rate limit check exempt domain=%v path=%v'' [FStr domain, FStr path]] w)
            else decide_loop run s sec domain path kept [] True en w))"

text \<open>The deferred duration is observed last.\<close>

definition ShouldRateLimit ::
  "(string \<Rightarrow> string) \<Rightarrow> (string \<Rightarrow> string) \<Rightarrow> ('s \<Rightarrow> bucket list \<Rightarrow> verdict list result \<times> 's) \<Rightarrow>
     ('s \<Rightarrow> bucket list \<Rightarrow> verdict list result \<times> 's) \<Rightarrow> rls_server \<Rightarrow> int \<Rightarrow> rls_request \<Rightarrow>
     's rls_world \<Rightarrow> (rls_response result \<times> 's rls_world) option" where
  "ShouldRateLimit sha ul decide peek s sec req w =
     (case store_Engine (rw_store w) (rr_Domain req) of
        None \<Rightarrow> Some (unknown_domain sec req w)
      | Some en \<Rightarrow> do {
          (res, en', w') \<leftarrow> known_domain (run_check sha ul decide peek) s sec req en w;
          Some (res, emit [MDuration (rr_Domain req)] (w'\<lparr>rw_store := touch_engine (rr_Domain req) en' (rw_store w')\<rparr>)) })"

end
