(* ===== verification/Rls_Headers.thy ===== *)
theory Rls_Headers
  imports Rls_Server
begin

text \<open>
  The numbers the rate limit server shows: the retry hint of a refused check, and the near-limit series,
  whose margin is computed in floating point.
\<close>

section \<open>The retry hint\<close>

abbreviation wait_of :: "decision \<Rightarrow> int" where
  "wait_of d \<equiv> hd_RetryAfter (the (dc_Headers d))"

definition refusals :: "decision list \<Rightarrow> decision list" where
  "refusals ds = filter (\<lambda>d. \<not> dc_Allowed d \<and> dc_Headers d \<noteq> None) ds"

lemma pick_keeps_wait:
  "dc_Headers best \<noteq> None \<Longrightarrow> dc_Headers (strictest_pick False d best) \<noteq> None \<and> wait_of best \<le> wait_of (strictest_pick False d best)"
  by (auto simp: strictest_pick_def stricter_decision_def split: option.splits)

lemma pick_takes_wait:
  "\<not> dc_Allowed d \<Longrightarrow> dc_Headers d \<noteq> None \<Longrightarrow>
     dc_Headers (strictest_pick False d best) \<noteq> None \<and> wait_of d \<le> wait_of (strictest_pick False d best)"
  by (auto simp: strictest_pick_def stricter_decision_def split: option.splits)

definition longest_so_far :: "decision list \<Rightarrow> decision \<Rightarrow> bool" where
  "longest_so_far ds best \<longleftrightarrow> (dc_Headers best = None \<or> best \<in> set (refusals ds)) \<and>
     (\<forall>d\<in>set (refusals ds). dc_Headers best \<noteq> None \<and> wait_of d \<le> wait_of best)"

lemma longest_step:
  assumes "longest_so_far ds best"
  shows "longest_so_far (ds @ [d]) (strictest_pick False d best)"
proof -
  have "dc_Headers (strictest_pick False d best) = None \<or> strictest_pick False d best \<in> set (refusals (ds @ [d]))"
    using assms by (auto simp: longest_so_far_def strictest_pick_def refusals_def split: option.splits)
  moreover have "dc_Headers (strictest_pick False d best) \<noteq> None \<and> wait_of x \<le> wait_of (strictest_pick False d best)"
    if x: "x \<in> set (refusals (ds @ [d]))" for x
  proof (cases "x \<in> set (refusals ds)")
    case True
    then have "dc_Headers best \<noteq> None" "wait_of x \<le> wait_of best" using assms unfolding longest_so_far_def by blast+
    then show ?thesis using pick_keeps_wait [of best d] by linarith
  next
    case False
    then have "x = d" "\<not> dc_Allowed d" "dc_Headers d \<noteq> None" using x by (auto simp: refusals_def split: if_splits)
    then show ?thesis using pick_takes_wait [of d best] by blast
  qed
  ultimately show ?thesis unfolding longest_so_far_def by blast
qed

lemma longest_fold:
  "longest_so_far ds0 best \<Longrightarrow> longest_so_far (ds0 @ ds) (fold (strictest_pick False) ds best)"
proof (induction ds arbitrary: best ds0)
  case (Cons d ds)
  show ?case using Cons.IH [OF longest_step [OF Cons.prems]] by simp
qed simp

lemma strictestDecision_refused:
  assumes "refusals ds \<noteq> []"
  shows "strictestDecision ds False \<in> set (refusals ds)"
    and "d \<in> set (refusals ds) \<Longrightarrow> wait_of d \<le> wait_of (strictestDecision ds False)"
proof -
  let ?best = "fold (strictest_pick False) ds no_decision"
  have L: "longest_so_far ds ?best"
    using longest_fold [of "[]" no_decision ds] by (simp add: longest_so_far_def refusals_def no_decision_def)
  obtain x where "x \<in> set (refusals ds)" using assms by (meson last_in_set)
  then have some: "dc_Headers ?best \<noteq> None" using L unfolding longest_so_far_def by blast
  then have eq: "strictestDecision ds False = ?best" unfolding strictestDecision_def Let_def by auto
  show "strictestDecision ds False \<in> set (refusals ds)"
    and "d \<in> set (refusals ds) \<Longrightarrow> wait_of d \<le> wait_of (strictestDecision ds False)"
    using L some unfolding longest_so_far_def eq by blast+
qed

lemma ceilSeconds_bounds:
  assumes "0 \<le> d" "d \<le> 2 ^ 63 - 1 - Second"
  shows "d \<le> ceilSeconds d * Second" "ceilSeconds d * Second < d + Second"
proof -
  have "ceilSeconds d = (999999999 + d) div 1000000000"
    using assms by (simp add: ceilSeconds_def Second_def i64 in64_def)
  then show "d \<le> ceilSeconds d * Second" "ceilSeconds d * Second < d + Second" by (simp_all add: Second_def)
qed

lemma retry_header:
  "map_of (responseHeaders s d) ''retry-after'' =
     (case dc_Headers d of
        None \<Rightarrow> None
      | Some h \<Rightarrow> if \<not> dc_Allowed d \<and> hd_RetryAfter h \<ge> 0 then Some (FormatInt (ceilSeconds (hd_RetryAfter h))) else None)"
  by (simp add: responseHeaders_def Let_def split: option.splits)

definition refusal_waits :: "decision list \<Rightarrow> int list" where
  "refusal_waits ds = map wait_of (refusals ds)"


definition sample_headers :: "int \<Rightarrow> headers" where
  "sample_headers wait = \<lparr>hd_Block = ''b'', hd_Rule = ''r'', hd_Limit = 5, hd_Remaining = 0, hd_RetryAfter = wait,
     hd_ResetAfter = 7000000000, hd_Cost = 1, hd_EffectiveWindow = -1, hd_Algorithm = ''GCRA'', hd_PeriodSeconds = 60\<rparr>"

definition sample_refusals :: "decision list" where
  "sample_refusals =
     [no_decision\<lparr>dc_CostExceedsCapacity := True, dc_Headers := Some (sample_headers (-1))\<rparr>,
      no_decision\<lparr>dc_Headers := Some (sample_headers 2500000000)\<rparr>]"


section \<open>The near-limit margin\<close>

lemma default_margin: "lsub 1 DefaultNearLimitRatio = 900719925474099 / 9007199254740992"
  by code_simp

lemma dbl_near: "0 \<le> x \<Longrightarrow> x - x / 2 ^ 53 \<le> dbl x \<and> dbl x \<le> x + x / 2 ^ 53"
  using dbl_error [of x] by linarith

lemma margin_bounds:
  assumes "0 \<le> c"
  shows "c / 10 \<le> ladd (lmul c (lsub 1 DefaultNearLimitRatio)) (lmul c (dbl (1 / 10 ^ 12)))"
    and "ladd (lmul c (lsub 1 DefaultNearLimitRatio)) (lmul c (dbl (1 / 10 ^ 12))) \<le> c / 10 + c * (2 / 10 ^ 12)"
proof -
  define e :: rat where "e = dbl (1 / 10 ^ 12)"
  have e: "9 / 10 ^ 13 \<le> e" "e \<le> 11 / 10 ^ 13" using dbl_near [of "1 / 10 ^ 12"] by (simp_all add: e_def)
  have ce: "c * (9 / 10 ^ 13) \<le> c * e" "c * e \<le> c * (11 / 10 ^ 13)"
    using mult_left_mono [OF e(1) assms] mult_left_mono [OF e(2) assms] by simp_all
  define a where "a = dbl (c * (900719925474099 / 9007199254740992))"
  have a: "c * (900719925474099 / 9007199254740992) - c * (900719925474099 / 9007199254740992) / 2 ^ 53 \<le> a"
      "a \<le> c * (900719925474099 / 9007199254740992) + c * (900719925474099 / 9007199254740992) / 2 ^ 53"
    using dbl_near [of "c * (900719925474099 / 9007199254740992)"] assms by (simp_all add: a_def)
  have nonneg: "0 \<le> c * e" using assms e by simp
  define b where "b = dbl (c * e)"
  have b: "c * e - c * e / 2 ^ 53 \<le> b" "b \<le> c * e + c * e / 2 ^ 53"
    using dbl_near [OF nonneg] by (simp_all add: b_def)
  define t where "t = a + b"
  have t: "c / 10 + c * (8 / 10 ^ 13) \<le> t" "t \<le> c / 10 + c * (12 / 10 ^ 13)"
    using a b ce assms by (simp_all add: t_def)
  have "0 \<le> t" using t(1) assms by simp
  then have "t - t / 2 ^ 53 \<le> dbl t" "dbl t \<le> t + t / 2 ^ 53" using dbl_near [of t] by simp_all
  then have "c / 10 \<le> dbl t" "dbl t \<le> c / 10 + c * (2 / 10 ^ 12)" using t assms by simp_all
  then show "c / 10 \<le> ladd (lmul c (lsub 1 DefaultNearLimitRatio)) (lmul c (dbl (1 / 10 ^ 12)))"
    and "ladd (lmul c (lsub 1 DefaultNearLimitRatio)) (lmul c (dbl (1 / 10 ^ 12))) \<le> c / 10 + c * (2 / 10 ^ 12)"
    by (simp_all only: default_margin ladd_def lmul_def t_def a_def b_def e_def)
qed

text \<open>
  C36. The near-limit margin is exact. At the default ratio of 0.9 and for every capacity below \<open>2 ^ 31\<close>,
  the floating-point test of the server answers exactly whether the remaining requests are at most a tenth
  of the capacity: the rounding errors of the ratio are absorbed, and the epsilon admits no request more.
\<close>
theorem near_limit_exact:
  assumes "0 < ro_Capacity rule" "ro_Capacity rule < 2 ^ 31" "0 \<le> ro_Remaining rule" "ro_Remaining rule \<le> ro_Capacity rule"
  shows "nearLimit rule DefaultNearLimitRatio \<longleftrightarrow> 10 * ro_Remaining rule \<le> ro_Capacity rule"
proof -
  let ?c = "rat_of_int (ro_Capacity rule)" and ?r = "rat_of_int (ro_Remaining rule)"
  let ?m = "ladd (lmul ?c (lsub 1 DefaultNearLimitRatio)) (lmul ?c (dbl (1 / 10 ^ 12)))"
  have "ro_Capacity rule \<le> 2147483648" using assms(2) by simp
  then have "?c \<le> of_int 2147483648" by (simp only: of_int_le_iff)
  then have c: "0 \<le> ?c" "?c \<le> 2147483648" using assms(1) by simp_all
  have "dbl ?c = ?c" "dbl ?r = ?r" using assms by (simp_all add: dbl_int)
  then have N: "nearLimit rule DefaultNearLimitRatio \<longleftrightarrow> ?r \<le> ?m" using assms(1) by (simp add: nearLimit_def Let_def)
  show ?thesis
  proof (cases "10 * ro_Remaining rule \<le> ro_Capacity rule")
    case True
    then have "rat_of_int (10 * ro_Remaining rule) \<le> ?c" by (simp only: of_int_le_iff)
    then have "10 * ?r \<le> ?c" by simp
    then show ?thesis using N True margin_bounds(1) [OF c(1)] by linarith
  next
    case False
    then have "ro_Capacity rule + 1 \<le> 10 * ro_Remaining rule" by simp
    then have "rat_of_int (ro_Capacity rule + 1) \<le> rat_of_int (10 * ro_Remaining rule)" by (simp only: of_int_le_iff)
    then have "?c + 1 \<le> 10 * ?r" by simp
    moreover have "?c * (2 / 10 ^ 12) < 1 / 10" using c by simp
    ultimately show ?thesis using N False margin_bounds(2) [OF c(1)] by linarith
  qed
qed

definition sample_outcome :: rule_outcome where
  "sample_outcome = \<lparr>ro_Block = ''b'', ro_Rule = ''r'', ro_Shadow = False, ro_Allowed = True, ro_Cost = 1,
     ro_CostExceedsCapacity = False, ro_Limit = 100, ro_Capacity = 100, ro_Remaining = 10, ro_RetryAfter = 0,
     ro_Algorithm = ''GCRA'', ro_PeriodSeconds = 60\<rparr>"

theorem near_limit_exact_witness:
  "nearLimit sample_outcome DefaultNearLimitRatio \<and> \<not> nearLimit (sample_outcome\<lparr>ro_Remaining := 11\<rparr>) DefaultNearLimitRatio"
  using near_limit_exact [of sample_outcome] near_limit_exact [of "sample_outcome\<lparr>ro_Remaining := 11\<rparr>"]
  by (simp add: sample_outcome_def)

end
