(* ===== verification/Convert.thy ===== *)
theory Convert
  imports Compile Match_Rules
begin

text \<open>
  The custom resource (\<open>api/v1\<close>) and its conversion into the engine's policy (\<open>internal/convert\<close>). The
  string-typed enums are strings, an \<open>int32\<close> is an integer, and a nil pointer is \<open>None\<close>. A nil slice and an
  empty one are the same list.
\<close>

section \<open>The resource\<close>

record v1_path_match =
  v1_pm_Type :: string
  v1_pm_Value :: string

record v1_route_cost =
  v1_rc_Source :: string
  v1_rc_Name :: string
  v1_rc_Default :: "int option"

record v1_route =
  v1_r_Path :: v1_path_match
  v1_r_Methods :: "string list"
  v1_r_Cost :: "v1_route_cost option"

record v1_target =
  v1_t_Routes :: "v1_route list"

record v1_predicate =
  v1_pd_Key :: string
  v1_pd_Operator :: string
  v1_pd_Value :: string
  v1_pd_Values :: "string list"

record v1_rate =
  v1_ra_Requests :: int
  v1_ra_PeriodSeconds :: int
  v1_ra_Burst :: "int option"
  v1_ra_Algorithm :: string

record v1_rule =
  v1_ru_Name :: string
  v1_ru_Matches :: "v1_predicate list"
  v1_ru_Counters :: "string list"
  v1_ru_Rates :: "v1_rate list"
  v1_ru_Behavior :: string
  v1_ru_ReplacedRules :: "string list"

record v1_block =
  v1_b_Name :: string
  v1_b_Target :: "v1_target option"
  v1_b_Mode :: string
  v1_b_Rules :: "v1_rule list"

record v1_mapping =
  v1_km_Key :: string
  v1_km_Claim :: string
  v1_km_ClaimPath :: "string list"
  v1_km_Type :: string
  v1_km_Normalization :: string
  v1_km_Fallbacks :: "string list"

record v1_group =
  v1_g_Name :: string
  v1_g_Values :: "string list"

record v1_spec =
  v1_Domain :: string
  v1_Mappings :: "v1_mapping list"
  v1_Groups :: "v1_group list"
  v1_Limits :: "v1_block list"

section \<open>Conversion\<close>

definition modelRoute :: "v1_route \<Rightarrow> route" where
  "modelRoute r =
     \<lparr>r_Path = \<lparr>pm_Type = v1_pm_Type (v1_r_Path r), pm_Value = v1_pm_Value (v1_r_Path r)\<rparr>,
      r_Methods = v1_r_Methods r,
      r_Cost = (case v1_r_Cost r of
          None \<Rightarrow> None
        | Some c \<Rightarrow> Some \<lparr>rc_Source = v1_rc_Source c, rc_Name = v1_rc_Name c,
            rc_Default = (case v1_rc_Default c of None \<Rightarrow> 0 | Some d \<Rightarrow> d)\<rparr>)\<rparr>"

definition modelRoutes :: "v1_route list \<Rightarrow> route list" where
  "modelRoutes routes = map modelRoute routes"

definition modelRate :: "v1_rate \<Rightarrow> rate" where
  "modelRate r =
     \<lparr>ra_Requests = v1_ra_Requests r, ra_Period = mul64 (v1_ra_PeriodSeconds r) Second,
      ra_Burst = (case v1_ra_Burst r of None \<Rightarrow> 0 | Some b \<Rightarrow> b), ra_Algorithm = v1_ra_Algorithm r\<rparr>"

definition modelPredicate :: "v1_predicate \<Rightarrow> predicate" where
  "modelPredicate p =
     \<lparr>pd_Key = v1_pd_Key p, pd_Operator = v1_pd_Operator p, pd_Value = v1_pd_Value p, pd_Values = v1_pd_Values p\<rparr>"

definition modelRule :: "v1_rule \<Rightarrow> rule" where
  "modelRule r =
     \<lparr>ru_Name = v1_ru_Name r, ru_Matches = map modelPredicate (v1_ru_Matches r), ru_Counters = v1_ru_Counters r,
      ru_Rates = map modelRate (v1_ru_Rates r), ru_Behavior = v1_ru_Behavior r, ru_ReplacedRules = v1_ru_ReplacedRules r\<rparr>"

definition modelMappings :: "v1_mapping list \<Rightarrow> key_mapping list" where
  "modelMappings mappings =
     map (\<lambda>e. \<lparr>km_Key = v1_km_Key e, km_Claim = v1_km_Claim e, km_ClaimPath = v1_km_ClaimPath e, km_Type = v1_km_Type e,
       km_Normalization = v1_km_Normalization e, km_Fallbacks = v1_km_Fallbacks e\<rparr>) mappings"

definition modelGroups :: "v1_group list \<Rightarrow> group list" where
  "modelGroups groups = map (\<lambda>g. \<lparr>g_Name = v1_g_Name g, g_Values = v1_g_Values g\<rparr>) groups"

definition modelBlock :: "v1_block \<Rightarrow> block" where
  "modelBlock b =
     \<lparr>b_Name = v1_b_Name b,
      b_Target = \<lparr>t_Routes = (case v1_b_Target b of None \<Rightarrow> [] | Some t \<Rightarrow> modelRoutes (v1_t_Routes t))\<rparr>,
      b_Mode = v1_b_Mode b, b_Rules = map modelRule (v1_b_Rules b)\<rparr>"

definition Policy :: "v1_spec option \<Rightarrow> policy option" where
  "Policy spec =
     (case spec of
        None \<Rightarrow> None
      | Some s \<Rightarrow> Some \<lparr>p_Domain = v1_Domain s, p_Mappings = modelMappings (v1_Mappings s),
          p_Groups = modelGroups (v1_Groups s), p_Blocks = map modelBlock (v1_Limits s)\<rparr>)"

section \<open>Types\<close>

text \<open>The \<open>int32\<close> fields of a decoded spec.\<close>

definition in32 :: "int \<Rightarrow> bool" where
  "in32 x \<longleftrightarrow> - (2 ^ 31) \<le> x \<and> x < 2 ^ 31"

definition rate_typed :: "v1_rate \<Rightarrow> bool" where
  "rate_typed r \<longleftrightarrow> in32 (v1_ra_Requests r) \<and> in32 (v1_ra_PeriodSeconds r) \<and>
     (case v1_ra_Burst r of None \<Rightarrow> True | Some b \<Rightarrow> in32 b)"

definition spec_typed :: "v1_spec \<Rightarrow> bool" where
  "spec_typed s \<longleftrightarrow> list_all (\<lambda>b. list_all (\<lambda>r. list_all rate_typed (v1_ru_Rates r)) (v1_b_Rules b)) (v1_Limits s)"

lemma typed_rates:
  assumes "spec_typed s" "b \<in> set (p_Blocks (the (Policy (Some s))))" "r \<in> set (b_Rules b)" "t \<in> set (ru_Rates r)"
  shows "in64 (ra_Requests t)"
  using assms by (fastforce simp: Policy_def modelBlock_def modelRule_def modelRate_def spec_typed_def rate_typed_def
      list_all_iff in32_def in64_def)

text \<open>The windows a typed spec compiles to carry \<open>int64\<close> numbers.\<close>

lemma Compile_typed:
  assumes "Compile namespace domain (Policy (Some s)) = Some (snap, problems)" "spec_typed s"
  shows "snapshot_typed snap"
proof -
  let ?p = "the (Policy (Some s))"
  have C: "Compile namespace domain (Some ?p) = Some (snap, problems)" using assms(1) by (simp add: Policy_def)
  show ?thesis
  proof (cases "sn_Blocks snap = []")
    case True
    then show ?thesis by (simp add: snapshot_typed_def)
  next
    case False
    have "in64 (Requests (ct_Window ct))" if ct: "cb \<in> set (sn_Blocks snap)" "cu \<in> set (cb_Rules cb)" "ct \<in> set (cu_Rates cu)" for cb cu ct
    proof -
      obtain env where K: "list_all2 (block_kept namespace domain env) (p_Blocks ?p) (sn_Blocks snap)"
        using C False by (auto elim!: Compile_cases dest: compileBlocks_accepted)
      obtain b where b: "b \<in> set (p_Blocks ?p)" "block_kept namespace domain env b cb"
        using list_all2_right_mem [OF K ct(1)] by blast
      then have "list_all2 (rule_kept namespace domain env b (blockKeys_of env (cb_Captures cb))) (b_Rules b) (cb_Rules cb)"
        by (simp add: block_kept_def)
      from list_all2_right_mem [OF this ct(2)]
      obtain r where r: "r \<in> set (b_Rules b)" "rule_kept namespace domain env b (blockKeys_of env (cb_Captures cb)) r cu" by blast
      then obtain i where "list_all2 (rate_kept i) (ru_Rates r) (cu_Rates cu)" by (auto simp: rule_kept_def)
      from list_all2_right_mem [OF this ct(3)]
      obtain t where t: "t \<in> set (ru_Rates r)" "rate_kept i t ct" by blast
      then have "Requests (ct_Window ct) = ra_Requests t" by (simp add: rate_kept_def resolved_window_def)
      then show ?thesis using typed_rates [OF assms(2) b(1) r(1) t(1)] by simp
    qed
    then show ?thesis by (auto simp: snapshot_typed_def list_all_iff)
  qed
qed

end
