(* ===== verification/Ruleview.thy ===== *)
theory Ruleview
  imports Compile Rls_Log
begin

text \<open>
  The rendering of a compiled domain (\<open>service/internal/ruleview\<close>) and the version of an enforced set: the
  hash of the rendering's JSON text. The encoders of the standard library that it uses are modelled here:
  \<open>Duration.String\<close>, \<open>json.Marshal\<close> on strings, integers, slices and structs, and hexadecimal text. SHA-256
  is the parameter \<open>sha\<close>.
\<close>

section \<open>Text encoders\<close>

text \<open>\<open>time.Duration.String\<close>: the fraction without trailing zeros, then the units that are not zero.\<close>

definition duration_frac :: "int \<Rightarrow> nat \<Rightarrow> string" where
  "duration_frac v prec =
     (let digits = map (\<lambda>i. digit_char (nat (v div 10 ^ (prec - 1 - i) mod 10))) [0..<prec];
          kept = rev (dropWhile (\<lambda>c. c = CHR ''0'') (rev digits))
      in if kept = [] then [] else CHR ''.'' # kept)"

definition Duration_String :: "int \<Rightarrow> string" where
  "Duration_String d =
     (let u = \<bar>d\<bar>; sign = (if d < 0 then ''-'' else []);
          part = (\<lambda>prec unit. FormatInt (u div 10 ^ prec) @ duration_frac u prec @ unit)
      in if u = 0 then ''0s''
         else if u < 1000 then sign @ part 0 ''ns''
         else if u < 1000000 then sign @ part 3 [byte 0xC2, byte 0xB5, CHR ''s'']
         else if u < Second then sign @ part 6 ''ms''
         else
           let s = u div Second; seconds = FormatInt (s mod 60) @ duration_frac u 9 @ ''s''
           in sign @ (if s div 60 = 0 then seconds
                else if s div 3600 = 0 then FormatInt (s div 60) @ ''m'' @ seconds
                else FormatInt (s div 3600) @ ''h'' @ FormatInt (s div 60 mod 60) @ ''m'' @ seconds))"

definition hexLower :: "nat \<Rightarrow> char" where
  "hexLower d = ''0123456789abcdef'' ! d"

definition EncodeToString :: "string \<Rightarrow> string" where
  "EncodeToString s = concat (map (\<lambda>c. [hexLower (of_char c div 16), hexLower (of_char c mod 16)]) s)"

text \<open>A string as \<open>json.Marshal\<close> writes it, with the characters of HTML escaped.\<close>

definition json_rune :: "int \<times> string \<Rightarrow> string" where
  "json_rune p =
     (case p of (r, bytes) \<Rightarrow>
        if bytes = [CHR 0x22] \<or> bytes = [CHR 0x5C] then CHR 0x5C # bytes
        else if r = 8 then [CHR 0x5C, CHR ''b'']
        else if r = 12 then [CHR 0x5C, CHR ''f'']
        else if r = 10 then [CHR 0x5C, CHR ''n'']
        else if r = 13 then [CHR 0x5C, CHR ''r'']
        else if r = 9 then [CHR 0x5C, CHR ''t'']
        else if r < 32 \<or> bytes = ''<'' \<or> bytes = ''>'' \<or> bytes = ''&''
          then [CHR 0x5C, CHR ''u'', CHR ''0'', CHR ''0''] @ EncodeToString bytes
        else if r = RuneError \<and> length bytes = 1 then CHR 0x5C # ''ufffd''
        else if r = 0x2028 then CHR 0x5C # ''u2028''
        else if r = 0x2029 then CHR 0x5C # ''u2029''
        else bytes)"

definition json_string :: "string \<Rightarrow> string" where
  "json_string s = [CHR 0x22] @ concat (map json_rune (rune_list s)) @ [CHR 0x22]"

fun json_text :: "json \<Rightarrow> string" where
  "json_text JNull = ''null''"
| "json_text (JBool b) = (if b then ''true'' else ''false'')"
| "json_text (JNumber n) = n"
| "json_text (JString s) = json_string s"
| "json_text (JArray vs) = ''['' @ Join (map json_text vs) (CHR '','') @ '']''"
| "json_text (JObject fs) =
     ''{'' @ Join (map (\<lambda>(k, v). json_string k @ '':'' @ json_text v) fs) (CHR '','') @ ''}''"

section \<open>Views\<close>

record predicate_view =
  pv_Key :: string
  pv_Operator :: string
  pv_Value :: string
  pv_Values :: "string list"

record rate_view =
  tv_Algorithm :: string
  tv_Requests :: int
  tv_PeriodSeconds :: int
  tv_Period :: string
  tv_Burst :: int

record gate =
  ga_Reason :: string
  ga_Key :: string
  ga_Rule :: string

record rule_view =
  uv_ID :: string
  uv_Block :: string
  uv_Rule :: string
  uv_Mode :: string
  uv_Axes :: "string list"
  uv_Matches :: "predicate_view list"
  uv_ReplacedRules :: "string list"
  uv_Rates :: "rate_view list"
  uv_Applicability :: string
  uv_ConditionalOn :: "gate list"

record cost_view =
  cv_Source :: string
  cv_Name :: string
  cv_Default :: int

record route_view =
  ov_Type :: string
  ov_Value :: string
  ov_Methods :: "string list"
  ov_Cost :: "cost_view option"

record block_view =
  bv_Block :: string
  bv_Mode :: string
  bv_Routes :: "route_view list"
  bv_Captures :: "string list"
  bv_Rules :: "rule_view list"

record rule_set_view =
  sv_Domain :: string
  sv_RuleSetVersion :: string
  sv_EffectiveKeys :: "string list"
  sv_ListValuedKeys :: "string list"
  sv_Blocks :: "block_view list"

record domain_summary =
  sm_Domain :: string
  sm_RuleSetVersion :: string
  sm_Blocks :: nat
  sm_Rules :: nat
  sm_EffectiveKeys :: "string list"
  sm_ListValuedKeys :: "string list"

section \<open>Rendering\<close>

definition view_ID :: "string \<Rightarrow> string \<Rightarrow> string" where
  "view_ID block rule = block @ ''/'' @ rule"

definition SplitID :: "string \<Rightarrow> (string \<times> string) option" where
  "SplitID i =
     (case Split i (CHR ''/'') of
        [b, r] \<Rightarrow> if b = [] \<or> r = [] then None else Some (b, r)
      | _ \<Rightarrow> None)"

definition view_Mode :: "string \<Rightarrow> string" where
  "view_Mode behavior =
     (if behavior = BehaviorShadow then ''shadow'' else if behavior = BehaviorBypass then ''bypass'' else ''enforce'')"

definition view_Algorithm :: "c_rate \<Rightarrow> string" where
  "view_Algorithm rate = map lowerASCII (alg_Name (ct_Algorithm rate))"

definition view_Rate :: "c_rate \<Rightarrow> rate_view" where
  "view_Rate rate =
     \<lparr>tv_Algorithm = view_Algorithm rate, tv_Requests = Requests (ct_Window rate),
      tv_PeriodSeconds = quo64 (Period (ct_Window rate)) Second, tv_Period = Duration_String (Period (ct_Window rate)),
      tv_Burst = Burst (ct_Window rate)\<rparr>"

definition sortedKeys :: "string list \<Rightarrow> string list" where
  "sortedKeys s = sort s"

definition view_predicate :: "c_predicate \<Rightarrow> predicate_view" where
  "view_predicate c =
     (let op = (if cp_Operator c = OperatorInGroup then OperatorIn else cp_Operator c) in
      \<lparr>pv_Key = cp_Key c, pv_Operator = op,
       pv_Value = (if op = OperatorEquals \<or> op = OperatorContains then cp_Value c else []),
       pv_Values = (if op = OperatorIn then sortedKeys (cp_Values c) else [])\<rparr>)"

definition view_Rule :: "c_block \<Rightarrow> c_rule \<Rightarrow> rule_view" where
  "view_Rule block rule =
     \<lparr>uv_ID = view_ID (cb_Name block) (cu_Name rule), uv_Block = cb_Name block, uv_Rule = cu_Name rule,
      uv_Mode = view_Mode (cu_Behavior rule), uv_Axes = cu_Counters rule,
      uv_Matches = map view_predicate (cu_Matches rule), uv_ReplacedRules = cu_ReplacedRules rule,
      uv_Rates = map view_Rate (cu_Rates rule), uv_Applicability = [], uv_ConditionalOn = []\<rparr>"

definition view_route :: "c_route \<Rightarrow> route_view" where
  "view_route r =
     \<lparr>ov_Type = cr_Type r, ov_Value = cr_Value r, ov_Methods = sortedKeys (cr_Methods r),
      ov_Cost = (case cr_Cost r of
          None \<Rightarrow> None
        | Some c \<Rightarrow> Some \<lparr>cv_Source = CostQueryParameter, cv_Name = cc_Parameter c, cv_Default = cc_Default c\<rparr>)\<rparr>"

definition view_Block :: "c_block \<Rightarrow> block_view" where
  "view_Block block =
     \<lparr>bv_Block = cb_Name block, bv_Mode = (if cb_Mode block = [] then ModeAll else cb_Mode block),
      bv_Routes = map view_route (cb_Routes block), bv_Captures = cb_Captures block,
      bv_Rules = map (view_Rule block) (cb_Rules block)\<rparr>"

definition ListValuedKeys :: "snapshot \<Rightarrow> string list" where
  "ListValuedKeys snap = sort (map ke_Key (filter (\<lambda>x. ke_Type x = ValueStringArray) (sn_Extraction snap)))"

definition Render :: "snapshot \<Rightarrow> rule_set_view" where
  "Render snap =
     \<lparr>sv_Domain = sn_Domain snap, sv_RuleSetVersion = [], sv_EffectiveKeys = sn_EffectiveKeys snap,
      sv_ListValuedKeys = ListValuedKeys snap, sv_Blocks = map view_Block (sn_Blocks snap)\<rparr>"

definition Summary :: "snapshot \<Rightarrow> string \<Rightarrow> domain_summary" where
  "Summary snap version =
     \<lparr>sm_Domain = sn_Domain snap, sm_RuleSetVersion = version, sm_Blocks = length (sn_Blocks snap),
      sm_Rules = sum_list (map (\<lambda>b. length (cb_Rules b)) (sn_Blocks snap)),
      sm_EffectiveKeys = sn_EffectiveKeys snap, sm_ListValuedKeys = ListValuedKeys snap\<rparr>"

section \<open>The version\<close>

text \<open>The JSON of a view: the fields in declaration order, an empty \<open>omitempty\<close> field left out.\<close>

definition jstrings :: "string list \<Rightarrow> json" where "jstrings vs = JArray (map JString vs)"

definition omit_empty :: "'a list \<Rightarrow> string \<Rightarrow> json \<Rightarrow> (string \<times> json) list" where
  "omit_empty vs name v = (if vs = [] then [] else [(name, v)])"

definition rate_json :: "rate_view \<Rightarrow> json" where
  "rate_json t = JObject ([(''algorithm'', JString (tv_Algorithm t)), (''requests'', JNumber (FormatInt (tv_Requests t))),
     (''periodSeconds'', JNumber (FormatInt (tv_PeriodSeconds t))), (''period'', JString (tv_Period t))] @
     (if tv_Burst t = 0 then [] else [(''burst'', JNumber (FormatInt (tv_Burst t)))]))"

definition predicate_json :: "predicate_view \<Rightarrow> json" where
  "predicate_json p = JObject ([(''key'', JString (pv_Key p)), (''operator'', JString (pv_Operator p))] @
     omit_empty (pv_Value p) ''value'' (JString (pv_Value p)) @ omit_empty (pv_Values p) ''values'' (jstrings (pv_Values p)))"

definition gate_json :: "gate \<Rightarrow> json" where
  "gate_json g = JObject ([(''reason'', JString (ga_Reason g))] @ omit_empty (ga_Key g) ''key'' (JString (ga_Key g)) @
     omit_empty (ga_Rule g) ''rule'' (JString (ga_Rule g)))"

definition rule_json :: "rule_view \<Rightarrow> json" where
  "rule_json u = JObject ([(''id'', JString (uv_ID u)), (''block'', JString (uv_Block u)), (''rule'', JString (uv_Rule u)),
     (''mode'', JString (uv_Mode u)), (''axes'', jstrings (uv_Axes u))] @
     omit_empty (uv_Matches u) ''matches'' (JArray (map predicate_json (uv_Matches u))) @
     omit_empty (uv_ReplacedRules u) ''replacedRules'' (jstrings (uv_ReplacedRules u)) @
     [(''rates'', JArray (map rate_json (uv_Rates u)))] @
     omit_empty (uv_Applicability u) ''applicability'' (JString (uv_Applicability u)) @
     omit_empty (uv_ConditionalOn u) ''conditionalOn'' (JArray (map gate_json (uv_ConditionalOn u))))"

definition route_json :: "route_view \<Rightarrow> json" where
  "route_json r = JObject ([(''type'', JString (ov_Type r)), (''value'', JString (ov_Value r))] @
     omit_empty (ov_Methods r) ''methods'' (jstrings (ov_Methods r)) @
     (case ov_Cost r of
        None \<Rightarrow> []
      | Some c \<Rightarrow> [(''cost'', JObject [(''source'', JString (cv_Source c)), (''name'', JString (cv_Name c)),
          (''default'', JNumber (FormatInt (cv_Default c)))])]))"

definition block_json :: "block_view \<Rightarrow> json" where
  "block_json b = JObject ([(''block'', JString (bv_Block b)), (''mode'', JString (bv_Mode b)),
     (''routes'', JArray (map route_json (bv_Routes b)))] @ omit_empty (bv_Captures b) ''captures'' (jstrings (bv_Captures b)) @
     [(''rules'', JArray (map rule_json (bv_Rules b)))])"

definition view_json :: "rule_set_view \<Rightarrow> json" where
  "view_json v = JObject ([(''domain'', JString (sv_Domain v)), (''ruleSetVersion'', JString (sv_RuleSetVersion v)),
     (''effectiveKeys'', jstrings (sv_EffectiveKeys v))] @
     omit_empty (sv_ListValuedKeys v) ''listValuedKeys'' (jstrings (sv_ListValuedKeys v)) @
     [(''blocks'', JArray (map block_json (sv_Blocks v)))])"

definition Version :: "(string \<Rightarrow> string) \<Rightarrow> snapshot \<Rightarrow> string" where
  "Version sha snap = take 12 (EncodeToString (sha (json_text (view_json (Render snap)))))"

end
