(* ===== verification/Config_Apply.thy ===== *)
theory Config_Apply
  imports Convert Ruleview Rule_Set Engine_Pipeline
begin

text \<open>
  The applier of a service replica (\<open>service/internal/config/apply.go\<close>): a reading of the mounted
  configuration becomes the rule set the server decides with. A method runs under the applier's mutex, so it
  is one step. The wrapper that instruments the counter store is transparent, and an engine's counter store
  is an argument of its calls. Gauges, counters and log lines are events.
\<close>

section \<open>Readings\<close>

record manifest_domain =
  md_Generation :: int
  md_UID :: string
  md_Hash :: string

record manifest =
  mf_FormatVersion :: int
  mf_OperatorVersion :: string
  mf_Domains :: "manifest_domain gomap"

record configuration =
  cf_Manifest :: manifest
  cf_Specs :: "v1_spec gomap"
  cf_Raw :: string

record config_refusal =
  cr_FormatVersion :: int
  cr_Err :: goerror

definition FormatVersion :: int where "FormatVersion = 1"

definition SupportedVersions :: "int list" where
  "SupportedVersions = (if FormatVersion > 1 then [FormatVersion - 1, FormatVersion] else [FormatVersion])"

definition sortedDomains :: "manifest \<Rightarrow> string list" where
  "sortedDomains m = sort (gm_keys (mf_Domains m))"

section \<open>The applier\<close>

record domain_view =
  dv_Domain :: string
  dv_Blocks :: nat
  dv_Rules :: nat
  dv_DecisionBuckets :: nat
  dv_AppliedGeneration :: int

datatype apply_event =
    ESnapshotRebuilds string
  | ESnapshotTimestamp
  | EPublishState "domain_view list"
  | EPruneStale "snapshot gomap"
  | ESeedExtractions "snapshot gomap"
  | EConfigAbsent bool
  | ELogApplied int string nat
  | ELogKept string int int nat
  | ELogEmpty string int nat
  | ELogRefused goerror int

record applier =
  ap_Namespace :: string
  ap_CacheStats :: "cache_stats option"
  ap_domains :: "domain_entry gomap"
  ap_hashes :: "string gomap"
  ap_ready :: bool
  ap_absent :: bool
  ap_events :: "apply_event list"

definition new_applier :: "string \<Rightarrow> cache_stats option \<Rightarrow> applier" where
  "new_applier namespace stats =
     \<lparr>ap_Namespace = namespace, ap_CacheStats = stats, ap_domains = [], ap_hashes = [], ap_ready = False, ap_absent = False,
      ap_events = []\<rparr>"

definition Ready :: "applier \<Rightarrow> bool" where "Ready a = ap_ready a"

definition SetAbsent :: "bool \<Rightarrow> applier \<Rightarrow> applier" where
  "SetAbsent absent a = a\<lparr>ap_absent := absent, ap_events := ap_events a @ [EConfigAbsent absent]\<rparr>"

definition build :: "(string \<Rightarrow> string) \<Rightarrow> applier \<Rightarrow> snapshot \<Rightarrow> domain_entry" where
  "build sha a snap =
     (let opts = (case ap_CacheStats a of None \<Rightarrow> [] | Some stats \<Rightarrow> [WithCacheStats stats]) in
      zero_domain\<lparr>do_Engine := Some (NewEngine snap opts), do_Snapshot := Some snap, do_Version := Version sha snap\<rparr>)"

text \<open>A map read that is missing gives the zero value.\<close>

definition hash_of :: "applier \<Rightarrow> string \<Rightarrow> string" where
  "hash_of a domain = (case map_of (ap_hashes a) domain of Some h \<Rightarrow> h | None \<Rightarrow> [])"

definition zero_spec :: v1_spec where
  "zero_spec = \<lparr>v1_Domain = [], v1_Mappings = [], v1_Groups = [], v1_Limits = []\<rparr>"

definition spec_of :: "configuration \<Rightarrow> string \<Rightarrow> v1_spec" where
  "spec_of cfg domain = (case map_of (cf_Specs cfg) domain of Some s \<Rightarrow> s | None \<Rightarrow> zero_spec)"

text \<open>
  One domain of the loop: its entry, the recorded hash and the log lines, from the entry of the manifest and
  what the applier kept.
\<close>

definition apply_domain ::
  "(string \<Rightarrow> string) \<Rightarrow> int \<Rightarrow> applier \<Rightarrow> configuration \<Rightarrow> string \<Rightarrow> manifest_domain \<Rightarrow>
     (domain_entry \<times> string \<times> apply_event list) option" where
  "apply_domain sha now a cfg domain entry =
     (let stamp = (\<lambda>d generation uid. d\<lparr>do_Generation := generation, do_UID := uid, do_AppliedAt := now\<rparr>);
          kept = map_of (ap_domains a) domain
      in if kept \<noteq> None \<and> hash_of a domain = md_Hash entry then
           Some (stamp (the kept) (md_Generation entry) (md_UID entry), md_Hash entry, [])
         else do {
           (snap, problems) \<leftarrow> Compile (ap_Namespace a) domain (Policy (Some (spec_of cfg domain)));
           if \<not> blocking problems then
             Some (stamp (build sha a snap) (md_Generation entry) (md_UID entry), md_Hash entry, [])
           else if kept \<noteq> None \<and> hash_of a domain \<noteq> [] then
             Some (stamp (the kept) (do_Generation (the kept)) (do_UID (the kept)), hash_of a domain,
               [ELogKept domain (md_Generation entry) (do_Generation (the kept)) (length problems)])
           else do {
             (snap0, _) \<leftarrow> Compile (ap_Namespace a) domain (Policy (Some (zero_spec\<lparr>v1_Domain := domain\<rparr>)));
             Some (stamp (build sha a snap0) 0 (md_UID entry), [],
               [ELogEmpty domain (md_Generation entry) (length problems)]) } })"

fun apply_loop ::
  "(string \<Rightarrow> string) \<Rightarrow> int \<Rightarrow> applier \<Rightarrow> configuration \<Rightarrow> string list \<Rightarrow>
     ((string \<times> domain_entry \<times> string) list \<times> apply_event list) option" where
  "apply_loop sha now a cfg [] = Some ([], [])"
| "apply_loop sha now a cfg (domain # domains) =
     (case map_of (mf_Domains (cf_Manifest cfg)) domain of
        None \<Rightarrow> None
      | Some entry \<Rightarrow> do {
          (d, h, logs) \<leftarrow> apply_domain sha now a cfg domain entry;
          (rest, logs') \<leftarrow> apply_loop sha now a cfg domains;
          Some ((domain, d, h) # rest, logs @ logs') })"

definition view_of_domain :: "string \<times> domain_entry \<times> string \<Rightarrow> domain_view" where
  "view_of_domain p =
     (case p of (domain, d, _) \<Rightarrow>
        let snap = the (do_Snapshot d) in
        \<lparr>dv_Domain = domain, dv_Blocks = length (sn_Blocks snap), dv_Rules = sm_Rules (Summary snap (do_Version d)),
         dv_DecisionBuckets = sn_DecisionBuckets snap, dv_AppliedGeneration = do_Generation d\<rparr>)"

definition maps_equal :: "string gomap \<Rightarrow> string gomap \<Rightarrow> bool" where
  "maps_equal a b \<longleftrightarrow> length a = length b \<and> list_all (\<lambda>(k, v). map_of b k = Some v) a"

text \<open>The clock is read twice: \<open>now\<close> stamps the domains, \<open>swapped\<close> the set.\<close>

definition Apply ::
  "(string \<Rightarrow> string) \<Rightarrow> int \<Rightarrow> int \<Rightarrow> configuration \<Rightarrow> applier \<Rightarrow> rule_store \<Rightarrow> (applier \<times> rule_store) option" where
  "Apply sha now swapped cfg a st = do {
     (built, logs) \<leftarrow> apply_loop sha now a cfg (sortedDomains (cf_Manifest cfg));
     let domains = map (\<lambda>(domain, d, _). (domain, d)) built;
     let hashes = map (\<lambda>(domain, _, h). (domain, h)) built;
     let snapshots = map (\<lambda>(domain, d, _). (domain, the (do_Snapshot d))) built;
     let changed = (ap_ready a \<and> \<not> maps_equal hashes (ap_hashes a));
     Some (a\<lparr>ap_domains := domains, ap_hashes := hashes, ap_ready := True,
             ap_events := ap_events a @ logs @ [ESnapshotRebuilds ''ok''] @ (if changed then [ESnapshotTimestamp] else []) @
               [EPublishState (map view_of_domain built), EPruneStale snapshots, ESeedExtractions snapshots,
                ELogApplied (mf_FormatVersion (cf_Manifest cfg)) (mf_OperatorVersion (cf_Manifest cfg)) (length domains)]\<rparr>,
           Replace swapped (Some (NewRuleSet (Some domains))) st) }"

definition Refuse :: "config_refusal \<Rightarrow> applier \<Rightarrow> rule_store \<Rightarrow> applier \<times> rule_store" where
  "Refuse r a st =
     (a\<lparr>ap_events := ap_events a @ [ESnapshotRebuilds ''refused'', ELogRefused (cr_Err r) (cr_FormatVersion r)]\<rparr>,
      store_Refuse \<lparr>rf_FormatVersion = cr_FormatVersion r, rf_Reason = cr_Err r\<rparr> st)"

section \<open>The report\<close>

record applied_domain =
  ad_Generation :: int
  ad_UID :: string
  ad_AppliedAt :: int

record report =
  rep_Domains :: "applied_domain gomap"
  rep_FormatVersions :: "int list"
  rep_Refusal :: "refusal option"
  rep_ConfigAbsent :: bool

definition ReportOf :: "rule_set \<Rightarrow> report" where
  "ReportOf rs =
     \<lparr>rep_Domains = map (\<lambda>domain. let d = fst (set_Domain rs domain) in
         (domain, \<lparr>ad_Generation = do_Generation d, ad_UID = do_UID d, ad_AppliedAt = do_AppliedAt d\<rparr>)) (set_Domains rs),
      rep_FormatVersions = SupportedVersions, rep_Refusal = rs_refusal rs, rep_ConfigAbsent = False\<rparr>"

definition Report :: "applier \<Rightarrow> rule_store \<Rightarrow> report" where
  "Report a st = (ReportOf (Load st))\<lparr>rep_ConfigAbsent := ap_absent a\<rparr>"

section \<open>What an apply publishes\<close>

lemma apply_domain_defined: "\<exists>r. apply_domain sha now a cfg domain entry = Some r"
proof -
  obtain snap problems where "Compile (ap_Namespace a) domain (Policy (Some (spec_of cfg domain))) = Some (snap, problems)"
    using Compile_defined by blast
  moreover obtain snap0 problems0 where
      "Compile (ap_Namespace a) domain (Policy (Some (zero_spec\<lparr>v1_Domain := domain\<rparr>))) = Some (snap0, problems0)"
    using Compile_defined by blast
  ultimately show ?thesis by (simp add: apply_domain_def Let_def)
qed

lemma apply_loop_built:
  "apply_loop sha now a cfg domains = Some (built, logs) \<Longrightarrow>
     map fst built = domains \<and>
     (\<forall>p\<in>set built. \<exists>entry l. map_of (mf_Domains (cf_Manifest cfg)) (fst p) = Some entry \<and>
        apply_domain sha now a cfg (fst p) entry = Some (fst (snd p), snd (snd p), l))"
  by (induction domains arbitrary: built logs) (fastforce split: option.splits bind_splits)+

lemma apply_loop_defined:
  "set domains \<subseteq> set (gm_keys (mf_Domains (cf_Manifest cfg))) \<Longrightarrow> \<exists>r. apply_loop sha now a cfg domains = Some r"
proof (induction domains)
  case (Cons domain domains)
  then obtain entry where "map_of (mf_Domains (cf_Manifest cfg)) domain = Some entry"
    using map_of_eq_None_iff [of "mf_Domains (cf_Manifest cfg)" domain] by auto
  then show ?case using Cons apply_domain_defined [of sha now a cfg domain entry] by (fastforce split: bind_splits)
qed simp

lemma Apply_defined: "\<exists>a' st'. Apply sha now swapped cfg a st = Some (a', st')"
proof -
  obtain built logs where "apply_loop sha now a cfg (sortedDomains (cf_Manifest cfg)) = Some (built, logs)"
    using apply_loop_defined [of "sortedDomains (cf_Manifest cfg)" cfg sha now a] by (auto simp: sortedDomains_def)
  then show ?thesis by (simp add: Apply_def Let_def)
qed

lemma Apply_built:
  assumes "Apply sha now swapped cfg a st = Some (a', st')"
  obtains built where "map fst built = sortedDomains (cf_Manifest cfg)"
    "\<And>p. p \<in> set built \<Longrightarrow> \<exists>entry l. map_of (mf_Domains (cf_Manifest cfg)) (fst p) = Some entry \<and>
        apply_domain sha now a cfg (fst p) entry = Some (fst (snd p), snd (snd p), l)"
    "ap_domains a' = map (\<lambda>(domain, d, _). (domain, d)) built" "ap_hashes a' = map (\<lambda>(domain, _, h). (domain, h)) built"
    "ap_Namespace a' = ap_Namespace a" "ap_ready a'"
    "st' = Replace swapped (Some (NewRuleSet (Some (ap_domains a')))) st"
proof -
  obtain built logs where "apply_loop sha now a cfg (sortedDomains (cf_Manifest cfg)) = Some (built, logs)"
    using assms by (auto simp: Apply_def split: bind_splits)
  then show thesis using assms apply_loop_built that [of built] by (auto simp: Apply_def Let_def)
qed

lemma map_of_built:
  "map_of (map (\<lambda>(k, d, h). (k, d)) built) k = map_option fst (map_of built k)"
  "map_of (map (\<lambda>(k, d, h). (k, h)) built) k = map_option snd (map_of built k)"
  by (induction built) auto

text \<open>The applied map, domain by domain.\<close>

lemma Apply_domain:
  assumes "Apply sha now swapped cfg a st = Some (a', st')"
  shows "case map_of (mf_Domains (cf_Manifest cfg)) domain of
      None \<Rightarrow> map_of (ap_domains a') domain = None
    | Some entry \<Rightarrow> \<exists>d h l. apply_domain sha now a cfg domain entry = Some (d, h, l) \<and>
        map_of (ap_domains a') domain = Some d \<and> hash_of a' domain = h"
proof -
  obtain built where B: "map fst built = sortedDomains (cf_Manifest cfg)"
    "\<And>p. p \<in> set built \<Longrightarrow> \<exists>entry l. map_of (mf_Domains (cf_Manifest cfg)) (fst p) = Some entry \<and>
        apply_domain sha now a cfg (fst p) entry = Some (fst (snd p), snd (snd p), l)"
    "ap_domains a' = map (\<lambda>(domain, d, _). (domain, d)) built" "ap_hashes a' = map (\<lambda>(domain, _, h). (domain, h)) built"
    using Apply_built [OF assms] by metis
  have keys: "fst ` set built = set (gm_keys (mf_Domains (cf_Manifest cfg)))"
    using arg_cong [OF B(1), of set] by (simp add: sortedDomains_def)
  show ?thesis
  proof (cases "map_of built domain")
    case None
    then have "map_of (mf_Domains (cf_Manifest cfg)) domain = None" using keys by (simp add: map_of_eq_None_iff)
    then show ?thesis using None B(3) by (simp add: map_of_built)
  next
    case (Some p)
    obtain d h where p: "p = (d, h)" by (cases p)
    obtain entry l where "map_of (mf_Domains (cf_Manifest cfg)) domain = Some entry"
        "apply_domain sha now a cfg domain entry = Some (d, h, l)"
      using B(2) [OF map_of_SomeD [OF Some]] p by auto
    then show ?thesis using Some p B(3,4) by (auto simp: map_of_built hash_of_def)
  qed
qed

section \<open>What a replica enforces\<close>

text \<open>
  The spec behind a payload hash is the parameter \<open>content\<close>: the reader checks every payload against the hash
  of the manifest, so two payloads with one hash are one spec. A reading is \<open>genuine\<close> when its specs are the
  contents of its hashes.
\<close>

definition genuine :: "(string \<Rightarrow> v1_spec) \<Rightarrow> configuration \<Rightarrow> bool" where
  "genuine content cfg \<longleftrightarrow> (\<forall>domain entry. map_of (mf_Domains (cf_Manifest cfg)) domain = Some entry \<longrightarrow>
     md_Hash entry \<noteq> [] \<and> spec_of cfg domain = content (md_Hash entry))"

definition compiles_to :: "string \<Rightarrow> string \<Rightarrow> v1_spec \<Rightarrow> snapshot \<Rightarrow> bool" where
  "compiles_to namespace domain s snap \<longleftrightarrow>
     (\<exists>problems. Compile namespace domain (Policy (Some s)) = Some (snap, problems) \<and> \<not> blocking problems)"

definition spec_compiles :: "string \<Rightarrow> string \<Rightarrow> v1_spec \<Rightarrow> bool" where
  "spec_compiles namespace domain s \<longleftrightarrow> (\<exists>snap. compiles_to namespace domain s snap)"

text \<open>An entry enforces a snapshot: its engine runs it and its view shows it.\<close>

definition enforces :: "domain_entry \<Rightarrow> snapshot \<Rightarrow> bool" where
  "enforces d snap \<longleftrightarrow> do_Snapshot d = Some snap \<and> (\<exists>en. do_Engine d = Some en \<and> en_snap en = snap)"

definition empty_rules :: "string \<Rightarrow> string \<Rightarrow> snapshot \<Rightarrow> bool" where
  "empty_rules namespace domain snap \<longleftrightarrow>
     (\<exists>problems. Compile namespace domain (Policy (Some (zero_spec\<lparr>v1_Domain := domain\<rparr>))) = Some (snap, problems))"

definition applier_ok :: "(string \<Rightarrow> v1_spec) \<Rightarrow> applier \<Rightarrow> bool" where
  "applier_ok content a \<longleftrightarrow> (\<forall>domain d. map_of (ap_domains a) domain = Some d \<longrightarrow>
     (\<exists>snap. enforces d snap \<and>
        (if hash_of a domain = [] then empty_rules (ap_Namespace a) domain snap
         else compiles_to (ap_Namespace a) domain (content (hash_of a domain)) snap)))"

lemma build_enforces: "enforces (build sha a snap) snap"
  by (simp add: build_def enforces_def zero_domain_def NewEngine_def Let_def)

lemma enforces_stamp [simp]:
  "enforces (d\<lparr>do_Generation := g\<rparr>) snap \<longleftrightarrow> enforces d snap" "enforces (d\<lparr>do_UID := u\<rparr>) snap \<longleftrightarrow> enforces d snap"
  "enforces (d\<lparr>do_AppliedAt := t\<rparr>) snap \<longleftrightarrow> enforces d snap"
  by (simp_all add: enforces_def)

lemma compiles_to_unique: "compiles_to ns domain s snap \<Longrightarrow> compiles_to ns domain s snap' \<Longrightarrow> snap' = snap"
  by (auto simp: compiles_to_def)

text \<open>
  The outcome of one domain: a payload that compiles is enforced at its own generation, also when the engine
  is reused; one that does not leaves the last good engine with its generation, or enforces nothing at
  generation zero.
\<close>

lemma apply_domain_outcome:
  assumes "applier_ok content a" "md_Hash entry \<noteq> []" "spec_of cfg domain = content (md_Hash entry)"
    and "apply_domain sha now a cfg domain entry = Some (d, h, l)"
  shows "compiles_to (ap_Namespace a) domain (spec_of cfg domain) snap \<Longrightarrow>
      enforces d snap \<and> do_Generation d = md_Generation entry \<and> do_UID d = md_UID entry \<and> h = md_Hash entry"
    and "\<nexists>snap. compiles_to (ap_Namespace a) domain (spec_of cfg domain) snap \<Longrightarrow>
      map_of (ap_domains a) domain = Some d0 \<Longrightarrow> hash_of a domain \<noteq> [] \<Longrightarrow>
      h = hash_of a domain \<and> (\<forall>snap. enforces d snap \<longleftrightarrow> enforces d0 snap) \<and>
      do_Generation d = do_Generation d0 \<and> do_UID d = do_UID d0"
    and "\<nexists>snap. compiles_to (ap_Namespace a) domain (spec_of cfg domain) snap \<Longrightarrow>
      map_of (ap_domains a) domain = None \<or> hash_of a domain = [] \<Longrightarrow>
      h = [] \<and> (\<exists>snap. enforces d snap \<and> empty_rules (ap_Namespace a) domain snap) \<and> do_Generation d = 0"
proof -
  obtain snap1 problems where C: "Compile (ap_Namespace a) domain (Policy (Some (spec_of cfg domain))) = Some (snap1, problems)"
    using Compile_defined by blast
  have ct: "compiles_to (ap_Namespace a) domain (spec_of cfg domain) snap \<longleftrightarrow> snap = snap1 \<and> \<not> blocking problems" for snap
    using C by (auto simp: compiles_to_def)
  show "enforces d snap \<and> do_Generation d = md_Generation entry \<and> do_UID d = md_UID entry \<and> h = md_Hash entry"
    if "compiles_to (ap_Namespace a) domain (spec_of cfg domain) snap"
  proof (cases "map_of (ap_domains a) domain \<noteq> None \<and> hash_of a domain = md_Hash entry")
    case True
    then obtain d0 snap0 where d0: "map_of (ap_domains a) domain = Some d0" "enforces d0 snap0"
        "compiles_to (ap_Namespace a) domain (content (md_Hash entry)) snap0"
      using assms(1,2) unfolding applier_ok_def by force
    have "snap0 = snap" using compiles_to_unique [OF that [unfolded assms(3)] d0(3)] .
    then show ?thesis using True assms(4) d0(1,2) by (auto simp: apply_domain_def Let_def)
  next
    case False
    then show ?thesis using assms(4) that C build_enforces by (auto simp: ct apply_domain_def Let_def split: if_splits)
  qed
  assume none: "\<nexists>snap. compiles_to (ap_Namespace a) domain (spec_of cfg domain) snap"
  then have blocked: "blocking problems" using ct [of snap1] by blast
  have fresh: "map_of (ap_domains a) domain = None \<or> hash_of a domain \<noteq> md_Hash entry"
  proof (rule ccontr)
    assume "\<not> ?thesis"
    then have "\<exists>snap. compiles_to (ap_Namespace a) domain (content (md_Hash entry)) snap"
      using assms(1,2) unfolding applier_ok_def by fastforce
    then show False using none assms(3) by simp
  qed
  show "h = hash_of a domain \<and> (\<forall>snap. enforces d snap \<longleftrightarrow> enforces d0 snap) \<and>
      do_Generation d = do_Generation d0 \<and> do_UID d = do_UID d0"
    if "map_of (ap_domains a) domain = Some d0" "hash_of a domain \<noteq> []"
    using assms(4) that fresh blocked C by (auto simp: apply_domain_def Let_def split: if_splits)
  show "h = [] \<and> (\<exists>snap. enforces d snap \<and> empty_rules (ap_Namespace a) domain snap) \<and> do_Generation d = 0"
    if "map_of (ap_domains a) domain = None \<or> hash_of a domain = []"
    using assms(4) that fresh blocked C build_enforces
    by (auto simp: apply_domain_def Let_def empty_rules_def split: if_splits bind_splits)
qed

lemma Apply_applier_ok:
  assumes "applier_ok content a" "genuine content cfg" "Apply sha now swapped cfg a st = Some (a', st')"
  shows "applier_ok content a'"
  unfolding applier_ok_def
proof (intro allI impI)
  fix domain d assume d: "map_of (ap_domains a') domain = Some d"
  have ns: "ap_Namespace a' = ap_Namespace a" using Apply_built [OF assms(3)] by metis
  obtain entry l where e: "map_of (mf_Domains (cf_Manifest cfg)) domain = Some entry"
      "apply_domain sha now a cfg domain entry = Some (d, hash_of a' domain, l)"
    using Apply_domain [OF assms(3), of domain] d by (auto split: option.splits)
  have g: "md_Hash entry \<noteq> []" "spec_of cfg domain = content (md_Hash entry)" using assms(2) e(1) by (auto simp: genuine_def)
  note outcome = apply_domain_outcome [OF assms(1) g e(2)]
  show "\<exists>snap. enforces d snap \<and>
      (if hash_of a' domain = [] then empty_rules (ap_Namespace a') domain snap
       else compiles_to (ap_Namespace a') domain (content (hash_of a' domain)) snap)"
  proof (cases "\<exists>snap. compiles_to (ap_Namespace a) domain (spec_of cfg domain) snap")
    case True
    then show ?thesis using outcome(1) g ns by metis
  next
    case False
    show ?thesis
    proof (cases "map_of (ap_domains a) domain = None \<or> hash_of a domain = []")
      case True
      then show ?thesis using outcome(3) [OF False True] ns by auto
    next
      case kept: False
      then obtain d0 where d0: "map_of (ap_domains a) domain = Some d0" by auto
      then show ?thesis using outcome(2) [OF False d0] kept assms(1) ns unfolding applier_ok_def by fastforce
    qed
  qed
qed

lemma empty_rules_blocks:
  assumes "empty_rules namespace domain snap"
  shows "sn_Blocks snap = []"
proof -
  let ?p = "the (Policy (Some (zero_spec\<lparr>v1_Domain := domain\<rparr>)))"
  obtain problems where "Compile namespace domain (Some ?p) = Some (snap, problems)"
    using assms by (auto simp: empty_rules_def Policy_def)
  moreover have "p_Blocks ?p = []" by (simp add: Policy_def zero_spec_def)
  ultimately show ?thesis by (auto elim!: Compile_cases dest!: compileBlocks_accepted)
qed

lemma Apply_published:
  assumes "Apply sha now swapped cfg a st = Some (a', st')"
  shows "rs_domains (Load st') = ap_domains a'" "rs_refusal (Load st') = None"
proof -
  have "st' = Replace swapped (Some (NewRuleSet (Some (ap_domains a')))) st" using Apply_built [OF assms] by metis
  then show "rs_domains (Load st') = ap_domains a'" "rs_refusal (Load st') = None"
    by (simp_all add: Replace_def Load_def NewRuleSet_def)
qed


definition sample_spec :: v1_spec where
  "sample_spec =
     \<lparr>v1_Domain = ''gw'',
      v1_Mappings = [\<lparr>v1_km_Key = ''plan'', v1_km_Claim = ''ext.plan'', v1_km_ClaimPath = [], v1_km_Type = [],
        v1_km_Normalization = [], v1_km_Fallbacks = []\<rparr>],
      v1_Groups = [\<lparr>v1_g_Name = ''vip'', v1_g_Values = [''gold'', ''silver'']\<rparr>],
      v1_Limits = [\<lparr>v1_b_Name = ''orders'',
        v1_b_Target = Some \<lparr>v1_t_Routes = [\<lparr>v1_r_Path = \<lparr>v1_pm_Type = ''Template'', v1_pm_Value = ''/orders/{orderId}''\<rparr>,
          v1_r_Methods = [''GET''],
          v1_r_Cost = Some \<lparr>v1_rc_Source = ''QueryParameter'', v1_rc_Name = ''n'', v1_rc_Default = Some 2\<rparr>\<rparr>]\<rparr>,
        v1_b_Mode = ''FirstMatch'',
        v1_b_Rules = [
          \<lparr>v1_ru_Name = ''trial'', v1_ru_Matches = [], v1_ru_Counters = [''sub''],
           v1_ru_Rates = [\<lparr>v1_ra_Requests = 5, v1_ra_PeriodSeconds = 60, v1_ra_Burst = None, v1_ra_Algorithm = ''FixedWindow''\<rparr>],
           v1_ru_Behavior = ''Shadow'', v1_ru_ReplacedRules = []\<rparr>,
          \<lparr>v1_ru_Name = ''vip'',
           v1_ru_Matches = [\<lparr>v1_pd_Key = ''plan'', v1_pd_Operator = ''InGroup'', v1_pd_Value = ''vip'', v1_pd_Values = []\<rparr>],
           v1_ru_Counters = [''sub'', ''orderId''],
           v1_ru_Rates = [\<lparr>v1_ra_Requests = 7, v1_ra_PeriodSeconds = 60, v1_ra_Burst = Some 3, v1_ra_Algorithm = []\<rparr>],
           v1_ru_Behavior = [], v1_ru_ReplacedRules = []\<rparr>]\<rparr>]\<rparr>"

lemma sample_spec_policy: "Policy (Some sample_spec) = Some sample_policy"
  by (simp add: sample_spec_def sample_policy_def Policy_def modelMappings_def modelGroups_def modelBlock_def modelRoutes_def
      modelRoute_def modelRule_def modelRate_def modelPredicate_def Second_def mul64_def wrap64_def)

lemma sample_spec_compiles: "compiles_to ''ns'' ''gw'' sample_spec sample_snapshot"
  using sample_compiled by (simp add: compiles_to_def sample_spec_policy)

definition sample_reading :: configuration where
  "sample_reading =
     \<lparr>cf_Manifest = \<lparr>mf_FormatVersion = 1, mf_OperatorVersion = ''v1'',
        mf_Domains = [(''gw'', \<lparr>md_Generation = 3, md_UID = ''u1'', md_Hash = ''sha256:00''\<rparr>)]\<rparr>,
      cf_Specs = [(''gw'', sample_spec)], cf_Raw = []\<rparr>"

lemma sample_genuine: "genuine (\<lambda>_. sample_spec) sample_reading"
  by (auto simp: genuine_def sample_reading_def spec_of_def split: if_splits)

lemma new_applier_ok: "applier_ok content (new_applier namespace stats)"
  by (simp add: applier_ok_def new_applier_def)


end
