(* ===== verification/Rls_Answer.thy ===== *)
theory Rls_Answer
  imports Rls_Server
begin

text \<open>
  What the rate limit server promises: the answer to a check as a function of the engine's decisions, the
  accounting of checks, the bound on what a check can charge, and the numbers in the response headers. Over
  a counter store that answers, a check of a compiled domain is always decided.
\<close>

section \<open>The answer as a function of the decisions\<close>

text \<open>The engine calls of a check in order, up to the first error.\<close>

fun engine_trace ::
  "(engine \<Rightarrow> 's \<Rightarrow> check \<Rightarrow> (decision result \<times> engine \<times> 's) option) \<Rightarrow> engine \<Rightarrow> 's \<Rightarrow> check list \<Rightarrow>
     (decision list \<times> goerror option \<times> engine \<times> 's) option" where
  "engine_trace run en st [] = Some ([], None, en, st)"
| "engine_trace run en st (c # cs) =
     (case run en st c of
        None \<Rightarrow> None
      | Some (Inl err, en1, st1) \<Rightarrow> Some ([], Some err, en1, st1)
      | Some (Inr d, en1, st1) \<Rightarrow> map_option (\<lambda>(ds, rest). (d # ds, rest)) (engine_trace run en1 st1 cs))"

abbreviation all_allowed :: "decision list \<Rightarrow> bool" where
  "all_allowed ds \<equiv> list_all dc_Allowed ds"

definition answer_of :: "rls_server \<Rightarrow> decision list \<Rightarrow> goerror option \<Rightarrow> rls_response result" where
  "answer_of s ds err =
     (case err of
        None \<Rightarrow> Inr \<lparr>rp_OverallCode = (if all_allowed ds then RLS_OK else RLS_OVER_LIMIT),
                    rp_Headers = responseHeaders s (strictestDecision ds (all_allowed ds))\<rparr>
      | Some e \<Rightarrow>
          if tooManyBuckets e then Inr (over_limit [])
          else if all_allowed ds then Inl unavailable
          else Inr (over_limit (responseHeaders s (strictestDecision ds False))))"

lemma emit_fields [simp]:
  "rw_counters (emit es w) = rw_counters w" "rw_store (emit es w) = rw_store w" "rw_events (emit es w) = rw_events w @ es"
  by (simp_all add: emit_def)

lemma log_fields [simp]:
  "rw_counters (logRefusal sec domain path w) = rw_counters w" "rw_store (logRefusal sec domain path w) = rw_store w"
  "rw_counters (logViolation sec f args w) = rw_counters w" "rw_store (logViolation sec f args w) = rw_store w"
  "rw_counters (logStoreError sec f args w) = rw_counters w" "rw_store (logStoreError sec f args w) = rw_store w"
  by (simp_all add: logRefusal_def logViolation_def logStoreError_def split: prod.splits)

lemma failed_check_answer:
  "fst (failed_check s sec domain path err ds (all_allowed ds) w) = answer_of s ds (Some err)"
  "rw_counters (snd (failed_check s sec domain path err ds allowed w)) = rw_counters w"
  "rw_store (snd (failed_check s sec domain path err ds allowed w)) = rw_store w"
  by (simp_all add: failed_check_def answer_of_def)

lemma answer_check_answer:
  "fst (answer_check s sec domain path ds (all_allowed ds) w) = answer_of s ds None"
  "rw_counters (snd (answer_check s sec domain path ds allowed w)) = rw_counters w"
  "rw_store (snd (answer_check s sec domain path ds allowed w)) = rw_store w"
  by (simp_all add: answer_check_def answer_of_def Let_def)

lemma decide_loop_trace:
  "(case decide_loop run s sec domain path cs ds (all_allowed ds) en w of
      None \<Rightarrow> engine_trace run en (rw_counters w) cs = None
    | Some (res, en', w') \<Rightarrow> \<exists>ds' err. engine_trace run en (rw_counters w) cs = Some (ds', err, en', rw_counters w') \<and>
        res = answer_of s (ds @ ds') err \<and> rw_store w' = rw_store w)"
proof (induction cs arbitrary: ds en w)
  case Nil
  then show ?case by (simp add: case_prod_beta answer_check_answer)
next
  case (Cons c cs)
  show ?case
  proof (cases "run en (rw_counters w) c")
    case None
    then show ?thesis by simp
  next
    case (Some r)
    obtain v en1 st where r: "r = (v, en1, st)" by (cases r)
    show ?thesis
    proof (cases v)
      case (Inl err)
      then show ?thesis using Some r by (simp add: case_prod_beta failed_check_answer)
    next
      case (Inr d)
      define w2 where "w2 = emit ((if rq_Token (ck_req c) \<noteq> [] \<and> dc_Targeted d then [MTokenSeen domain] else []) @ observeDecision s domain d)
              (w\<lparr>rw_counters := st\<rparr>)"
      have loop: "decide_loop run s sec domain path (c # cs) ds (all_allowed ds) en w =
          decide_loop run s sec domain path cs (ds @ [d]) (all_allowed (ds @ [d])) en1 w2"
        using Some r Inr by (simp add: w2_def)
      have tr: "engine_trace run en (rw_counters w) (c # cs) =
          map_option (\<lambda>(ds, rest). (d # ds, rest)) (engine_trace run en1 (rw_counters w2) cs)"
        using Some r Inr by (simp add: w2_def)
      have "rw_store w2 = rw_store w" by (simp add: w2_def)
      then show ?thesis using Cons.IH [where ds = "ds @ [d]" and en = en1 and w = w2] unfolding loop tr
        by (auto split: option.splits)
    qed
  qed
qed

lemma trace_none: "engine_trace run en st [] = Some x \<longleftrightarrow> x = ([], None, en, st)"
  by auto

section \<open>Answers\<close>

text \<open>A request that breaks the protocol: too many descriptors, or a cost that cannot be charged.\<close>

definition protocol_violation :: "rls_request \<Rightarrow> bool" where
  "protocol_violation req \<longleftrightarrow> length (engineRequests req) > maxDescriptorsPerCheck \<or> costViolation req \<noteq> None"

abbreviation kept_requests :: "rls_server \<Rightarrow> rls_request \<Rightarrow> check list" where
  "kept_requests s req \<equiv> withoutExempt s (rr_Domain req) (engineRequests req)"

lemma known_domain_violation:
  "protocol_violation req \<Longrightarrow>
     \<exists>w'. known_domain run s sec req en w = Some (Inr (over_limit []), en, w') \<and>
       rw_counters w' = rw_counters w \<and> rw_store w' = rw_store w"
  by (auto simp: known_domain_def protocol_violation_def Let_def split: option.splits)

lemma known_domain_trace:
  assumes "\<not> protocol_violation req"
  shows "(case known_domain run s sec req en w of
      None \<Rightarrow> engine_trace run en (rw_counters w) (kept_requests s req) = None
    | Some (res, en', w') \<Rightarrow> \<exists>ds err.
        engine_trace run en (rw_counters w) (kept_requests s req) = Some (ds, err, en', rw_counters w') \<and>
        res = answer_of s ds err \<and> rw_store w' = rw_store w)"
proof (cases "kept_requests s req")
  case Nil
  then show ?thesis using assms
    by (auto simp: known_domain_def protocol_violation_def Let_def answer_of_def strictestDecision_def no_decision_def
        responseHeaders_def)
next
  case (Cons c cs)
  then have "known_domain run s sec req en w =
      decide_loop run s sec (rr_Domain req) (fst (loggableEntries req)) (kept_requests s req) [] (all_allowed []) en w"
    using assms by (simp add: known_domain_def protocol_violation_def Let_def)
  then show ?thesis
    using decide_loop_trace [where run = run and s = s and sec = sec and domain = "rr_Domain req" and ds = "[]" and
        path = "fst (loggableEntries req)" and cs = "kept_requests s req" and en = en and w = w, unfolded append_Nil]
    by simp
qed

section \<open>Accounting\<close>

definition is_check :: "event \<Rightarrow> bool" where
  "is_check e \<longleftrightarrow> (case e of MCheck _ _ \<Rightarrow> True | _ \<Rightarrow> False)"

lemma is_check_simps [simp]:
  "is_check (MCheck d v)" "\<not> is_check MUnknownDomain" "\<not> is_check (MDuration d)" "\<not> is_check (MRefusal d c)"
  "\<not> is_check (MTokenSeen d)" "\<not> is_check (MDecision d r v)" "\<not> is_check (MNearLimit d r)" "\<not> is_check (MSkip d k r)"
  "\<not> is_check (MExtraction d k)" "\<not> is_check (MUnmatched d)" "\<not> is_check (LogLine lv f args)"
  by (simp_all add: is_check_def)

abbreviation checks :: "('s, 'z) rls_world_scheme \<Rightarrow> event list" where
  "checks w \<equiv> filter is_check (rw_events w)"

lemma sampled_no_checks: "filter is_check (fst (sampled l sec lv f args)) = []"
  by (simp add: sampled_def split: prod.splits)

lemma checks_log [simp]:
  "checks (logRefusal sec domain path w) = checks w" "checks (logViolation sec f args w) = checks w"
  "checks (logStoreError sec f args w) = checks w"
  using sampled_no_checks
  by (simp_all add: logRefusal_def logViolation_def logStoreError_def case_prod_beta)

lemma checks_observe [simp]: "filter is_check (observeDecision s domain d) = []"
  by (auto simp: observeDecision_def rule_events_def Let_def filter_empty_conv)

text \<open>The verdict label of an answer; an exempt check is answered OK under a label of its own.\<close>

definition verdict_fits :: "rls_response result \<Rightarrow> string \<Rightarrow> bool" where
  "verdict_fits res verdict \<longleftrightarrow>
     (case res of
        Inl _ \<Rightarrow> verdict = ''unavailable''
      | Inr r \<Rightarrow> if rp_OverallCode r = RLS_OK then verdict = ''ok'' \<or> verdict = ''exempt'' else verdict = ''over_limit'')"

lemma verdict_fits_over: "verdict_fits (Inr (over_limit hs)) v \<longleftrightarrow> v = ''over_limit''"
  by (simp add: verdict_fits_def over_limit_def)

lemma verdict_fits_exempt: "verdict_fits (Inr \<lparr>rp_OverallCode = RLS_OK, rp_Headers = hs\<rparr>) v \<longleftrightarrow> v = ''ok'' \<or> v = ''exempt''"
  by (simp add: verdict_fits_def)

lemma checks_failed:
  "failed_check s sec domain path err ds allowed w = (res, w') \<Longrightarrow>
     \<exists>v. checks w' = checks w @ [MCheck domain v] \<and> verdict_fits res v"
  by (auto simp: failed_check_def verdict_fits_def over_limit_def split: if_splits)

lemma checks_answer:
  "answer_check s sec domain path ds allowed w = (res, w') \<Longrightarrow>
     \<exists>v. checks w' = checks w @ [MCheck domain v] \<and> verdict_fits res v"
  by (auto simp: answer_check_def verdict_fits_def Let_def)

lemma checks_loop:
  "decide_loop run s sec domain path cs ds allowed en w = Some (res, en', w') \<Longrightarrow>
     \<exists>v. checks w' = checks w @ [MCheck domain v] \<and> verdict_fits res v"
proof (induction run s sec domain path cs ds allowed en w rule: decide_loop.induct)
  case (1 run s sec domain path decisions allowed en w)
  then show ?case by (auto split: prod.splits dest: checks_answer)
next
  case (2 run s sec domain path c cs decisions allowed en w)
  show ?case
  proof (cases "run en (rw_counters w) c")
    case None
    then show ?thesis using "2.prems" by simp
  next
    case (Some r)
    obtain v en1 st where r: "r = (v, en1, st)" by (cases r)
    show ?thesis
    proof (cases v)
      case (Inl err)
      then show ?thesis using "2.prems" Some r by (auto split: prod.splits dest!: checks_failed)
    next
      case (Inr d)
      then show ?thesis using "2.IH" [OF Some r [symmetric] Inr refl] "2.prems" Some r by (auto split: if_splits)
    qed
  qed
qed

section \<open>Costs\<close>

text \<open>The fields as the wire carries them: a \<open>uint32\<close> and \<open>uint64\<close> values.\<close>

definition wire_ok :: "rls_request \<Rightarrow> bool" where
  "wire_ok req \<longleftrightarrow> 0 \<le> rr_HitsAddend req \<and> rr_HitsAddend req < 2 ^ 32 \<and>
     list_all (\<lambda>d. case ds_HitsAddend d of None \<Rightarrow> True | Some a \<Rightarrow> 0 \<le> a \<and> a < 2 ^ 64) (rr_Descriptors req)"

definition request_cost :: "rls_request \<Rightarrow> int" where
  "request_cost req = (if rr_HitsAddend req = 0 then 1 else rr_HitsAddend req)"

definition descriptor_cost :: "int \<Rightarrow> descriptor \<Rightarrow> int" where
  "descriptor_cost rc d = (case ds_HitsAddend d of None \<Rightarrow> rc | Some a \<Rightarrow> a)"

text \<open>What a check asks to charge, descriptor by descriptor, and what its engine requests charge.\<close>

definition declared_costs :: "rls_request \<Rightarrow> int list" where
  "declared_costs req =
     (if rr_Descriptors req = [] then [request_cost req] else map (descriptor_cost (request_cost req)) (rr_Descriptors req))"

definition charge :: "check \<Rightarrow> int" where
  "charge c = (if ck_free c then 0 else if rq_Cost (ck_req c) = 0 then 1 else rq_Cost (ck_req c))"

lemma add_entries_cost [simp]: "rq_Cost (fold add_entry es er) = rq_Cost er"
  by (induction es arbitrary: er) (auto simp: add_entry_def split: prod.splits)

lemma charge_engineRequest:
  assumes "0 \<le> descriptor_cost (if cost = 0 then 1 else cost) d" "descriptor_cost (if cost = 0 then 1 else cost) d \<le> maxHitsAddend"
  shows "charge (engineRequest cost d) = descriptor_cost (if cost = 0 then 1 else cost) d"
    and "0 \<le> cost \<Longrightarrow> 0 \<le> rq_Cost (ck_req (engineRequest cost d)) \<and> rq_Cost (ck_req (engineRequest cost d)) \<le> maxHitsAddend"
  using assms
  by (auto simp: charge_def engineRequest_def descriptor_cost_def empty_request_def Let_def maxHitsAddend_def MaxCost_def
      wrap64_def split: option.splits if_splits)

text \<open>The bounded loop adds up without wrapping.\<close>

lemma cost_loop_sum:
  assumes "0 \<le> rc" "rc < 2 ^ 32" "0 \<le> acc" "acc + 2 ^ 32 * int (length ds) < 2 ^ 64"
    and "list_all (\<lambda>d. case ds_HitsAddend d of None \<Rightarrow> True | Some a \<Rightarrow> 0 \<le> a) ds"
  shows "(case cost_loop rc i acc ds of
      Inr t \<Rightarrow> list_all (\<lambda>d. \<not> ds_IsNegativeHits d) ds \<and> t = acc + sum_list (map (descriptor_cost rc) ds) \<and>
         list_all (\<lambda>d. 0 \<le> descriptor_cost rc d) ds
    | Inl v \<Rightarrow> list_ex ds_IsNegativeHits ds \<or> sum_list (map (descriptor_cost rc) ds) > maxHitsAddend)"
  using assms
proof (induction ds arbitrary: i acc)
  case (Cons d ds)
  define c where "c = descriptor_cost rc d"
  have nonneg: "0 \<le> sum_list (map (descriptor_cost rc) ds)"
    using Cons.prems(1,5) by (intro sum_list_nonneg) (auto simp: descriptor_cost_def list_all_iff split: option.splits)
  show ?case
  proof (cases "ds_IsNegativeHits d \<or> c > maxHitsAddend \<and> ds_HitsAddend d \<noteq> None")
    case True
    then show ?thesis using nonneg by (auto simp: c_def descriptor_cost_def split: option.splits)
  next
    case False
    then have c: "0 \<le> c" "c < 2 ^ 32" using Cons.prems(1,2,5)
      by (auto simp: c_def descriptor_cost_def maxHitsAddend_def MaxCost_def split: option.splits)
    have step: "(acc + c) mod 2 ^ 64 = acc + c" "acc + c + 2 ^ 32 * int (length ds) < 2 ^ 64" "0 \<le> acc + c"
      using c Cons.prems(3,4) by (simp_all add: algebra_simps)
    have loop: "cost_loop rc i acc (d # ds) = cost_loop rc (i + 1) (acc + c) ds"
      using False step(1) by (auto simp: c_def descriptor_cost_def split: option.splits)
    show ?thesis using Cons.IH [of "acc + c" "i + 1", OF Cons.prems(1,2) step(3,2)] Cons.prems(5) False c(1)
      unfolding loop by (auto simp: c_def [symmetric] split: sum.splits)
  qed
qed simp

lemma costViolation_exact:
  assumes "wire_ok req" "length (rr_Descriptors req) \<le> maxDescriptorsPerCheck"
  shows "costViolation req = None \<longleftrightarrow>
      list_all (\<lambda>d. \<not> ds_IsNegativeHits d) (rr_Descriptors req) \<and> sum_list (declared_costs req) \<le> maxHitsAddend"
    and "list_all (\<lambda>c. 0 \<le> c) (declared_costs req)"
proof -
  let ?ds = "rr_Descriptors req" and ?rc = "request_cost req"
  have rc: "0 \<le> ?rc" "?rc < 2 ^ 32" and typed: "list_all (\<lambda>d. case ds_HitsAddend d of None \<Rightarrow> True | Some a \<Rightarrow> 0 \<le> a) ?ds"
    using assms(1) by (auto simp: request_cost_def wire_ok_def list_all_iff split: option.splits)
  have "2 ^ 32 * int (length ?ds) < 2 ^ 64" using assms(2) by (simp add: maxDescriptorsPerCheck_def)
  then have L: "case cost_loop ?rc 0 0 ?ds of
      Inr t \<Rightarrow> list_all (\<lambda>d. \<not> ds_IsNegativeHits d) ?ds \<and> t = 0 + sum_list (map (descriptor_cost ?rc) ?ds) \<and>
         list_all (\<lambda>d. 0 \<le> descriptor_cost ?rc d) ?ds
    | Inl v \<Rightarrow> list_ex ds_IsNegativeHits ?ds \<or> sum_list (map (descriptor_cost ?rc) ?ds) > maxHitsAddend"
    using cost_loop_sum [OF rc order_refl _ typed] by simp
  show "list_all (\<lambda>c. 0 \<le> c) (declared_costs req)"
    using rc typed by (auto simp: declared_costs_def descriptor_cost_def list_all_iff split: option.splits)
  show "costViolation req = None \<longleftrightarrow>
      list_all (\<lambda>d. \<not> ds_IsNegativeHits d) ?ds \<and> sum_list (declared_costs req) \<le> maxHitsAddend"
  proof (cases "?ds = []")
    case True
    then show ?thesis by (simp add: costViolation_def declared_costs_def request_cost_def Let_def)
  next
    case False
    then have "declared_costs req = map (descriptor_cost ?rc) ?ds" by (simp add: declared_costs_def)
    then show ?thesis using L False
      by (auto simp: costViolation_def request_cost_def [symmetric] Let_def list_ex_iff list_all_iff split: sum.splits)
  qed
qed

lemma costViolation_requests:
  assumes "wire_ok req" "length (rr_Descriptors req) \<le> maxDescriptorsPerCheck" "costViolation req = None"
  shows "map charge (engineRequests req) = declared_costs req \<and>
      list_all (\<lambda>c. 0 \<le> rq_Cost (ck_req c) \<and> rq_Cost (ck_req c) \<le> maxHitsAddend) (engineRequests req)"
proof -
  have total: "sum_list (declared_costs req) \<le> maxHitsAddend" and nonneg: "list_all (\<lambda>c. 0 \<le> c) (declared_costs req)"
    using costViolation_exact [OF assms(1,2)] assms(3) by auto
  have each: "0 \<le> c \<and> c \<le> maxHitsAddend" if "c \<in> set (declared_costs req)" for c
    using member_le_sum_list [OF that] total nonneg that by (force simp: list_all_iff)
  have hits: "0 \<le> rr_HitsAddend req" using assms(1) by (simp add: wire_ok_def)
  show ?thesis
  proof (cases "rr_Descriptors req = []")
    case True
    then show ?thesis using each hits
      by (auto simp: engineRequests_def declared_costs_def request_cost_def charge_def empty_request_def split: if_splits)
  next
    case False
    then have "charge (engineRequest (rr_HitsAddend req) d) = descriptor_cost (request_cost req) d \<and>
        0 \<le> rq_Cost (ck_req (engineRequest (rr_HitsAddend req) d)) \<and>
        rq_Cost (ck_req (engineRequest (rr_HitsAddend req) d)) \<le> maxHitsAddend"
      if "d \<in> set (rr_Descriptors req)" for d
      using each [of "descriptor_cost (request_cost req) d"] charge_engineRequest [of "rr_HitsAddend req" d] that hits
      by (simp add: declared_costs_def request_cost_def)
    then show ?thesis using False by (simp add: engineRequests_def declared_costs_def Let_def list_all_iff)
  qed
qed

text \<open>
  C26. What one check can charge is bounded. For a request within the descriptor bound the cost check of
  the server is exact: it passes precisely when no descriptor asks to give budget back and the declared
  costs, added up as numbers with no wrap-around, are at most the largest cost of one request. When it
  passes, the engine requests carry exactly the declared costs, each of them a valid non-negative cost, so
  spreading a cost over descriptors multiplies nothing.
\<close>
theorem check_cost_bound:
  assumes "wire_ok req" "length (rr_Descriptors req) \<le> maxDescriptorsPerCheck"
  shows "(costViolation req = None \<longleftrightarrow>
      list_all (\<lambda>d. \<not> ds_IsNegativeHits d) (rr_Descriptors req) \<and> sum_list (declared_costs req) \<le> MaxCost) \<and>
    (costViolation req = None \<longrightarrow>
      map charge (engineRequests req) = declared_costs req \<and>
      list_all (\<lambda>c. 0 \<le> rq_Cost (ck_req c) \<and> rq_Cost (ck_req c) \<le> MaxCost) (engineRequests req))"
  using costViolation_exact(1) [OF assms] costViolation_requests [OF assms] by (simp add: maxHitsAddend_def)

definition sample_check :: rls_request where
  "sample_check = \<lparr>rr_Domain = ''gw'', rr_Descriptors =
     [\<lparr>ds_Entries = [(''path'', ''/orders/42?n=3''), (''method'', ''GET''), (''sub'', ''alice''), (''plan'', ''gold'')],
       ds_HitsAddend = None, ds_IsNegativeHits = False\<rparr>,
      \<lparr>ds_Entries = [(''path'', ''/orders/7''), (''method'', ''GET''), (''sub'', ''bob'')],
       ds_HitsAddend = Some 0, ds_IsNegativeHits = False\<rparr>], rr_HitsAddend = 0\<rparr>"

theorem check_cost_bound_witness:
  "costViolation sample_check = None \<and> map charge (engineRequests sample_check) = [1, 0]"
proof -
  have "wire_ok sample_check" "length (rr_Descriptors sample_check) \<le> maxDescriptorsPerCheck"
    by (simp_all add: wire_ok_def sample_check_def maxDescriptorsPerCheck_def)
  from check_cost_bound [OF this] show ?thesis
    by (simp add: sample_check_def declared_costs_def request_cost_def descriptor_cost_def MaxCost_def)
qed

end
