(* ===== verification/Rls_Total.thy ===== *)
theory Rls_Total
  imports Rls_Answer Memory_Trace
begin

text \<open>
  The rate limit server over a counter store that answers. The locale \<open>answering_store\<close> is what a check
  needs of the store; the in-memory store with its clock provides it. A check of a compiled domain is then
  always decided: no panic, no gRPC error.
\<close>

lemma cachedExtract_snap: "en_snap (snd (cachedExtract sha ul en token)) = en_snap en"
  by (auto simp: cachedExtract_def Let_def split: prod.splits option.splits)

lemma extractKeys_snap: "en_snap (snd (extractKeys sha ul en req)) = en_snap en"
  using cachedExtract_snap [of sha ul en "rq_Token req"] by (auto simp: extractKeys_def Let_def split: prod.splits)

lemma evaluate_snap:
  assumes "evaluate sha ul judge en st req = Some (res, en', st')"
  shows "en_snap en' = en_snap en"
proof -
  have "en' = en \<or> en' = snd (extractKeys sha ul en req)"
    using assms by (auto simp: evaluate_def Let_def split: if_splits bind_splits prod.splits sum.splits)
  then show ?thesis using extractKeys_snap [of sha ul en req] by auto
qed

section \<open>What a check needs of the counter store\<close>

locale answering_store =
  fixes decide peek :: "'s \<Rightarrow> bucket list \<Rightarrow> verdict list result \<times> 's"
    and sound :: "'s \<Rightarrow> bool"
  assumes decide_answers: "sound st \<Longrightarrow> \<forall>b\<in>set bs. bucket_ok b \<Longrightarrow> distinct (map bk_Key bs) \<Longrightarrow>
      \<exists>vs st'. decide st bs = (Inr vs, st') \<and> length vs = length bs \<and> sound st'"
    and peek_answers: "sound st \<Longrightarrow> \<forall>b\<in>set bs. bucket_ok b \<Longrightarrow> distinct (map bk_Key bs) \<Longrightarrow>
      \<exists>vs st'. peek st bs = (Inr vs, st') \<and> length vs = length bs \<and> sound st'"
begin

lemma evaluate_answers:
  assumes "snapshot_ok namespace (en_snap en)" "snapshot_typed (en_snap en)" "0 \<le> rq_Cost req" "in64 (rq_Cost req)"
    and "judge = decide \<or> judge = peek" "sound st"
  shows "\<exists>d en' st'. evaluate sha ul judge en st req = Some (Inr d, en', st') \<and> sound st'"
proof -
  let ?bs = "buckets_of sha ul en req"
  have buckets: "\<forall>b \<in> set ?bs. bucket_ok b" using rules_of_compiled(3) [OF assms(1,2,3,4)] by blast
  show ?thesis
  proof (cases "?bs = []")
    case True
    then show ?thesis using evaluate_no_buckets [of sha ul en req judge st] assms(6) by auto
  next
    case False
    obtain vs st' where J: "judge st ?bs = (Inr vs, st')" "length vs = length ?bs" "sound st'"
      using assms(5) decide_answers [OF assms(6) buckets rules_of_compiled(2) [OF assms(1)]]
        peek_answers [OF assms(6) buckets rules_of_compiled(2) [OF assms(1)]] by blast
    obtain allowed where A: "Admitted ?bs vs = Some allowed" using J(2) by (auto simp: Admitted_def)
    obtain hs exceeds where G: "aggregate (rules_of sha ul en req) ?bs vs allowed = Some (hs, exceeds)"
      using aggregate_defined [OF buckets] by blast
    show ?thesis using evaluate_buckets [OF False rules_of_compiled(1) [OF assms(1)], of judge st] J A G by auto
  qed
qed

lemma trace_answers:
  assumes "snapshot_ok namespace (en_snap en)" "snapshot_typed (en_snap en)" "sound st"
    and "\<forall>c\<in>set cs. 0 \<le> rq_Cost (ck_req c) \<and> in64 (rq_Cost (ck_req c))"
  shows "\<exists>ds en' st'. engine_trace (run_check sha ul decide peek) en st cs = Some (ds, None, en', st') \<and>
    sound st' \<and> en_snap en' = en_snap en"
  using assms
proof (induction cs arbitrary: en st)
  case (Cons c cs)
  have j: "(if ck_free c then peek else decide) = decide \<or> (if ck_free c then peek else decide) = peek" by simp
  obtain d en1 st1 where E: "run_check sha ul decide peek en st c = Some (Inr d, en1, st1)" "sound st1"
    using evaluate_answers [OF Cons.prems(1,2) _ _ j Cons.prems(3)] Cons.prems(4) unfolding run_check_def by force
  have "en_snap en1 = en_snap en" using evaluate_snap [OF E(1) [unfolded run_check_def]] .
  then show ?case using Cons.IH [of en1 st1] Cons.prems E by auto
qed simp

end

section \<open>The in-memory store and its clock\<close>

text \<open>
  The clock of the store is the list of its readings to come, one per call; the last one repeats.
\<close>

definition tick :: "int list \<Rightarrow> int list" where
  "tick ts = (case ts of _ # t # rest \<Rightarrow> t # rest | _ \<Rightarrow> ts)"

definition clocked_decide :: "mem \<times> int list \<Rightarrow> bucket list \<Rightarrow> verdict list result \<times> mem \<times> int list" where
  "clocked_decide st bs = (case Decide (fst st) (hd (snd st)) bs of (r, m) \<Rightarrow> (r, m, tick (snd st)))"

definition clocked_peek :: "mem \<times> int list \<Rightarrow> bucket list \<Rightarrow> verdict list result \<times> mem \<times> int list" where
  "clocked_peek st bs = (case Peek (fst st) (hd (snd st)) bs of (r, m) \<Rightarrow> (r, m, tick (snd st)))"

definition clocked_sound :: "mem \<times> int list \<Rightarrow> bool" where
  "clocked_sound st \<longleftrightarrow> snd st \<noteq> [] \<and> sorted (snd st) \<and> list_all clock_ok (snd st) \<and> store_ok (hd (snd st)) (fst st)"

lemma tick_sound:
  "ts \<noteq> [] \<Longrightarrow> sorted ts \<Longrightarrow> list_all clock_ok ts \<Longrightarrow> store_ok (hd ts) m \<Longrightarrow> clocked_sound (m, tick ts)"
  by (auto simp: clocked_sound_def tick_def dest: store_ok_mono split: list.splits)

lemma Peek_succeeds:
  assumes "store_ok t m" "clock_ok t" "\<forall>b \<in> set bs. bucket_ok b" "distinct (map bk_Key bs)"
  shows "\<exists>vs m'. Peek m t bs = (Inr vs, m') \<and> length vs = length bs \<and> store_ok t m'"
proof -
  obtain rs m1 where E: "evalAll m t bs = (Inr rs, m1)" using evalAll_total [OF assms(3,2,1)] by blast
  then have P: "Peek m t bs = (Inr (map currentVerdict rs), m1)" using bucket_ok_guard [OF assms(3,4)] by (simp add: Peek_def)
  moreover have "length rs = length bs" using Peek_Inr [OF P] E by (metis Pair_inject sum.inject(2))
  ultimately show ?thesis using Peek_store_ok [OF P assms(1)] by simp
qed

interpretation clocked: answering_store clocked_decide clocked_peek clocked_sound
proof
  fix st :: "mem \<times> int list" and bs :: "bucket list"
  assume st: "clocked_sound st" and bs: "\<forall>b\<in>set bs. bucket_ok b" "distinct (map bk_Key bs)"
  have t: "clock_ok (hd (snd st))" "store_ok (hd (snd st)) (fst st)"
    using st by (auto simp: clocked_sound_def list_all_iff)
  show "\<exists>vs st'. clocked_decide st bs = (Inr vs, st') \<and> length vs = length bs \<and> clocked_sound st'"
    using Decide_succeeds [OF t(2,1) bs] st tick_sound [of "snd st"] by (auto simp: clocked_decide_def clocked_sound_def)
  show "\<exists>vs st'. clocked_peek st bs = (Inr vs, st') \<and> length vs = length bs \<and> clocked_sound st'"
    using Peek_succeeds [OF t(2,1) bs] st tick_sound [of "snd st"] by (auto simp: clocked_peek_def clocked_sound_def)
qed

section \<open>Every check is answered\<close>

text \<open>Every bound domain runs an engine the compiler built.\<close>

definition compiled_store :: "rule_store \<Rightarrow> bool" where
  "compiled_store rs \<longleftrightarrow> (\<forall>domain en. store_Engine rs domain = Some en \<longrightarrow>
     (\<exists>namespace p problems. Compile namespace domain p = Some (en_snap en, problems)) \<and> snapshot_typed (en_snap en))"

definition serving_ok :: "(mem \<times> int list) rls_world \<Rightarrow> bool" where
  "serving_ok w \<longleftrightarrow> compiled_store (rw_store w) \<and> clocked_sound (rw_counters w)"

lemma compiled_touch:
  assumes "compiled_store rs" "store_Engine rs domain = Some en" "en_snap en' = en_snap en"
  shows "compiled_store (touch_engine domain en' rs)"
  using assms by (auto simp: compiled_store_def store_Engine_touch split: if_splits)

lemma withoutExempt_subset: "set (withoutExempt s domain cs) \<subseteq> set cs"
  by (auto simp: withoutExempt_def)

lemma engineRequests_length: "length (engineRequests req) = (if rr_Descriptors req = [] then 1 else length (rr_Descriptors req))"
  by (simp add: engineRequests_def Let_def)

lemma kept_costs:
  assumes "wire_ok req" "\<not> protocol_violation req" "c \<in> set (kept_requests s req)"
  shows "0 \<le> rq_Cost (ck_req c) \<and> in64 (rq_Cost (ck_req c))"
proof -
  have len: "length (rr_Descriptors req) \<le> maxDescriptorsPerCheck"
    using assms(2) by (auto simp: protocol_violation_def engineRequests_length split: if_splits)
  have "costViolation req = None" using assms(2) by (simp add: protocol_violation_def)
  then have "0 \<le> rq_Cost (ck_req c)" "rq_Cost (ck_req c) \<le> maxHitsAddend"
    using costViolation_requests [OF assms(1) len] subsetD [OF withoutExempt_subset assms(3)] by (auto simp: list_all_iff)
  then show ?thesis by (auto simp: in64_def maxHitsAddend_def MaxCost_def)
qed

lemma known_answers:
  assumes "compiled_store rs" "store_Engine rs domain = Some en" "clocked_sound (rw_counters w)" "wire_ok req"
  shows "\<exists>r en' w'. known_domain (run_check sha ul clocked_decide clocked_peek) s sec req en w = Some (Inr r, en', w') \<and>
    clocked_sound (rw_counters w') \<and> rw_store w' = rw_store w \<and> en_snap en' = en_snap en"
proof (cases "protocol_violation req")
  case True
  then show ?thesis using known_domain_violation [OF True] assms(3) by metis
next
  case False
  let ?run = "run_check sha ul clocked_decide clocked_peek"
  obtain namespace p problems where C: "Compile namespace domain p = Some (en_snap en, problems)" and typed: "snapshot_typed (en_snap en)"
    using assms(1,2) unfolding compiled_store_def by blast
  obtain ds en' st' where T: "engine_trace ?run en (rw_counters w) (kept_requests s req) = Some (ds, None, en', st')"
      "clocked_sound st'" "en_snap en' = en_snap en"
    using clocked.trace_answers [OF Compile_snapshot_ok [OF C] typed assms(3)] kept_costs [OF assms(4) False] by blast
  have K: "case known_domain ?run s sec req en w of
      None \<Rightarrow> engine_trace ?run en (rw_counters w) (kept_requests s req) = None
    | Some (res, en', w') \<Rightarrow> \<exists>ds err.
        engine_trace ?run en (rw_counters w) (kept_requests s req) = Some (ds, err, en', rw_counters w') \<and>
        res = answer_of s ds err \<and> rw_store w' = rw_store w"
    using known_domain_trace [OF False] .
  then show ?thesis using T by (auto simp: answer_of_def split: option.splits)
qed

lemma ShouldRateLimit_answers:
  assumes "serving_ok w" "wire_ok req"
  shows "\<exists>r w'. ShouldRateLimit sha ul clocked_decide clocked_peek s sec req w = Some (Inr r, w') \<and> serving_ok w'"
proof (cases "store_Engine (rw_store w) (rr_Domain req)")
  case None
  then show ?thesis using assms(1)
    by (simp add: ShouldRateLimit_def unknown_domain_def serving_ok_def emit_def case_prod_beta)
next
  case (Some en)
  obtain r en' w1 where K: "known_domain (run_check sha ul clocked_decide clocked_peek) s sec req en w = Some (Inr r, en', w1)"
      "clocked_sound (rw_counters w1)" "rw_store w1 = rw_store w" "en_snap en' = en_snap en"
    using known_answers [OF _ Some _ assms(2)] assms(1) unfolding serving_ok_def by blast
  then show ?thesis using Some assms(1) compiled_touch [OF _ Some K(4)]
    by (simp add: ShouldRateLimit_def serving_ok_def)
qed

definition sample_store :: rule_store where
  "sample_store = Replace sample_time (Some (NewRuleSet (Some [(''gw'',
     \<lparr>do_Engine = Some sample_engine, do_Snapshot = Some sample_snapshot, do_Version = [], do_Generation = 1, do_UID = ''u'',
      do_AppliedAt = sample_time\<rparr>)]))) NewStore"

definition sample_world :: "(mem \<times> int list) rls_world" where
  "sample_world = new_world sample_store (New, [sample_time])"

lemma sample_store_engine: "store_Engine sample_store domain = (if domain = ''gw'' then Some sample_engine else None)"
  by (simp add: sample_store_def store_Engine_replace)

lemma sample_serving: "serving_ok sample_world"
proof -
  have "compiled_store sample_store"
    using sample_compiled sample_typed by (auto simp: compiled_store_def sample_store_engine sample_engine_snap split: if_splits)
  then show ?thesis using sample_clock_ok
    by (simp add: serving_ok_def sample_world_def new_world_def clocked_sound_def)
qed

lemma sample_wire: "wire_ok sample_check"
  by (simp add: wire_ok_def sample_check_def)

text \<open>
  C16. Every check is answered. Over the in-memory store and its clock, with an engine from the compiler
  behind every bound domain, every check of every domain, whatever its descriptors, token and costs, gets an
  answer: no panic and no gRPC error, so the gateway's fail-open switch is never reached. The server is
  left in the same good state, so this holds for any number of checks in a row.
\<close>
theorem server_always_answers:
  assumes "serving_ok w" "wire_ok req"
  shows "\<exists>r w'. ShouldRateLimit sha ul clocked_decide clocked_peek s sec req w = Some (Inr r, w') \<and> serving_ok w'"
  using ShouldRateLimit_answers [OF assms] .

theorem server_always_answers_witness:
  "\<exists>r w'. ShouldRateLimit id id clocked_decide clocked_peek (NewServer []) 0 sample_check sample_world = Some (Inr r, w') \<and> serving_ok w'"
  using server_always_answers [OF sample_serving sample_wire] .

text \<open>
  C3. The answer of the rate limit server to a check of a bound domain, whatever the counter store does. A
  check that breaks the protocol is refused and touches no counter. Otherwise the kept descriptors are put
  to the engine in order, up to the first error. The answer is OK exactly when every one was decided and
  allowed; it is the gRPC error that lets the gateway fail open exactly when a store error came before any
  refusal; in every other case the answer is OVER_LIMIT, so an earlier refusal or a decision over the bucket
  budget never becomes an error.
\<close>
theorem check_answer:
  assumes "store_Engine (rw_store w) (rr_Domain req) = Some en"
    and "ShouldRateLimit sha ul decide peek s sec req w = Some (res, w')"
  shows "if protocol_violation req then res = Inr (over_limit []) \<and> rw_counters w' = rw_counters w
    else \<exists>ds err en'. engine_trace (run_check sha ul decide peek) en (rw_counters w) (kept_requests s req) =
        Some (ds, err, en', rw_counters w') \<and>
      ((\<exists>r. res = Inr r \<and> rp_OverallCode r = RLS_OK) \<longleftrightarrow> err = None \<and> all_allowed ds) \<and>
      ((\<exists>e. res = Inl e) \<longleftrightarrow> (\<exists>e. err = Some e \<and> \<not> tooManyBuckets e) \<and> all_allowed ds) \<and>
      store_Engine (rw_store w') (rr_Domain req) = Some en'"
proof -
  obtain en' w1 where K: "known_domain (run_check sha ul decide peek) s sec req en w = Some (res, en', w1)"
    and w': "w' = emit [MDuration (rr_Domain req)] (w1\<lparr>rw_store := touch_engine (rr_Domain req) en' (rw_store w1)\<rparr>)"
    using assms by (auto simp: ShouldRateLimit_def split: option.splits bind_splits)
  show ?thesis
  proof (cases "protocol_violation req")
    case True
    then show ?thesis using known_domain_violation [OF True, where run = "run_check sha ul decide peek" and s = s and sec = sec and en = en and w = w] K w' by auto
  next
    case False
    obtain ds err where T: "engine_trace (run_check sha ul decide peek) en (rw_counters w) (kept_requests s req) =
          Some (ds, err, en', rw_counters w1)" "res = answer_of s ds err" "rw_store w1 = rw_store w"
      using known_domain_trace [OF False, where run = "run_check sha ul decide peek" and s = s and sec = sec and en = en and w = w] K by auto
    have "store_Engine (rw_store w') (rr_Domain req) = Some en'"
      using w' T(3) store_Engine_bound [OF assms(1)] by (simp add: store_Engine_touch)
    then show ?thesis using False T w' by (auto simp: answer_of_def over_limit_def split: option.splits if_splits)
  qed
qed

theorem check_answer_witness:
  "\<exists>r w'. ShouldRateLimit id id clocked_decide clocked_peek (NewServer []) 0 sample_check sample_world = Some (Inr r, w') \<and>
     (rp_OverallCode r = RLS_OK \<longleftrightarrow>
       (\<exists>ds en'. engine_trace (run_check id id clocked_decide clocked_peek) sample_engine (New, [sample_time])
          (engineRequests sample_check) = Some (ds, None, en', rw_counters w') \<and> all_allowed ds))"
proof -
  obtain r w' where R: "ShouldRateLimit id id clocked_decide clocked_peek (NewServer []) 0 sample_check sample_world = Some (Inr r, w')"
    using ShouldRateLimit_answers [OF sample_serving sample_wire] by blast
  have bound: "store_Engine (rw_store sample_world) (rr_Domain sample_check) = Some sample_engine"
    by (simp add: sample_world_def new_world_def sample_store_engine sample_check_def)
  have "\<not> protocol_violation sample_check" "kept_requests (NewServer []) sample_check = engineRequests sample_check"
    "rw_counters sample_world = (New, [sample_time])" "length (engineRequests sample_check) = 2"
    by code_simp+
  then show ?thesis using check_answer [OF bound R] R by auto
qed



end
