(* ===== verification/Service.thy ===== *)
theory Service
  imports Config_Apply Rls_Total
begin

text \<open>
  The service replica as a whole: readings of the configuration are applied or refused and checks are
  answered, in any order. The applier and the rule store hold the same engines through pointers, so what a
  check leaves in a token cache is written to both.
\<close>

section \<open>Runs\<close>

definition share_engine :: "string \<Rightarrow> rule_store \<Rightarrow> applier \<Rightarrow> applier" where
  "share_engine domain rs a =
     (case (map_of (ap_domains a) domain, store_Engine rs domain) of
        (Some d, Some en) \<Rightarrow> a\<lparr>ap_domains := AList.update domain (d\<lparr>do_Engine := Some en\<rparr>) (ap_domains a)\<rparr>
      | _ \<Rightarrow> a)"

inductive service_run ::
  "(string \<Rightarrow> string) \<Rightarrow> (string \<Rightarrow> string) \<Rightarrow> (string \<Rightarrow> v1_spec) \<Rightarrow> rls_server \<Rightarrow> string \<Rightarrow>
     applier \<Rightarrow> (mem \<times> int list) rls_world \<Rightarrow> bool"
  for sha ul :: "string \<Rightarrow> string" and content :: "string \<Rightarrow> v1_spec" and s :: rls_server and namespace :: string where
  start: "clocked_sound counters \<Longrightarrow> service_run sha ul content s namespace (new_applier namespace stats) (new_world NewStore counters)"
| applied: "service_run sha ul content s namespace a w \<Longrightarrow> genuine content cfg \<Longrightarrow>
    Apply sha now swapped cfg a (rw_store w) = Some (a', st) \<Longrightarrow>
    service_run sha ul content s namespace a' (w\<lparr>rw_store := st\<rparr>)"
| refuse: "service_run sha ul content s namespace a w \<Longrightarrow> Refuse r a (rw_store w) = (a', st) \<Longrightarrow>
    service_run sha ul content s namespace a' (w\<lparr>rw_store := st\<rparr>)"
| absent: "service_run sha ul content s namespace a w \<Longrightarrow> service_run sha ul content s namespace (SetAbsent b a) w"
| check: "service_run sha ul content s namespace a w \<Longrightarrow> wire_ok req \<Longrightarrow>
    ShouldRateLimit sha ul clocked_decide clocked_peek s sec req w = Some (res, w') \<Longrightarrow>
    service_run sha ul content s namespace (share_engine (rr_Domain req) (rw_store w') a) w'"

section \<open>The invariant\<close>

definition service_ok :: "(string \<Rightarrow> v1_spec) \<Rightarrow> string \<Rightarrow> applier \<Rightarrow> (mem \<times> int list) rls_world \<Rightarrow> bool" where
  "service_ok content namespace a w \<longleftrightarrow> ap_Namespace a = namespace \<and> applier_ok content a \<and>
     rs_domains (Load (rw_store w)) = ap_domains a \<and> clocked_sound (rw_counters w)"

lemma store_Engine_domains:
  "store_Engine rs domain = (case map_of (rs_domains (Load rs)) domain of Some d \<Rightarrow> do_Engine d | None \<Rightarrow> None)"
  by (simp add: store_Engine_def set_Engine_def set_Domain_def zero_domain_def split: option.splits)

lemma service_ok_engine:
  assumes "service_ok content namespace a w" "store_Engine (rw_store w) domain = Some en"
  shows "if hash_of a domain = [] then empty_rules namespace domain (en_snap en)
    else compiles_to namespace domain (content (hash_of a domain)) (en_snap en)"
proof -
  obtain d where d: "map_of (ap_domains a) domain = Some d" "do_Engine d = Some en"
    using assms by (auto simp: store_Engine_domains service_ok_def split: option.splits)
  then obtain snap where "enforces d snap" "if hash_of a domain = [] then empty_rules namespace domain snap
      else compiles_to namespace domain (content (hash_of a domain)) snap"
    using assms(1) unfolding service_ok_def applier_ok_def by blast
  then show ?thesis using d(2) by (simp add: enforces_def)
qed

lemma service_ok_serving:
  assumes "service_ok content namespace a w" "\<forall>h. spec_typed (content h)"
  shows "serving_ok w"
proof -
  have "(\<exists>ns p problems. Compile ns domain p = Some (en_snap en, problems)) \<and> snapshot_typed (en_snap en)"
    if "store_Engine (rw_store w) domain = Some en" for domain en
  proof (cases "hash_of a domain = []")
    case True
    then have "empty_rules namespace domain (en_snap en)" using service_ok_engine [OF assms(1) that] by simp
    then show ?thesis using empty_rules_blocks by (auto simp: empty_rules_def snapshot_typed_def)
  next
    case False
    then have "compiles_to namespace domain (content (hash_of a domain)) (en_snap en)"
      using service_ok_engine [OF assms(1) that] by simp
    then show ?thesis using Compile_typed assms(2) by (auto simp: compiles_to_def)
  qed
  then show ?thesis using assms(1) by (simp add: serving_ok_def compiled_store_def service_ok_def)
qed

text \<open>What a check leaves of the rule store: the engine it ran, with the same rules.\<close>

lemma check_store:
  assumes "serving_ok w" "wire_ok req" "ShouldRateLimit sha ul clocked_decide clocked_peek s sec req w = Some (res, w')"
  shows "clocked_sound (rw_counters w') \<and>
    (case store_Engine (rw_store w) (rr_Domain req) of
       None \<Rightarrow> rw_store w' = rw_store w
     | Some en \<Rightarrow> \<exists>en'. rw_store w' = touch_engine (rr_Domain req) en' (rw_store w) \<and> en_snap en' = en_snap en)"
proof (cases "store_Engine (rw_store w) (rr_Domain req)")
  case None
  then show ?thesis using assms(1,3)
    by (auto simp: ShouldRateLimit_def unknown_domain_def serving_ok_def emit_def case_prod_beta)
next
  case (Some en)
  obtain r en' w1 where "known_domain (run_check sha ul clocked_decide clocked_peek) s sec req en w = Some (Inr r, en', w1)"
      "clocked_sound (rw_counters w1)" "rw_store w1 = rw_store w" "en_snap en' = en_snap en"
    using known_answers [OF _ Some _ assms(2)] assms(1) unfolding serving_ok_def by blast
  then show ?thesis using Some assms(3) by (auto simp: ShouldRateLimit_def)
qed

lemma applier_ok_touch:
  assumes "applier_ok content a" "map_of (ap_domains a) domain = Some d" "\<And>snap. enforces d' snap \<longleftrightarrow> enforces d snap"
  shows "applier_ok content (a\<lparr>ap_domains := AList.update domain d' (ap_domains a)\<rparr>)"
proof -
  have h: "hash_of (a\<lparr>ap_domains := ds\<rparr>) k = hash_of a k" "ap_Namespace (a\<lparr>ap_domains := ds\<rparr>) = ap_Namespace a" for ds k
    by (simp_all add: hash_of_def)
  show ?thesis
    unfolding applier_ok_def h
  proof (intro allI impI)
    fix k d1 assume "map_of (ap_domains (a\<lparr>ap_domains := AList.update domain d' (ap_domains a)\<rparr>)) k = Some d1"
    then have "k = domain \<and> d1 = d' \<or> map_of (ap_domains a) k = Some d1" by (auto split: if_splits)
    then obtain d2 where "map_of (ap_domains a) k = Some d2" "\<And>snap. enforces d1 snap \<longleftrightarrow> enforces d2 snap"
      using assms(2,3) by blast
    then show "\<exists>snap. enforces d1 snap \<and>
        (if hash_of a k = [] then empty_rules (ap_Namespace a) k snap
         else compiles_to (ap_Namespace a) k (content (hash_of a k)) snap)"
      using assms(1) unfolding applier_ok_def by blast
  qed
qed

lemma service_ok_check:
  assumes "service_ok content namespace a w" "serving_ok w" "wire_ok req"
    and "ShouldRateLimit sha ul clocked_decide clocked_peek s sec req w = Some (res, w')"
  shows "service_ok content namespace (share_engine (rr_Domain req) (rw_store w') a) w'"
proof (cases "store_Engine (rw_store w) (rr_Domain req)")
  case None
  then have "rw_store w' = rw_store w" "clocked_sound (rw_counters w')" using check_store [OF assms(2-)] by auto
  then show ?thesis using None assms(1) by (auto simp: share_engine_def service_ok_def split: option.splits)
next
  case (Some en)
  let ?dom = "rr_Domain req"
  obtain en' where E: "rw_store w' = touch_engine ?dom en' (rw_store w)" "en_snap en' = en_snap en" "clocked_sound (rw_counters w')"
    using check_store [OF assms(2-)] Some by auto
  obtain d where d: "map_of (ap_domains a) ?dom = Some d" "do_Engine d = Some en"
    using Some assms(1) by (auto simp: store_Engine_domains service_ok_def split: option.splits)
  have en': "store_Engine (rw_store w') ?dom = Some en'"
    using E(1) store_Engine_bound [OF Some] by (simp add: store_Engine_touch)
  have a': "share_engine ?dom (rw_store w') a = a\<lparr>ap_domains := AList.update ?dom (d\<lparr>do_Engine := Some en'\<rparr>) (ap_domains a)\<rparr>"
    using d en' by (simp add: share_engine_def)
  have "rs_domains (Load (rw_store w')) = AList.update ?dom (d\<lparr>do_Engine := Some en'\<rparr>) (ap_domains a)"
    using E(1) d(1) assms(1) by (simp add: touch_engine_def Load_def service_ok_def)
  moreover have "enforces (d\<lparr>do_Engine := Some en'\<rparr>) snap \<longleftrightarrow> enforces d snap" for snap
    using d(2) E(2) by (simp add: enforces_def)
  ultimately show ?thesis using assms(1) E(3) applier_ok_touch [OF _ d(1)] unfolding a'
    by (simp add: service_ok_def)
qed

lemma applier_ok_fields [simp]:
  "applier_ok content (a\<lparr>ap_events := e\<rparr>) = applier_ok content a" "applier_ok content (a\<lparr>ap_absent := b\<rparr>) = applier_ok content a"
  unfolding applier_ok_def hash_of_def by simp_all

lemma service_run_ok:
  assumes "service_run sha ul content s namespace a w" "\<forall>h. spec_typed (content h)"
  shows "service_ok content namespace a w"
  using assms
proof (induction rule: service_run.induct)
  case (start counters stats)
  then show ?case
    by (simp add: service_ok_def new_applier_ok new_world_def NewStore_def NewRuleSet_def Load_def) (simp add: new_applier_def)
next
  case (applied a w cfg now swapped a' st)
  have "ap_Namespace a' = ap_Namespace a" using Apply_built [OF applied.hyps(3)] by metis
  then show ?case using applied Apply_applier_ok [OF _ applied.hyps(2,3)] Apply_published(1) [OF applied.hyps(3)]
    by (simp add: service_ok_def)
next
  case (refuse a w r a' st)
  then show ?case by (auto simp: service_ok_def Refuse_def store_Refuse_def Load_def Let_def)
next
  case (absent a w b)
  then show ?case by (simp add: service_ok_def SetAbsent_def)
next
  case (check a w req sec res w')
  then show ?case using service_ok_check service_ok_serving by blast
qed


lemma sample_spec_typed: "spec_typed sample_spec"
  by (simp add: sample_spec_def spec_typed_def rate_typed_def in32_def)


end
