(* ===== verification/Config_Read.thy ===== *)
theory Config_Read
  imports Config_Apply
begin

text \<open>
  The reading of the mounted configuration (\<open>api/manifest/manifest.go\<close>, \<open>service/internal/config/read.go\<close>) and
  the watcher that hands readings to the applier (\<open>service/internal/config/watch.go\<close>). The files of the
  mounted directory and the decoders are the parameters of the record \<open>codec\<close>: reading a file, gzip, the
  lenient decoding of the manifest's version, and the strict decoding of a manifest and of a spec, which
  gives the value with the strict errors beside it. SHA-256 is the parameter \<open>sha\<close>.
\<close>

section \<open>The format\<close>

datatype file_result = NotExist | ReadFailed goerror | Bytes string

record codec =
  co_file :: "string \<Rightarrow> file_result"
  co_gzip :: "string \<Rightarrow> goerror option"
  co_inflate :: "string \<Rightarrow> nat \<Rightarrow> string result"
  co_version :: "string \<Rightarrow> int option result"
  co_manifest :: "string \<Rightarrow> ((int \<times> string \<times> manifest_domain gomap option) \<times> string list) result"
  co_spec :: "string \<Rightarrow> (v1_spec \<times> string list) result"

definition ErrMalformed :: string where "ErrMalformed = ''manifest: malformed''"
definition ErrUnsupportedFormat :: string where "ErrUnsupportedFormat = ''manifest: unsupported format version''"
definition ManifestKey :: string where "ManifestKey = ''manifest''"
definition MaxPayloadSize :: nat where "MaxPayloadSize = 8388608"

definition PayloadKey :: "string \<Rightarrow> string" where
  "PayloadKey domain = domain @ ''.json.gz''"

definition supported :: "int \<Rightarrow> bool" where
  "supported version \<longleftrightarrow> version \<in> set SupportedVersions"

definition unmarshalStrict :: "('v \<times> string list) result \<Rightarrow> 'v result" where
  "unmarshalStrict decoded =
     (case decoded of
        Inl err \<Rightarrow> Inl (Errorf ''%w: %v'' [FStr ErrMalformed, FErr err])
      | Inr (v, strict) \<Rightarrow>
          if length strict = 0 then Inr v else Inl (Errorf ''%w: %v'' [FStr ErrMalformed, FStrs (sort strict)]))"

definition Hash :: "(string \<Rightarrow> string) \<Rightarrow> string \<Rightarrow> string" where
  "Hash sha raw = ''sha256:'' @ EncodeToString (sha raw)"

definition Decode :: "codec \<Rightarrow> string \<Rightarrow> manifest result" where
  "Decode co raw =
     (case co_version co raw of
        Inl err \<Rightarrow> Inl (Errorf ''%w: %v'' [FStr ErrMalformed, FErr err])
      | Inr None \<Rightarrow> Inl (Errorf ''%w: formatVersion is absent'' [FStr ErrMalformed])
      | Inr (Some v) \<Rightarrow>
          if \<not> supported v then
            Inl (Errorf ''%w: %d (this reader accepts %v)''
              [FStr ErrUnsupportedFormat, FInt v, FStrs (map FormatInt SupportedVersions)])
          else
            (case unmarshalStrict (co_manifest co raw) of
               Inl err \<Rightarrow> Inl err
             | Inr (version, operatorVersion, None) \<Rightarrow> Inl (Errorf ''%w: domains is absent'' [FStr ErrMalformed])
             | Inr (version, operatorVersion, Some domains) \<Rightarrow>
                 Inr \<lparr>mf_FormatVersion = version, mf_OperatorVersion = operatorVersion, mf_Domains = domains\<rparr>))"

text \<open>A payload: the spec with the hash of its decompressed bytes.\<close>

definition DecodePayload :: "(string \<Rightarrow> string) \<Rightarrow> codec \<Rightarrow> string \<Rightarrow> (v1_spec \<times> string) result" where
  "DecodePayload sha co compressed =
     (case co_gzip co compressed of
        Some err \<Rightarrow> Inl (Errorf ''%w: payload is not gzip: %v'' [FStr ErrMalformed, FErr err])
      | None \<Rightarrow>
          (case co_inflate co compressed (MaxPayloadSize + 1) of
             Inl err \<Rightarrow> Inl (Errorf ''%w: payload does not decompress: %v'' [FStr ErrMalformed, FErr err])
           | Inr raw \<Rightarrow>
               if length raw > MaxPayloadSize then
                 Inl (Errorf ''%w: payload decompresses past %d bytes'' [FStr ErrMalformed, FInt (int MaxPayloadSize)])
               else
                 (case unmarshalStrict (co_spec co raw) of
                    Inl err \<Rightarrow> Inl err
                  | Inr spec \<Rightarrow> Inr (spec, Hash sha raw))))"

section \<open>Reading\<close>

datatype read_error =
    Absent
  | Refused config_refusal string
  | Failed goerror

definition declaredVersion :: "codec \<Rightarrow> string \<Rightarrow> int" where
  "declaredVersion co raw = (case co_version co raw of Inr (Some v) \<Rightarrow> v | _ \<Rightarrow> 0)"

text \<open>The payload of one domain, or why the reading is refused.\<close>

definition read_domain :: "(string \<Rightarrow> string) \<Rightarrow> codec \<Rightarrow> string \<Rightarrow> string \<Rightarrow> v1_spec result" where
  "read_domain sha co domain hash =
     (case co_file co (PayloadKey domain) of
        NotExist \<Rightarrow> Inl (Errorf ''read the payload: %w'' [FStr ''file does not exist''])
      | ReadFailed err \<Rightarrow> Inl (Errorf ''read the payload: %w'' [FErr err])
      | Bytes compressed \<Rightarrow>
          (case DecodePayload sha co compressed of
             Inl err \<Rightarrow> Inl err
           | Inr (spec, h) \<Rightarrow>
               if h \<noteq> hash then Inl (Errorf ''payload hash %s does not match the manifest's %s'' [FStr h, FStr hash])
               else if v1_Domain spec \<noteq> domain then Inl (Errorf ''the payload is for domain %q'' [FStr (v1_Domain spec)])
               else Inr spec))"

fun read_loop :: "(string \<Rightarrow> string) \<Rightarrow> codec \<Rightarrow> manifest \<Rightarrow> string list \<Rightarrow> v1_spec gomap result" where
  "read_loop sha co m [] = Inr []"
| "read_loop sha co m (domain # domains) =
     (let hash = (case map_of (mf_Domains m) domain of Some entry \<Rightarrow> md_Hash entry | None \<Rightarrow> []) in
      case read_domain sha co domain hash of
        Inl err \<Rightarrow> Inl (Errorf ''domain %s: %w'' [FStr domain, FErr err])
      | Inr spec \<Rightarrow>
          (case read_loop sha co m domains of
             Inl err \<Rightarrow> Inl err
           | Inr specs \<Rightarrow> Inr ((domain, spec) # specs)))"

definition Read :: "(string \<Rightarrow> string) \<Rightarrow> codec \<Rightarrow> read_error + configuration" where
  "Read sha co =
     (case co_file co ManifestKey of
        NotExist \<Rightarrow> Inl Absent
      | ReadFailed err \<Rightarrow> Inl (Failed (Errorf ''read the manifest: %w'' [FErr err]))
      | Bytes raw \<Rightarrow>
          (case Decode co raw of
             Inl err \<Rightarrow> Inl (Refused \<lparr>cr_FormatVersion = declaredVersion co raw, cr_Err = err\<rparr> raw)
           | Inr m \<Rightarrow>
               (case read_loop sha co m (sortedDomains m) of
                  Inl err \<Rightarrow> Inl (Refused \<lparr>cr_FormatVersion = mf_FormatVersion m, cr_Err = err\<rparr> raw)
                | Inr specs \<Rightarrow> Inr \<lparr>cf_Manifest = m, cf_Specs = specs, cf_Raw = raw\<rparr>)))"

section \<open>The watcher\<close>

text \<open>A byte slice that may be nil is an optional string; \<open>bytes.Equal\<close> takes nil for an empty slice.\<close>

record watcher =
  wt_applied :: "string option"
  wt_refused :: "string option"
  wt_absent :: bool

definition new_watcher :: watcher where
  "new_watcher = \<lparr>wt_applied = None, wt_refused = None, wt_absent = False\<rparr>"

definition bytes_Equal :: "string option \<Rightarrow> string option \<Rightarrow> bool" where
  "bytes_Equal a b \<longleftrightarrow> (case a of Some x \<Rightarrow> x | None \<Rightarrow> []) = (case b of Some y \<Rightarrow> y | None \<Rightarrow> [])"

definition present :: "watcher \<Rightarrow> applier \<Rightarrow> watcher \<times> applier" where
  "present w a = (w\<lparr>wt_absent := False\<rparr>, if wt_absent w then SetAbsent False a else a)"

definition watcher_read ::
  "(string \<Rightarrow> string) \<Rightarrow> int \<Rightarrow> int \<Rightarrow> read_error + configuration \<Rightarrow> watcher \<Rightarrow> applier \<Rightarrow> rule_store \<Rightarrow>
     (watcher \<times> applier \<times> rule_store) option" where
  "watcher_read sha now swapped reading w a st =
     (case reading of
        Inl Absent \<Rightarrow> Some (if wt_absent w then (w, a, st) else (w\<lparr>wt_absent := True\<rparr>, SetAbsent True a, st))
      | Inl (Failed err) \<Rightarrow> (case present w a of (w1, a1) \<Rightarrow> Some (w1, a1, st))
      | Inl (Refused r raw) \<Rightarrow>
          (case present w a of (w1, a1) \<Rightarrow>
             if bytes_Equal (Some raw) (wt_refused w1) then Some (w1, a1, st)
             else (case Refuse r a1 st of (a2, st2) \<Rightarrow> Some (w1\<lparr>wt_refused := Some raw\<rparr>, a2, st2)))
      | Inr cfg \<Rightarrow>
          (case present w a of (w1, a1) \<Rightarrow>
             if bytes_Equal (Some (cf_Raw cfg)) (wt_applied w1) \<and> wt_refused w1 = None then Some (w1, a1, st)
             else do {
               (a2, st2) \<leftarrow> Apply sha now swapped cfg a1 st;
               Some (w1\<lparr>wt_applied := Some (cf_Raw cfg), wt_refused := None\<rparr>, a2, st2) }))"

section \<open>What a reading is\<close>

text \<open>The payloads behind a codec: one content per hash, the absence of SHA-256 collisions among payloads.\<close>

definition content_of :: "(string \<Rightarrow> string) \<Rightarrow> codec \<Rightarrow> (string \<Rightarrow> v1_spec) \<Rightarrow> bool" where
  "content_of sha co content \<longleftrightarrow> (\<forall>raw spec. co_spec co raw = Inr (spec, []) \<longrightarrow> content (Hash sha raw) = spec)"

lemma unmarshalStrict_Inr: "unmarshalStrict decoded = Inr v \<longleftrightarrow> decoded = Inr (v, [])"
  by (auto simp: unmarshalStrict_def split: sum.splits if_splits)

lemma Hash_not_Nil [simp]: "Hash sha raw \<noteq> []" "[] \<noteq> Hash sha raw"
  by (simp_all add: Hash_def)

lemma read_domain_Inr:
  assumes "read_domain sha co domain hash = Inr spec"
  shows "v1_Domain spec = domain" "\<exists>raw. hash = Hash sha raw \<and> co_spec co raw = Inr (spec, []) \<and> length raw \<le> MaxPayloadSize"
  using assms
  by (auto simp: read_domain_def DecodePayload_def unmarshalStrict_Inr split: file_result.splits sum.splits if_splits option.splits)

lemma read_loop_Inr:
  "read_loop sha co m domains = Inr specs \<Longrightarrow> map fst specs = domains \<and>
     (\<forall>p\<in>set specs. read_domain sha co (fst p)
        (case map_of (mf_Domains m) (fst p) of Some entry \<Rightarrow> md_Hash entry | None \<Rightarrow> []) = Inr (snd p))"
  by (induction domains arbitrary: specs) (auto simp: Let_def split: sum.splits)

lemma Read_Inr:
  assumes "Read sha co = Inr cfg"
  shows "Decode co (cf_Raw cfg) = Inr (cf_Manifest cfg)"
    and "read_loop sha co (cf_Manifest cfg) (sortedDomains (cf_Manifest cfg)) = Inr (cf_Specs cfg)"
  using assms by (auto simp: Read_def split: file_result.splits sum.splits)

text \<open>
  C27. A reading is whole and genuine or it is none. When the reader returns a configuration, the domains
  with a spec are exactly those of the manifest; the spec of a domain names that domain, was decoded
  strictly from a payload within the size bound, and that payload hashes to what the manifest says, so
  with one content per hash the spec is the content of the manifest's hash.
\<close>
theorem read_whole_and_genuine:
  assumes "Read sha co = Inr cfg" "content_of sha co content"
  shows "genuine content cfg \<and> set (gm_keys (cf_Specs cfg)) = set (gm_keys (mf_Domains (cf_Manifest cfg))) \<and>
    (\<forall>domain spec. map_of (cf_Specs cfg) domain = Some spec \<longrightarrow> v1_Domain spec = domain \<and>
       (\<exists>raw entry. map_of (mf_Domains (cf_Manifest cfg)) domain = Some entry \<and> md_Hash entry = Hash sha raw \<and>
          co_spec co raw = Inr (spec, []) \<and> length raw \<le> MaxPayloadSize))"
proof -
  let ?m = "cf_Manifest cfg"
  note L = read_loop_Inr [OF Read_Inr(2) [OF assms(1)]]
  have keys: "set (gm_keys (cf_Specs cfg)) = set (gm_keys (mf_Domains ?m))"
    using L by (simp add: sortedDomains_def)
  have spec: "v1_Domain spec = domain \<and> (\<exists>raw entry. map_of (mf_Domains ?m) domain = Some entry \<and> md_Hash entry = Hash sha raw \<and>
      co_spec co raw = Inr (spec, []) \<and> length raw \<le> MaxPayloadSize)"
    if "map_of (cf_Specs cfg) domain = Some spec" for domain spec
  proof -
    have p: "(domain, spec) \<in> set (cf_Specs cfg)" using that by (rule map_of_SomeD)
    then have "domain \<in> set (gm_keys (mf_Domains ?m))" using keys by force
    then obtain entry where entry: "map_of (mf_Domains ?m) domain = Some entry"
      by (metis map_of_eq_None_iff not_Some_eq set_map)
    then have "read_domain sha co domain (md_Hash entry) = Inr spec" using L p by fastforce
    from read_domain_Inr [OF this] show ?thesis using entry by blast
  qed
  have "md_Hash entry \<noteq> [] \<and> spec_of cfg domain = content (md_Hash entry)"
    if e: "map_of (mf_Domains ?m) domain = Some entry" for domain entry
  proof -
    have "domain \<in> set (gm_keys (cf_Specs cfg))" using keys map_of_SomeD [OF e] by force
    then obtain s where s: "map_of (cf_Specs cfg) domain = Some s" by (metis map_of_eq_None_iff not_Some_eq set_map)
    then show ?thesis using spec [OF s] e assms(2) by (auto simp: content_of_def spec_of_def)
  qed
  then show ?thesis using keys spec by (auto simp: genuine_def)
qed

definition sample_codec :: codec where
  "sample_codec =
     \<lparr>co_file = (\<lambda>name. if name = ManifestKey then Bytes ''m'' else if name = PayloadKey ''gw'' then Bytes ''p'' else NotExist),
      co_gzip = (\<lambda>_. None), co_inflate = (\<lambda>_ _. Inr ''spec''), co_version = (\<lambda>_. Inr (Some 1)),
      co_manifest = (\<lambda>_. Inr ((1, ''v1'',
        Some [(''gw'', \<lparr>md_Generation = 3, md_UID = ''u1'', md_Hash = Hash (\<lambda>_. ''A'') ''spec''\<rparr>)]), [])),
      co_spec = (\<lambda>_. Inr (sample_spec, []))\<rparr>"

theorem read_whole_and_genuine_witness:
  "\<exists>cfg. Read (\<lambda>_. ''A'') sample_codec = Inr cfg \<and> genuine (\<lambda>_. sample_spec) cfg \<and> map_of (cf_Specs cfg) ''gw'' = Some sample_spec"
proof -
  let ?sha = "\<lambda>_. ''A''"
  let ?m = "\<lparr>mf_FormatVersion = 1, mf_OperatorVersion = ''v1'',
      mf_Domains = [(''gw'', \<lparr>md_Generation = 3, md_UID = ''u1'', md_Hash = Hash ?sha ''spec''\<rparr>)]\<rparr>"
  have m: "Decode sample_codec ''m'' = Inr ?m" "co_file sample_codec ManifestKey = Bytes ''m''"
    by (simp_all add: Decode_def sample_codec_def unmarshalStrict_def supported_def SupportedVersions_def FormatVersion_def)
  have "DecodePayload ?sha sample_codec ''p'' = Inr (sample_spec, Hash ?sha ''spec'')" "v1_Domain sample_spec = ''gw''"
    "co_file sample_codec (PayloadKey ''gw'') = Bytes ''p''"
    by (simp_all add: DecodePayload_def sample_codec_def unmarshalStrict_def MaxPayloadSize_def sample_spec_def PayloadKey_def
        ManifestKey_def)
  then have "read_domain ?sha sample_codec ''gw'' (Hash ?sha ''spec'') = Inr sample_spec" by (simp add: read_domain_def)
  then have R: "Read ?sha sample_codec = Inr \<lparr>cf_Manifest = ?m, cf_Specs = [(''gw'', sample_spec)], cf_Raw = ''m''\<rparr>"
    using m by (simp add: Read_def sortedDomains_def)
  have "content_of (\<lambda>_. ''A'') sample_codec (\<lambda>_. sample_spec)" by (simp add: content_of_def sample_codec_def)
  from read_whole_and_genuine [OF R this] R show ?thesis by simp
qed

section \<open>What the watcher reports\<close>

text \<open>The watcher remembers a refusal exactly while the store shows one, and the manifest of the last apply.\<close>

definition watcher_ok :: "codec \<Rightarrow> watcher \<Rightarrow> rule_store \<Rightarrow> bool" where
  "watcher_ok co w st \<longleftrightarrow> (wt_refused w = None \<longleftrightarrow> rs_refusal (Load st) = None) \<and>
     (\<forall>raw. wt_applied w = Some raw \<longrightarrow>
        (\<exists>m. Decode co raw = Inr m \<and> set (set_Domains (Load st)) = set (gm_keys (mf_Domains m))))"

lemma Apply_domains:
  assumes "Apply sha now swapped cfg a st = Some (a', st')"
  shows "set (set_Domains (Load st')) = set (gm_keys (mf_Domains (cf_Manifest cfg)))"
proof (rule Apply_built [OF assms])
  fix built assume "map fst built = sortedDomains (cf_Manifest cfg)" "ap_domains a' = map (\<lambda>(domain, d, _). (domain, d)) built"
  then have "gm_keys (ap_domains a') = sortedDomains (cf_Manifest cfg)" by (simp add: case_prod_beta comp_def)
  then have "set (gm_keys (ap_domains a')) = set (gm_keys (mf_Domains (cf_Manifest cfg)))" by (simp only: sortedDomains_def set_sort)
  then show ?thesis using Apply_published(1) [OF assms] by (simp add: set_Domains_def)
qed


definition empty_refusal :: config_refusal where
  "empty_refusal = \<lparr>cr_FormatVersion = 0, cr_Err = Errorf ''manifest: malformed: unexpected end of JSON input'' []\<rparr>"


end
