(* ===== verification/Records.thy ===== *)
theory Records
  imports Memory_Scan
begin

text \<open>
  The records of mutating commands (\<open>service/internal/records/records.go\<close>) and the in-process store of them
  (\<open>service/internal/records/memory.go\<close>): the binding of an idempotency key, the confirmation tokens and the
  lease of a domain's sweep. A method runs under the store's mutex, so it is one step; \<open>now\<close> is its clock in
  nanoseconds, which stands still during a call, and \<open>us\<close> the clock of the counter store in microseconds.
\<close>

section \<open>Documents\<close>

definition Retention :: int where "Retention = 24 * 3600 * Second"

definition ErrLeaseLost :: goerror where "ErrLeaseLost = Errorf ''records: the sweep lease is no longer held'' []"

record rec_keys =
  rk_Record :: string
  rk_Lease :: string
  rk_Token :: string

record progress =
  pg_Scanned :: int
  pg_Matched :: int
  pg_Reset :: int
  pg_Rules :: "int gomap"
  pg_Keys :: "string list"
  pg_Truncated :: bool

definition no_progress :: progress where
  "no_progress = \<lparr>pg_Scanned = 0, pg_Matched = 0, pg_Reset = 0, pg_Rules = [], pg_Keys = [], pg_Truncated = False\<rparr>"

record cmd_outcome =
  oc_Failed :: bool
  oc_Code :: string
  oc_ErrorID :: string
  oc_Message :: string
  oc_Progress :: progress
  oc_Token :: string
  oc_TokenExpiresAt :: int

definition no_outcome :: cmd_outcome where
  "no_outcome = \<lparr>oc_Failed = False, oc_Code = [], oc_ErrorID = [], oc_Message = [], oc_Progress = no_progress,
     oc_Token = [], oc_TokenExpiresAt = 0\<rparr>"

record cmd_record =
  cd_Found :: bool
  cd_Command :: string
  cd_Terminal :: bool
  cd_Outcome :: cmd_outcome
  cd_Progress :: progress
  cd_Answer :: string
  cd_Fencing :: string
  cd_LeaseHolder :: string
  cd_LeaseTTL :: int

definition no_record :: cmd_record where
  "no_record = \<lparr>cd_Found = False, cd_Command = [], cd_Terminal = False, cd_Outcome = no_outcome, cd_Progress = no_progress,
     cd_Answer = [], cd_Fencing = [], cd_LeaseHolder = [], cd_LeaseTTL = 0\<rparr>"

definition Alive :: "cmd_record \<Rightarrow> bool" where
  "Alive r \<longleftrightarrow> \<not> cd_Terminal r \<and> cd_Fencing r \<noteq> [] \<and> cd_Fencing r = cd_LeaseHolder r"

record acceptance =
  ac_Keys :: rec_keys
  ac_Command :: string
  ac_Fencing :: string
  ac_LeaseTTL :: int

record accepted =
  ad_OK :: bool
  ad_Existing :: cmd_record
  ad_TokenMissing :: bool
  ad_SweepBusy :: bool
  ad_LeaseTTL :: int
  ad_Token :: string

definition not_accepted :: accepted where
  "not_accepted = \<lparr>ad_OK = False, ad_Existing = no_record, ad_TokenMissing = False, ad_SweepBusy = False, ad_LeaseTTL = 0,
     ad_Token = []\<rparr>"

record batch_step =
  ba_Keys :: rec_keys
  ba_Fencing :: string
  ba_Delete :: "string list"
  ba_Progress :: progress

record commit_step =
  co_Keys :: rec_keys
  co_Fencing :: string
  co_Outcome :: cmd_outcome

record finalize_step =
  fi_Keys :: rec_keys
  fi_Outcome :: cmd_outcome

record addressed =
  ar_Record :: string
  ar_Command :: string
  ar_Delete :: "string list"
  ar_DryRun :: bool
  ar_Answer :: string

record addressed_outcome =
  ao_Replayed :: bool
  ao_Command :: string
  ao_Count :: int
  ao_Answer :: string

section \<open>The store\<close>

record rec_entry =
  re_command :: string
  re_fencing :: string
  re_terminal :: bool
  re_progress :: progress
  re_outcome :: cmd_outcome
  re_answer :: string
  re_expiresAt :: int

record lease =
  le_value :: string
  le_expiresAt :: int

record document =
  dm_value :: string
  dm_expiresAt :: int

record records =
  rc_records :: "rec_entry gomap"
  rc_leases :: "lease gomap"
  rc_documents :: "document gomap"
  rc_counters :: mem

definition NewMemory :: "mem \<Rightarrow> records" where
  "NewMemory counters = \<lparr>rc_records = [], rc_leases = [], rc_documents = [], rc_counters = counters\<rparr>"

definition rec_find :: "int \<Rightarrow> records \<Rightarrow> string \<Rightarrow> rec_entry option \<times> records" where
  "rec_find now m key =
     (case map_of (rc_records m) key of
        None \<Rightarrow> (None, m)
      | Some held \<Rightarrow>
          if \<not> now < re_expiresAt held then (None, m\<lparr>rc_records := AList.delete key (rc_records m)\<rparr>)
          else (Some held, m))"

definition lease_find :: "int \<Rightarrow> records \<Rightarrow> string \<Rightarrow> lease option" where
  "lease_find now m key =
     (case map_of (rc_leases m) key of
        None \<Rightarrow> None
      | Some held \<Rightarrow> if \<not> now < le_expiresAt held then None else Some held)"

definition document_find :: "int \<Rightarrow> records \<Rightarrow> string \<Rightarrow> document option" where
  "document_find now m key =
     (case map_of (rc_documents m) key of
        None \<Rightarrow> None
      | Some held \<Rightarrow> if \<not> now < dm_expiresAt held then None else Some held)"

definition owns :: "int \<Rightarrow> records \<Rightarrow> string \<Rightarrow> string \<Rightarrow> bool" where
  "owns now m key fencing \<longleftrightarrow> (case lease_find now m key of None \<Rightarrow> False | Some held \<Rightarrow> le_value held = fencing)"

definition rec_read :: "int \<Rightarrow> records \<Rightarrow> rec_keys \<Rightarrow> cmd_record \<times> records" where
  "rec_read now m keys =
     (case rec_find now m (rk_Record keys) of
        (None, m') \<Rightarrow> (no_record, m')
      | (Some e, m') \<Rightarrow>
          (let out = no_record\<lparr>cd_Found := True, cd_Command := re_command e, cd_Terminal := re_terminal e,
               cd_Outcome := re_outcome e, cd_Progress := re_progress e, cd_Answer := re_answer e, cd_Fencing := re_fencing e\<rparr>
           in case lease_find now m' (rk_Lease keys) of
                None \<Rightarrow> (out, m')
              | Some held \<Rightarrow> (out\<lparr>cd_LeaseHolder := le_value held, cd_LeaseTTL := le_expiresAt held - now\<rparr>, m')))"

definition Lookup :: "int \<Rightarrow> rec_keys \<Rightarrow> records \<Rightarrow> cmd_record \<times> records" where
  "Lookup now keys m = rec_read now m keys"

definition Accept :: "int \<Rightarrow> acceptance \<Rightarrow> records \<Rightarrow> accepted \<times> records" where
  "Accept now a m =
     (let keys = ac_Keys a in
      case rec_find now m (rk_Record keys) of
        (Some _, m1) \<Rightarrow> (case rec_read now m1 keys of (r, m2) \<Rightarrow> (not_accepted\<lparr>ad_Existing := r\<rparr>, m2))
      | (None, m1) \<Rightarrow>
          (case lease_find now m1 (rk_Lease keys) of
             Some held \<Rightarrow> (not_accepted\<lparr>ad_SweepBusy := True, ad_LeaseTTL := le_expiresAt held - now\<rparr>, m1)
           | None \<Rightarrow>
               (let bind = (\<lambda>token m2. (not_accepted\<lparr>ad_OK := True, ad_Token := token\<rparr>,
                  m2\<lparr>rc_records := AList.update (rk_Record keys)
                       \<lparr>re_command = ac_Command a, re_fencing = ac_Fencing a, re_terminal = False, re_progress = no_progress,
                        re_outcome = no_outcome, re_answer = [], re_expiresAt = now + Retention\<rparr> (rc_records m2),
                     rc_leases := AList.update (rk_Lease keys)
                       \<lparr>le_value = ac_Fencing a, le_expiresAt = now + ac_LeaseTTL a\<rparr> (rc_leases m2)\<rparr>))
                in if rk_Token keys = [] then bind [] m1
                   else case document_find now m1 (rk_Token keys) of
                     None \<Rightarrow> (not_accepted\<lparr>ad_TokenMissing := True\<rparr>, m1)
                   | Some held \<Rightarrow>
                       bind (dm_value held) (m1\<lparr>rc_documents := AList.delete (rk_Token keys) (rc_documents m1)\<rparr>))))"

text \<open>The counter store of this process resets without error.\<close>

definition Batch :: "int \<Rightarrow> batch_step \<Rightarrow> records \<Rightarrow> goerror option \<times> records" where
  "Batch now b m =
     (if \<not> owns now m (rk_Lease (ba_Keys b)) (ba_Fencing b) then (Some ErrLeaseLost, m)
      else case rec_find now m (rk_Record (ba_Keys b)) of
        (None, m1) \<Rightarrow> (Some ErrLeaseLost, m1)
      | (Some e, m1) \<Rightarrow>
          (None, m1\<lparr>rc_counters := (if length (ba_Delete b) > 0 then Reset (rc_counters m1) (ba_Delete b) else rc_counters m1),
             rc_records := AList.update (rk_Record (ba_Keys b)) (e\<lparr>re_progress := ba_Progress b\<rparr>) (rc_records m1)\<rparr>))"

definition Commit :: "int \<Rightarrow> commit_step \<Rightarrow> records \<Rightarrow> goerror option \<times> records" where
  "Commit now c m =
     (if \<not> owns now m (rk_Lease (co_Keys c)) (co_Fencing c) then (Some ErrLeaseLost, m)
      else case rec_find now m (rk_Record (co_Keys c)) of
        (None, m1) \<Rightarrow> (Some ErrLeaseLost, m1)
      | (Some e, m1) \<Rightarrow>
          (None, m1\<lparr>rc_records := AList.update (rk_Record (co_Keys c))
               (e\<lparr>re_terminal := True, re_outcome := co_Outcome c, re_progress := oc_Progress (co_Outcome c),
                  re_expiresAt := now + Retention\<rparr>) (rc_records m1),
             rc_leases := AList.delete (rk_Lease (co_Keys c)) (rc_leases m1)\<rparr>))"

definition Finalize :: "int \<Rightarrow> finalize_step \<Rightarrow> records \<Rightarrow> cmd_record \<times> records" where
  "Finalize now f m =
     (case rec_find now m (rk_Record (fi_Keys f)) of
        (None, m1) \<Rightarrow> (no_record, m1)
      | (Some e, m1) \<Rightarrow>
          if re_terminal e then rec_read now m1 (fi_Keys f)
          else if lease_find now m1 (rk_Lease (fi_Keys f)) \<noteq> None then rec_read now m1 (fi_Keys f)
          else rec_read now
            (m1\<lparr>rc_records := AList.update (rk_Record (fi_Keys f))
               (e\<lparr>re_terminal := True, re_outcome := (fi_Outcome f)\<lparr>oc_Progress := re_progress e\<rparr>,
                  re_expiresAt := now + Retention\<rparr>) (rc_records m1)\<rparr>) (fi_Keys f))"

text \<open>The walk of \<open>exists\<close>; \<open>fuel\<close> bounds its steps, and \<open>None\<close> is a walk that is not over.\<close>

fun exists_loop :: "nat \<Rightarrow> int \<Rightarrow> string \<Rightarrow> string \<Rightarrow> mem \<Rightarrow> (bool result \<times> mem) option" where
  "exists_loop 0 us k cursor m = None"
| "exists_loop (Suc fuel) us k cursor m =
     (case Scan m us k cursor 64 of
        (Inl err, m') \<Rightarrow> Some (Inl err, m')
      | (Inr (found, next1), m') \<Rightarrow>
          if k \<in> set found then Some (Inr True, m')
          else if next1 = [] then Some (Inr False, m')
          else exists_loop fuel us k next1 m')"

fun live_loop :: "int \<Rightarrow> string list \<Rightarrow> mem \<Rightarrow> (string list result \<times> mem) option" where
  "live_loop us [] m = Some (Inr [], m)"
| "live_loop us (k # ks) m =
     (case exists_loop (Suc (length m)) us k [] m of
        None \<Rightarrow> None
      | Some (Inl err, m1) \<Rightarrow> Some (Inl err, m1)
      | Some (Inr found, m1) \<Rightarrow>
          (case live_loop us ks m1 of
             None \<Rightarrow> None
           | Some (Inl err, m2) \<Rightarrow> Some (Inl err, m2)
           | Some (Inr out, m2) \<Rightarrow> Some (Inr (if found then k # out else out), m2)))"

definition Addressed_Reset :: "int \<Rightarrow> int \<Rightarrow> addressed \<Rightarrow> records \<Rightarrow> (addressed_outcome result \<times> records) option" where
  "Addressed_Reset now us a m =
     (case rec_find now m (ar_Record a) of
        (Some e, m1) \<Rightarrow>
          Some (Inr \<lparr>ao_Replayed = True, ao_Command = re_command e, ao_Count = pg_Reset (re_progress e), ao_Answer = re_answer e\<rparr>, m1)
      | (None, m1) \<Rightarrow>
          (case live_loop us (ar_Delete a) (rc_counters m1) of
             None \<Rightarrow> None
           | Some (Inl err, c) \<Rightarrow> Some (Inl err, m1\<lparr>rc_counters := c\<rparr>)
           | Some (Inr live, c) \<Rightarrow>
               Some (Inr \<lparr>ao_Replayed = False, ao_Command = ar_Command a, ao_Count = int (length live), ao_Answer = ar_Answer a\<rparr>,
                 m1\<lparr>rc_counters := (if \<not> ar_DryRun a \<and> length live > 0 then Reset c live else c),
                    rc_records := AList.update (ar_Record a)
                      \<lparr>re_command = ar_Command a, re_fencing = [], re_terminal = True,
                       re_progress = no_progress\<lparr>pg_Reset := int (length live)\<rparr>, re_outcome = no_outcome, re_answer = ar_Answer a,
                       re_expiresAt = now + Retention\<rparr> (rc_records m1)\<rparr>)))"

definition Put :: "int \<Rightarrow> string \<Rightarrow> string \<Rightarrow> int \<Rightarrow> records \<Rightarrow> records" where
  "Put now key v ttl m = m\<lparr>rc_documents := AList.update key \<lparr>dm_value = v, dm_expiresAt = now + ttl\<rparr> (rc_documents m)\<rparr>"

definition Get :: "int \<Rightarrow> string \<Rightarrow> records \<Rightarrow> (string \<times> bool)" where
  "Get now key m = (case document_find now m key of None \<Rightarrow> ([], False) | Some held \<Rightarrow> (dm_value held, True))"

section \<open>Which addressed keys are live\<close>

definition key_live :: "int \<Rightarrow> mem \<Rightarrow> string \<Rightarrow> bool" where
  "key_live us c k \<longleftrightarrow> k \<noteq> [] \<and> (case map_of c k of None \<Rightarrow> False | Some e \<Rightarrow> us < e_deadline e)"

abbreviation swept :: "int \<Rightarrow> mem \<Rightarrow> mem" where
  "swept us c \<equiv> filter (\<lambda>(k, e). \<not> e_deadline e \<le> us) c"

lemma key_live_listed: "gm_ok c \<Longrightarrow> k \<in> set (live_keys c us k []) \<longleftrightarrow> key_live us c k"
  by (auto simp: live_keys_iff key_live_def HasPrefix_def split: option.splits)

lemma map_of_swept:
  "gm_ok c \<Longrightarrow> map_of (swept us c) k = (case map_of c k of None \<Rightarrow> None | Some e \<Rightarrow> if us < e_deadline e then Some e else None)"
  by (induction c) (auto simp: gm_ok_def not_le split: option.splits dest: map_of_SomeD intro: rev_image_eqI)

lemma key_live_swept: "gm_ok c \<Longrightarrow> key_live us (swept us c) k = key_live us c k"
  by (auto simp: key_live_def map_of_swept split: option.splits)

text \<open>The walk of \<open>exists\<close> ends within one step more than there are live keys, and finds the key exactly when it is among
  those the walk still has to list.\<close>

lemma exists_loop_exact:
  assumes "gm_ok c" "length (live_keys c us k cursor) < fuel"
  shows "exists_loop fuel us k cursor c = Some (Inr (k \<in> set (live_keys c us k cursor)), swept us c)"
  using assms
proof (induction fuel arbitrary: c cursor)
  case (Suc fuel)
  let ?A = "live_keys c us k cursor"
  show ?case
  proof (cases "int (length ?A) \<le> 64")
    case True
    then show ?thesis using Scan_last_page [of 64 c us k cursor] by auto
  next
    case False
    let ?n = "?A ! 63"
    have page: "Scan c us k cursor 64 = (Inr (take 64 ?A, ?n), swept us c)"
      using Scan_page [of 64 c us k cursor] False by simp
    have next_page: "live_keys (swept us c) us k ?n = drop 64 ?A"
      using live_keys_next_page [OF Suc.prems(1), of 64 us k cursor] False by (simp add: live_keys_swept)
    have "?n \<in> set ?A" using False by (intro nth_mem) auto
    then have n: "?n \<noteq> []" using live_keys_above by fastforce
    have "exists_loop fuel us k ?n (swept us c) = Some (Inr (k \<in> set (drop 64 ?A)), swept us (swept us c))"
      using Suc.IH [of "swept us c" ?n] Suc.prems False next_page by (simp add: gm_ok_filter)
    moreover have "k \<in> set ?A \<longleftrightarrow> k \<in> set (take 64 ?A) \<or> k \<in> set (drop 64 ?A)"
      using set_append [of "take 64 ?A" "drop 64 ?A"] by simp
    ultimately show ?thesis using page n by auto
  qed
qed simp

lemma live_loop_exact:
  assumes "gm_ok c"
  shows "\<exists>c'. live_loop us ks c = Some (Inr (filter (key_live us c) ks), c') \<and> gm_ok c' \<and>
    (ks = [] \<and> c' = c \<or> ks \<noteq> [] \<and> c' = swept us c)"
  using assms
proof (induction ks arbitrary: c)
  case (Cons k ks)
  have "length (live_keys c us k []) < Suc (length c)"
    by (auto simp: live_keys_def less_Suc_eq_le intro: order_trans [OF length_filter_le])
  then have ex: "exists_loop (Suc (length c)) us k [] c = Some (Inr (key_live us c k), swept us c)"
    using exists_loop_exact [OF Cons.prems] key_live_listed [OF Cons.prems] by (simp del: exists_loop.simps)
  have ok: "gm_ok (swept us c)" using Cons.prems by (simp add: gm_ok_filter)
  have same: "filter (key_live us (swept us c)) ks = filter (key_live us c) ks"
    by (intro filter_cong) (simp_all add: key_live_swept [OF Cons.prems])
  obtain c' where "live_loop us ks (swept us c) = Some (Inr (filter (key_live us c) ks), c')" "gm_ok c'"
    "c' = swept us c"
    using Cons.IH [OF ok] same by auto
  then show ?case using ex by (simp del: exists_loop.simps)
qed simp

end
