(* ===== verification/Record_Ledger.thy ===== *)
theory Record_Ledger
  imports Records
begin

text \<open>
  What the store of \<open>service/internal/records\<close> promises its callers. A ledger is the contents of a store at an instant,
  expired entries left out; \<open>ledger_step\<close> says what each call does to it. The locale \<open>command_store\<close> is the contract: a
  store follows the ledger. Its lemmas carry what the management API relies on - a recorded outcome never changes, a key is
  accepted once, one sweep owns a domain - and the in-process store is an interpretation of it.
\<close>

section \<open>The ledger\<close>

record ledger =
  lg_rec :: "string \<Rightarrow> rec_entry option"
  lg_lease :: "string \<Rightarrow> lease option"
  lg_doc :: "string \<Rightarrow> document option"

definition unless_expired :: "int \<Rightarrow> ('a \<Rightarrow> int) \<Rightarrow> 'a option \<Rightarrow> 'a option" where
  "unless_expired now ends x = (case x of None \<Rightarrow> None | Some v \<Rightarrow> if now < ends v then Some v else None)"

lemma unless_expired_simps [simp]:
  "unless_expired now ends None = None"
  "unless_expired now ends (Some v) = (if now < ends v then Some v else None)"
  by (simp_all add: unless_expired_def)

lemma unless_expired_later [simp]:
  "t \<le> t' \<Longrightarrow> unless_expired t' ends (unless_expired t ends x) = unless_expired t' ends x"
  by (cases x) auto

definition aged :: "int \<Rightarrow> ledger \<Rightarrow> ledger" where
  "aged now g = \<lparr>lg_rec = (\<lambda>k. unless_expired now re_expiresAt (lg_rec g k)),
     lg_lease = (\<lambda>k. unless_expired now le_expiresAt (lg_lease g k)),
     lg_doc = (\<lambda>k. unless_expired now dm_expiresAt (lg_doc g k))\<rparr>"

lemma aged_simps [simp]:
  "lg_rec (aged now g) k = unless_expired now re_expiresAt (lg_rec g k)"
  "lg_lease (aged now g) k = unless_expired now le_expiresAt (lg_lease g k)"
  "lg_doc (aged now g) k = unless_expired now dm_expiresAt (lg_doc g k)"
  by (simp_all add: aged_def)

section \<open>Calls\<close>

datatype rec_cmd =
    CLookup rec_keys
  | CAccept acceptance
  | CBatch batch_step
  | CCommit commit_step
  | CFinalize finalize_step
  | CReset addressed
  | CPut string string int
  | CGet string

definition accepts :: "acceptance \<Rightarrow> ledger \<Rightarrow> bool" where
  "accepts a g \<longleftrightarrow> lg_rec g (rk_Record (ac_Keys a)) = None \<and> lg_lease g (rk_Lease (ac_Keys a)) = None \<and>
     (rk_Token (ac_Keys a) = [] \<or> lg_doc g (rk_Token (ac_Keys a)) \<noteq> None)"

definition holds :: "string \<Rightarrow> string \<Rightarrow> ledger \<Rightarrow> bool" where
  "holds L f g \<longleftrightarrow> (\<exists>le. lg_lease g L = Some le \<and> le_value le = f)"

definition fresh_entry :: "int \<Rightarrow> acceptance \<Rightarrow> rec_entry" where
  "fresh_entry now a = \<lparr>re_command = ac_Command a, re_fencing = ac_Fencing a, re_terminal = False, re_progress = no_progress,
     re_outcome = no_outcome, re_answer = [], re_expiresAt = now + Retention\<rparr>"

text \<open>\<open>n\<close> is the number of live keys an addressed reset finds.\<close>

fun ledger_step :: "int \<Rightarrow> nat \<Rightarrow> rec_cmd \<Rightarrow> ledger \<Rightarrow> ledger" where
  "ledger_step now n (CLookup keys) g = g"
| "ledger_step now n (CAccept a) g =
     (if accepts a g
      then g\<lparr>lg_rec := (lg_rec g)(rk_Record (ac_Keys a) \<mapsto> fresh_entry now a),
             lg_lease := (lg_lease g)(rk_Lease (ac_Keys a) \<mapsto> \<lparr>le_value = ac_Fencing a, le_expiresAt = now + ac_LeaseTTL a\<rparr>),
             lg_doc := (if rk_Token (ac_Keys a) = [] then lg_doc g else (lg_doc g)(rk_Token (ac_Keys a) := None))\<rparr>
      else g)"
| "ledger_step now n (CBatch b) g =
     (case lg_rec g (rk_Record (ba_Keys b)) of
        Some e \<Rightarrow> if holds (rk_Lease (ba_Keys b)) (ba_Fencing b) g
                  then g\<lparr>lg_rec := (lg_rec g)(rk_Record (ba_Keys b) \<mapsto> e\<lparr>re_progress := ba_Progress b\<rparr>)\<rparr> else g
      | None \<Rightarrow> g)"
| "ledger_step now n (CCommit c) g =
     (case lg_rec g (rk_Record (co_Keys c)) of
        Some e \<Rightarrow> if holds (rk_Lease (co_Keys c)) (co_Fencing c) g
                  then g\<lparr>lg_rec := (lg_rec g)(rk_Record (co_Keys c) \<mapsto>
                           e\<lparr>re_terminal := True, re_outcome := co_Outcome c, re_progress := oc_Progress (co_Outcome c),
                             re_expiresAt := now + Retention\<rparr>),
                         lg_lease := (lg_lease g)(rk_Lease (co_Keys c) := None)\<rparr> else g
      | None \<Rightarrow> g)"
| "ledger_step now n (CFinalize f) g =
     (case lg_rec g (rk_Record (fi_Keys f)) of
        Some e \<Rightarrow> if \<not> re_terminal e \<and> lg_lease g (rk_Lease (fi_Keys f)) = None
                  then g\<lparr>lg_rec := (lg_rec g)(rk_Record (fi_Keys f) \<mapsto>
                           e\<lparr>re_terminal := True, re_outcome := (fi_Outcome f)\<lparr>oc_Progress := re_progress e\<rparr>,
                             re_expiresAt := now + Retention\<rparr>)\<rparr> else g
      | None \<Rightarrow> g)"
| "ledger_step now n (CReset a) g =
     (if lg_rec g (ar_Record a) = None
      then g\<lparr>lg_rec := (lg_rec g)(ar_Record a \<mapsto>
               \<lparr>re_command = ar_Command a, re_fencing = [], re_terminal = True,
                re_progress = no_progress\<lparr>pg_Reset := int n\<rparr>, re_outcome = no_outcome, re_answer = ar_Answer a,
                re_expiresAt = now + Retention\<rparr>)\<rparr> else g)"
| "ledger_step now n (CPut key v ttl) g =
     g\<lparr>lg_doc := (lg_doc g)(key \<mapsto> \<lparr>dm_value = v, dm_expiresAt = now + ttl\<rparr>)\<rparr>"
| "ledger_step now n (CGet key) g = g"

section \<open>Callers\<close>

text \<open>
  What the management API keeps to: a fencing token belongs to one command (\<open>owner\<close>), a command to one domain
  (\<open>domain_lease\<close> of its record key), and a lease does not outlive the record it protects.
\<close>

fun honest :: "(string \<Rightarrow> string) \<Rightarrow> (string \<Rightarrow> string) \<Rightarrow> rec_cmd \<Rightarrow> bool" where
  "honest owner dl (CAccept a) \<longleftrightarrow> owner (ac_Fencing a) = rk_Record (ac_Keys a) \<and>
     dl (rk_Record (ac_Keys a)) = rk_Lease (ac_Keys a) \<and> ac_LeaseTTL a \<le> Retention"
| "honest owner dl (CBatch b) \<longleftrightarrow> owner (ba_Fencing b) = rk_Record (ba_Keys b) \<and>
     dl (rk_Record (ba_Keys b)) = rk_Lease (ba_Keys b)"
| "honest owner dl (CCommit c) \<longleftrightarrow> owner (co_Fencing c) = rk_Record (co_Keys c) \<and>
     dl (rk_Record (co_Keys c)) = rk_Lease (co_Keys c)"
| "honest owner dl (CFinalize f) \<longleftrightarrow> dl (rk_Record (fi_Keys f)) = rk_Lease (fi_Keys f)"
| "honest owner dl c \<longleftrightarrow> True"

text \<open>A held lease protects the command of its fencing token: the command is on record, without an outcome, and stays on
  record for as long as the lease lives.\<close>

definition protected :: "(string \<Rightarrow> string) \<Rightarrow> (string \<Rightarrow> string) \<Rightarrow> ledger \<Rightarrow> bool" where
  "protected owner dl g \<longleftrightarrow>
     (\<forall>L le. lg_lease g L = Some le \<longrightarrow> dl (owner (le_value le)) = L \<and>
        (\<exists>e. lg_rec g (owner (le_value le)) = Some e \<and> \<not> re_terminal e \<and> re_fencing e = le_value le \<and>
             le_expiresAt le \<le> re_expiresAt e))"

lemma protectedD:
  assumes "protected owner dl g" "lg_lease g L = Some le"
  obtains e where "dl (owner (le_value le)) = L" "lg_rec g (owner (le_value le)) = Some e" "\<not> re_terminal e"
    "re_fencing e = le_value le" "le_expiresAt le \<le> re_expiresAt e"
  using assms unfolding protected_def by blast

lemma protected_aged:
  assumes "protected owner dl g" shows "protected owner dl (aged now g)"
  unfolding protected_def
proof (intro allI impI)
  fix L le assume "lg_lease (aged now g) L = Some le"
  then have l: "lg_lease g L = Some le" "now < le_expiresAt le"
    by (auto simp: unless_expired_def split: option.splits if_splits)
  from protectedD [OF assms l(1)] l(2)
  show "dl (owner (le_value le)) = L \<and> (\<exists>e. lg_rec (aged now g) (owner (le_value le)) = Some e \<and> \<not> re_terminal e \<and>
      re_fencing e = le_value le \<and> le_expiresAt le \<le> re_expiresAt e)"
    by (metis aged_simps(1) order_less_le_trans unless_expired_simps(2))
qed

lemma protected_step:
  assumes "protected owner dl g" "honest owner dl c"
  shows "protected owner dl (ledger_step now n c g)"
proof (cases c)
  case (CAccept a)
  with assms show ?thesis
    by (fastforce simp: protected_def accepts_def fresh_entry_def)
next
  case (CBatch b)
  with assms show ?thesis by (fastforce simp: protected_def holds_def split: option.splits)
next
  case (CCommit x)
  with assms show ?thesis by (fastforce simp: protected_def holds_def split: option.splits)
next
  case (CFinalize f)
  with assms show ?thesis by (fastforce simp: protected_def split: option.splits)
next
  case (CReset a)
  with assms show ?thesis by (fastforce simp: protected_def)
qed (use assms in \<open>auto simp: protected_def\<close>)

lemma holder_open:
  assumes "protected owner dl g" "holds L f g" "lg_rec g (owner f) = Some e"
  shows "\<not> re_terminal e"
proof -
  from assms(2) obtain le where "lg_lease g L = Some le" "le_value le = f" unfolding holds_def by blast
  with assms show ?thesis by (auto elim: protectedD)
qed

section \<open>What a step leaves alone\<close>

lemma step_keeps_outcome:
  assumes "protected owner dl g" "honest owner dl c" "lg_rec g k = Some e" "re_terminal e"
  shows "lg_rec (ledger_step now n c g) k = Some e"
proof (cases c)
  case (CAccept a)
  with assms show ?thesis by (auto simp: accepts_def)
next
  case (CBatch b)
  have "\<not> (holds (rk_Lease (ba_Keys b)) (ba_Fencing b) g \<and> rk_Record (ba_Keys b) = k)"
    using assms(2-4) CBatch holder_open [OF assms(1), of _ "ba_Fencing b" e] by auto
  with assms CBatch show ?thesis by (auto split: option.splits)
next
  case (CCommit x)
  have "\<not> (holds (rk_Lease (co_Keys x)) (co_Fencing x) g \<and> rk_Record (co_Keys x) = k)"
    using assms(2-4) CCommit holder_open [OF assms(1), of _ "co_Fencing x" e] by auto
  with assms CCommit show ?thesis by (auto split: option.splits)
next
  case (CFinalize f)
  with assms show ?thesis by (auto split: option.splits)
next
  case (CReset a)
  with assms show ?thesis by auto
qed (use assms in auto)

text \<open>A bound key stays bound to its command, and its retention only grows.\<close>

lemma step_keeps_binding:
  assumes "lg_rec g k = Some e" "now < re_expiresAt e"  "re_expiresAt e \<le> now + Retention"
  shows "\<exists>e'. lg_rec (ledger_step now n c g) k = Some e' \<and> re_command e' = re_command e \<and>
    re_expiresAt e \<le> re_expiresAt e' \<and> re_expiresAt e' \<le> now + Retention"
proof (cases c)
  case (CAccept a)
  with assms show ?thesis by (cases "rk_Record (ac_Keys a) = k") (auto simp: accepts_def)
next
  case (CBatch b)
  with assms show ?thesis by (cases "rk_Record (ba_Keys b) = k") (auto split: option.split)
next
  case (CCommit x)
  with assms show ?thesis by (cases "rk_Record (co_Keys x) = k") (auto split: option.split)
next
  case (CFinalize f)
  with assms show ?thesis by (cases "rk_Record (fi_Keys f) = k") (auto split: option.split)
next
  case (CReset a)
  with assms show ?thesis by (cases "ar_Record a = k") auto
qed (use assms in auto)

text \<open>A lease that is held is taken away by nobody but the commit of its holder.\<close>

lemma step_keeps_lease:
  assumes "lg_lease g L = Some le" "\<forall>x. c = CCommit x \<longrightarrow> rk_Lease (co_Keys x) = L \<longrightarrow> co_Fencing x \<noteq> le_value le"
  shows "lg_lease (ledger_step now n c g) L = Some le"
  using assms by (cases c) (auto simp: accepts_def holds_def split: option.splits)

section \<open>The contract\<close>

fun run_calls :: "(int \<Rightarrow> int \<Rightarrow> rec_cmd \<Rightarrow> 's \<Rightarrow> 's option) \<Rightarrow> (int \<times> int \<times> rec_cmd) list \<Rightarrow> 's \<Rightarrow> 's option" where
  "run_calls ex [] s = Some s"
| "run_calls ex ((now, us, c) # cs) s = (case ex now us c s of None \<Rightarrow> None | Some s' \<Rightarrow> run_calls ex cs s')"

lemma run_calls_append:
  "run_calls ex (cs @ ds) s = (case run_calls ex cs s of None \<Rightarrow> None | Some s' \<Rightarrow> run_calls ex ds s')"
  by (induction cs arbitrary: s) (auto split: option.splits)

text \<open>Calls of honest callers on a clock that goes from \<open>t\<close> to \<open>t'\<close> and never back.\<close>

fun fair_calls :: "(string \<Rightarrow> string) \<Rightarrow> (string \<Rightarrow> string) \<Rightarrow> int \<Rightarrow> (int \<times> int \<times> rec_cmd) list \<Rightarrow> int \<Rightarrow> bool" where
  "fair_calls owner dl t [] t' \<longleftrightarrow> t \<le> t'"
| "fair_calls owner dl t ((now, us, c) # cs) t' \<longleftrightarrow> t \<le> now \<and> honest owner dl c \<and> fair_calls owner dl now cs t'"

lemma fair_calls_le: "fair_calls owner dl t cs t' \<Longrightarrow> t \<le> t'"
  by (induction cs arbitrary: t) fastforce+

lemma aged_later: "t \<le> t' \<Longrightarrow> aged t' (aged t g) = aged t' g"
  by (simp add: aged_def)

locale command_store =
  fixes view :: "'s \<Rightarrow> ledger"
    and sound :: "'s \<Rightarrow> bool"
    and ex :: "int \<Rightarrow> int \<Rightarrow> rec_cmd \<Rightarrow> 's \<Rightarrow> 's option"
  assumes follows: "sound s \<Longrightarrow> \<exists>s' n. ex now us c s = Some s' \<and> sound s' \<and>
    aged now (view s') = aged now (ledger_step now n c (aged now (view s)))"
begin

text \<open>A step at \<open>now\<close>, seen from a later reading of the ledger.\<close>

lemma step_at:
  assumes "sound s"
  obtains s' n where "ex now us c s = Some s'" "sound s'"
    "\<And>t'. now \<le> t' \<Longrightarrow> aged t' (view s') = aged t' (ledger_step now n c (aged now (view s)))"
  using follows [OF assms, of now us c] aged_later by metis

lemma run_protected:
  assumes "sound s" "protected owner dl (aged t (view s))" "fair_calls owner dl t cs t'"
  shows "\<exists>s'. run_calls ex cs s = Some s' \<and> sound s' \<and> protected owner dl (aged t' (view s'))"
  using assms
proof (induction cs arbitrary: s t)
  case Nil
  then show ?case using protected_aged [of owner dl "aged t (view s)" t'] by (simp add: aged_later)
next
  case (Cons x cs)
  obtain now us c where x: "x = (now, us, c)" by (cases x)
  have t: "t \<le> now" "honest owner dl c" "fair_calls owner dl now cs t'" using Cons.prems(3) x by auto
  obtain s1 n where s1: "ex now us c s = Some s1" "sound s1"
    "aged now (view s1) = aged now (ledger_step now n c (aged now (view s)))"
    using step_at [OF Cons.prems(1)] by (metis order_refl)
  have "protected owner dl (aged now (view s))"
    using protected_aged [OF Cons.prems(2), of now] t(1) by (simp add: aged_later)
  then have "protected owner dl (aged now (view s1))"
    unfolding s1(3) by (rule protected_aged [OF protected_step [OF _ t(2)]])
  from Cons.IH [OF s1(2) this t(3)] show ?case using x s1(1) by simp
qed

text \<open>The steps of a run carry a fact about the ledger from one reading to the next.\<close>

lemma run_invariant:
  assumes "sound s" "protected owner dl (aged t (view s))" "fair_calls owner dl t cs t'" "run_calls ex cs s = Some s'"
    and "P t (aged t (view s))"
    and age: "\<And>a b g. t \<le> a \<Longrightarrow> a \<le> b \<Longrightarrow> b \<le> t' \<Longrightarrow> P a (aged a g) \<Longrightarrow> P b (aged b g)"
    and step: "\<And>now us c n g. (now, us, c) \<in> set cs \<Longrightarrow> t \<le> now \<Longrightarrow> now \<le> t' \<Longrightarrow> honest owner dl c \<Longrightarrow>
      protected owner dl g \<Longrightarrow> P now g \<Longrightarrow> P now (aged now (ledger_step now n c g))"
  shows "P t' (aged t' (view s'))"
  using assms(1-5) age step
proof (induction cs arbitrary: s t)
  case Nil
  then have "s = s'" "t \<le> t'" by simp_all
  with Nil.prems(6) [OF order_refl _ order_refl Nil.prems(5)] show ?case by blast
next
  case (Cons x cs)
  obtain now us c where x: "x = (now, us, c)" by (cases x)
  have t: "t \<le> now" "honest owner dl c" "fair_calls owner dl now cs t'" using Cons.prems(3) x by auto
  have now: "now \<le> t'" using fair_calls_le [OF t(3)] .
  obtain s1 n where s1: "ex now us c s = Some s1" "sound s1"
    "aged now (view s1) = aged now (ledger_step now n c (aged now (view s)))"
    using step_at [OF Cons.prems(1)] by (metis order_refl)
  have p: "protected owner dl (aged now (view s))"
    using protected_aged [OF Cons.prems(2), of now] t(1) by (simp add: aged_later)
  have p1: "protected owner dl (aged now (view s1))"
    unfolding s1(3) by (rule protected_aged [OF protected_step [OF p t(2)]])
  have P0: "P now (aged now (view s))" by (rule Cons.prems(6) [OF order_refl t(1) now Cons.prems(5)])
  have "(now, us, c) \<in> set (x # cs)" using x by simp
  then have P1: "P now (aged now (view s1))"
    unfolding s1(3) by (rule Cons.prems(7) [OF _ t(1) now t(2) p P0])
  have run: "run_calls ex cs s1 = Some s'" using Cons.prems(4) x s1(1) by simp
  show ?case
  proof (rule Cons.IH [OF s1(2) p1 t(3) run P1])
    fix a b g assume "now \<le> a" "a \<le> b" "b \<le> t'" "P a (aged a g)"
    then show "P b (aged b g)" using Cons.prems(6) [of a b g] t(1) by (meson order_trans)
  next
    fix at us c n g
    assume "(at, us, c) \<in> set cs" "now \<le> at" "at \<le> t'" "honest owner dl c" "protected owner dl g" "P at g"
    then show "P at (aged at (ledger_step at n c g))"
      using Cons.prems(7) [of at us c g n] t(1) by (meson list.set_intros(2) order_trans)
  qed
qed

lemma outcome_kept:
  assumes "sound s" "protected owner dl (aged t (view s))" "fair_calls owner dl t cs t'" "run_calls ex cs s = Some s'"
    and "lg_rec (aged t (view s)) k = Some e" "re_terminal e" "t' < re_expiresAt e"
  shows "lg_rec (aged t' (view s')) k = Some e"
proof (rule run_invariant [OF assms(1-4), where P = "\<lambda>_ (g :: ledger). lg_rec g k = Some e"])
  fix a b and g :: ledger assume "b \<le> t'" "lg_rec (aged a g) k = Some e"
  then show "lg_rec (aged b g) k = Some e"
    using assms(7) by (auto simp: unless_expired_def split: option.splits if_splits)
next
  fix now us c n and g :: ledger assume "now \<le> t'" "honest owner dl c" "protected owner dl g" "lg_rec g k = Some e"
  then show "lg_rec (aged now (ledger_step now n c g)) k = Some e"
    using step_keeps_outcome [of owner dl g c k e now n] assms(6,7) by simp
qed (rule assms(5))

lemma binding_kept:
  assumes "sound s" "protected owner dl (aged t (view s))" "fair_calls owner dl t cs t'" "run_calls ex cs s = Some s'"
    and "lg_rec (aged t (view s)) k = Some e" "re_expiresAt e \<le> t + Retention" "t' < re_expiresAt e"
  shows "\<exists>e'. lg_rec (aged t' (view s')) k = Some e' \<and> re_command e' = re_command e \<and> re_expiresAt e \<le> re_expiresAt e'"
proof -
  let ?P = "\<lambda>now (g :: ledger). \<exists>e'. lg_rec g k = Some e' \<and> re_command e' = re_command e \<and> re_expiresAt e \<le> re_expiresAt e' \<and>
    re_expiresAt e' \<le> now + Retention"
  have "?P t' (aged t' (view s'))"
  proof (rule run_invariant [OF assms(1-4), where P = ?P])
    fix a b and g :: ledger assume "a \<le> b" "b \<le> t'" "?P a (aged a g)"
    then show "?P b (aged b g)"
      using assms(7) by (force simp: unless_expired_def split: option.splits if_splits)
  next
    fix now us c n and g :: ledger assume "now \<le> t'" "?P now g"
    then show "?P now (aged now (ledger_step now n c g))"
      using assms(7) step_keeps_binding [of g k _ now n c] by fastforce
  qed (use assms(5,6) in simp)
  then show ?thesis by blast
qed

lemma lease_kept:
  assumes "sound s" "protected owner dl (aged t (view s))" "fair_calls owner dl t cs t'" "run_calls ex cs s = Some s'"
    and "lg_lease (aged t (view s)) L = Some le" "t' < le_expiresAt le"
    and "\<forall>(now, us, c) \<in> set cs. \<forall>x. c = CCommit x \<longrightarrow> co_Fencing x \<noteq> le_value le"
  shows "lg_lease (aged t' (view s')) L = Some le"
proof (rule run_invariant [OF assms(1-4), where P = "\<lambda>_ (g :: ledger). lg_lease g L = Some le"])
  fix a b and g :: ledger assume "b \<le> t'" "lg_lease (aged a g) L = Some le"
  then show "lg_lease (aged b g) L = Some le"
    using assms(6) by (auto simp: unless_expired_def split: option.splits if_splits)
next
  fix now us c n and g :: ledger assume "(now, us, c) \<in> set cs" "now \<le> t'" "lg_lease g L = Some le"
  then show "lg_lease (aged now (ledger_step now n c g)) L = Some le"
    using step_keeps_lease [of g L le c now n] assms(6,7) by auto
qed (rule assms(5))

end

section \<open>The in-process store keeps the contract\<close>

definition ledger_of :: "records \<Rightarrow> ledger" where
  "ledger_of m = \<lparr>lg_rec = map_of (rc_records m), lg_lease = map_of (rc_leases m), lg_doc = map_of (rc_documents m)\<rparr>"

fun rec_exec :: "int \<Rightarrow> int \<Rightarrow> rec_cmd \<Rightarrow> records \<Rightarrow> records option" where
  "rec_exec now us (CLookup keys) m = Some (snd (Lookup now keys m))"
| "rec_exec now us (CAccept a) m = Some (snd (Accept now a m))"
| "rec_exec now us (CBatch b) m = Some (snd (Batch now b m))"
| "rec_exec now us (CCommit c) m = Some (snd (Commit now c m))"
| "rec_exec now us (CFinalize f) m = Some (snd (Finalize now f m))"
| "rec_exec now us (CReset a) m = map_option snd (Addressed_Reset now us a m)"
| "rec_exec now us (CPut key v ttl) m = Some (Put now key v ttl m)"
| "rec_exec now us (CGet key) m = Some m"

definition rec_at :: "int \<Rightarrow> records \<Rightarrow> string \<Rightarrow> rec_entry option" where
  "rec_at now m k = unless_expired now re_expiresAt (map_of (rc_records m) k)"

lemma lease_find_eq: "lease_find now m k = unless_expired now le_expiresAt (map_of (rc_leases m) k)"
  by (simp add: lease_find_def split: option.split)

lemma document_find_eq: "document_find now m k = unless_expired now dm_expiresAt (map_of (rc_documents m) k)"
  by (simp add: document_find_def split: option.split)

lemma lg_of_simps [simp]:
  "lg_rec (aged now (ledger_of m)) = rec_at now m"
  "lg_lease (aged now (ledger_of m)) = lease_find now m"
  "lg_doc (aged now (ledger_of m)) = document_find now m"
  by (simp_all add: fun_eq_iff ledger_of_def rec_at_def lease_find_eq document_find_eq)

text \<open>Reading a record drops it when it is expired, which no later reading can tell.\<close>

lemma rec_find_cases:
  obtains m1 where "rec_find now m k = (rec_at now m k, m1)" "aged now (ledger_of m1) = aged now (ledger_of m)"
    "rc_counters m1 = rc_counters m"
proof (cases "map_of (rc_records m) k")
  case None
  then show ?thesis using that [of m] by (simp add: rec_find_def rec_at_def)
next
  case (Some e)
  show ?thesis
  proof (cases "now < re_expiresAt e")
    case True
    then show ?thesis using that [of m] Some by (simp add: rec_find_def rec_at_def)
  next
    case False
    let ?m = "m\<lparr>rc_records := AList.delete k (rc_records m)\<rparr>"
    have "aged now (ledger_of ?m) = aged now (ledger_of m)"
      using Some False by (simp add: aged_def ledger_of_def delete_conv' fun_eq_iff)
    then show ?thesis using that [of ?m] Some False by (simp add: rec_find_def rec_at_def)
  qed
qed

text \<open>Each call, on what the store shows at its instant.\<close>

lemma rec_read_state: "aged now (ledger_of (snd (rec_read now m keys))) = aged now (ledger_of m)"
  "rc_counters (snd (rec_read now m keys)) = rc_counters m"
  by (rule rec_find_cases [of now m "rk_Record keys"], simp add: rec_read_def Let_def split: option.split)+

lemma rec_read_seen [simp]:
  "rec_at now (snd (rec_read now m keys)) = rec_at now m"
  "lease_find now (snd (rec_read now m keys)) = lease_find now m"
  "document_find now (snd (rec_read now m keys)) = document_find now m"
  using rec_read_state(1) [of now m keys] by (metis lg_of_simps)+

lemma Retention_pos [simp]: "0 < Retention"
  by (simp add: Retention_def Second_def)

lemma aged_eqI:
  assumes "\<And>k. lg_rec (aged now g) k = lg_rec (aged now h) k" "\<And>k. lg_lease (aged now g) k = lg_lease (aged now h) k"
    "\<And>k. lg_doc (aged now g) k = lg_doc (aged now h) k"
  shows "aged now g = aged now h"
  using assms by (auto simp: aged_def fun_eq_iff)

lemma unless_expired_seen [simp]:
  "unless_expired now re_expiresAt (rec_at now m k) = rec_at now m k"
  "unless_expired now le_expiresAt (lease_find now m k) = lease_find now m k"
  "unless_expired now dm_expiresAt (document_find now m k) = document_find now m k"
  by (simp_all add: rec_at_def lease_find_eq document_find_eq)

lemma seen_after_update:
  "unless_expired now re_expiresAt (map_of (rc_records m) k) = rec_at now m k"
  "unless_expired now le_expiresAt (map_of (rc_leases m) k) = lease_find now m k"
  "unless_expired now dm_expiresAt (map_of (rc_documents m) k) = document_find now m k"
  by (simp_all add: rec_at_def lease_find_eq document_find_eq)

lemma seen_record [simp]:
  "rec_at now (m\<lparr>rc_records := R\<rparr>) k = unless_expired now re_expiresAt (map_of R k)"
  "rec_at now (m\<lparr>rc_leases := ls\<rparr>) = rec_at now m"
  "rec_at now (m\<lparr>rc_documents := ds\<rparr>) = rec_at now m"
  "rec_at now (m\<lparr>rc_counters := c\<rparr>) = rec_at now m"
  by (simp_all add: fun_eq_iff rec_at_def)

lemma seen_lease [simp]:
  "lease_find now (m\<lparr>rc_leases := ls\<rparr>) L = unless_expired now le_expiresAt (map_of ls L)"
  "lease_find now (m\<lparr>rc_records := R\<rparr>) = lease_find now m"
  "lease_find now (m\<lparr>rc_documents := ds\<rparr>) = lease_find now m"
  "lease_find now (m\<lparr>rc_counters := c\<rparr>) = lease_find now m"
  by (simp_all add: fun_eq_iff lease_find_eq)

lemma seen_document [simp]:
  "document_find now (m\<lparr>rc_documents := ds\<rparr>) d = unless_expired now dm_expiresAt (map_of ds d)"
  "document_find now (m\<lparr>rc_records := R\<rparr>) = document_find now m"
  "document_find now (m\<lparr>rc_leases := ls\<rparr>) = document_find now m"
  "document_find now (m\<lparr>rc_counters := c\<rparr>) = document_find now m"
  by (simp_all add: fun_eq_iff document_find_eq)

lemmas seen = update_conv' delete_conv' seen_after_update

lemma rec_find_obtain:
  obtains m1 where "rec_find now m k = (rec_at now m k, m1)" "\<And>x. rec_at now m1 x = rec_at now m x"
    "\<And>x. lease_find now m1 x = lease_find now m x" "\<And>x. document_find now m1 x = document_find now m x"
    "aged now (ledger_of m1) = aged now (ledger_of m)" "rc_counters m1 = rc_counters m"
  using rec_find_cases [of now m k] lg_of_simps by metis

lemma Accept_refines:
  "aged now (ledger_of (snd (Accept now a m))) = aged now (ledger_step now n (CAccept a) (aged now (ledger_of m)))"
proof -
  let ?k = "rk_Record (ac_Keys a)" and ?L = "rk_Lease (ac_Keys a)" and ?d = "rk_Token (ac_Keys a)"
  obtain m1 where f: "rec_find now m ?k = (rec_at now m ?k, m1)" and v: "\<And>x. rec_at now m1 x = rec_at now m x"
    "\<And>x. lease_find now m1 x = lease_find now m x" "\<And>x. document_find now m1 x = document_find now m x"
    "aged now (ledger_of m1) = aged now (ledger_of m)"
    by (rule rec_find_obtain [of now m "rk_Record (ac_Keys a)"]) blast
  show ?thesis
  proof (cases "accepts a (aged now (ledger_of m))")
    case False
    then show ?thesis
      using f v rec_read_state(1) [of now m1 "ac_Keys a"]
      by (auto simp: Accept_def accepts_def Let_def aged_later split: option.splits prod.splits)
  next
    case True
    then show ?thesis
      using f v
      by (intro aged_eqI) (auto simp: Accept_def accepts_def fresh_entry_def Let_def seen split: option.splits)
  qed
qed

lemma Batch_refines:
  "aged now (ledger_of (snd (Batch now b m))) = aged now (ledger_step now n (CBatch b) (aged now (ledger_of m)))"
proof -
  obtain m1 where f: "rec_find now m (rk_Record (ba_Keys b)) = (rec_at now m (rk_Record (ba_Keys b)), m1)"
    and v: "\<And>x. rec_at now m1 x = rec_at now m x"
    "\<And>x. lease_find now m1 x = lease_find now m x" "\<And>x. document_find now m1 x = document_find now m x"
    "aged now (ledger_of m1) = aged now (ledger_of m)"
    by (rule rec_find_obtain [of now m "rk_Record (ba_Keys b)"]) blast
  have "owns now m (rk_Lease (ba_Keys b)) (ba_Fencing b) = holds (rk_Lease (ba_Keys b)) (ba_Fencing b) (aged now (ledger_of m))"
    by (simp add: owns_def holds_def split: option.split)
  then show ?thesis
    using f v by (intro aged_eqI) (auto simp: Batch_def Let_def aged_later seen split: option.splits)
qed

lemma Commit_refines:
  "aged now (ledger_of (snd (Commit now c m))) = aged now (ledger_step now n (CCommit c) (aged now (ledger_of m)))"
proof -
  obtain m1 where f: "rec_find now m (rk_Record (co_Keys c)) = (rec_at now m (rk_Record (co_Keys c)), m1)"
    and v: "\<And>x. rec_at now m1 x = rec_at now m x"
    "\<And>x. lease_find now m1 x = lease_find now m x" "\<And>x. document_find now m1 x = document_find now m x"
    "aged now (ledger_of m1) = aged now (ledger_of m)"
    by (rule rec_find_obtain [of now m "rk_Record (co_Keys c)"]) blast
  have "owns now m (rk_Lease (co_Keys c)) (co_Fencing c) = holds (rk_Lease (co_Keys c)) (co_Fencing c) (aged now (ledger_of m))"
    by (simp add: owns_def holds_def split: option.split)
  then show ?thesis
    using f v by (intro aged_eqI) (auto simp: Commit_def Let_def aged_later seen split: option.splits)
qed

lemma Finalize_refines:
  "aged now (ledger_of (snd (Finalize now fi m))) = aged now (ledger_step now n (CFinalize fi) (aged now (ledger_of m)))"
proof -
  obtain m1 where f: "rec_find now m (rk_Record (fi_Keys fi)) = (rec_at now m (rk_Record (fi_Keys fi)), m1)"
    and v: "\<And>x. rec_at now m1 x = rec_at now m x"
    "\<And>x. lease_find now m1 x = lease_find now m x" "\<And>x. document_find now m1 x = document_find now m x"
    "aged now (ledger_of m1) = aged now (ledger_of m)"
    by (rule rec_find_obtain [of now m "rk_Record (fi_Keys fi)"]) blast
  then show ?thesis
    by (intro aged_eqI) (auto simp: Finalize_def Let_def aged_later seen split: option.splits)
qed

lemma Put_refines:
  "aged now (ledger_of (Put now key v ttl m)) = aged now (ledger_step now n (CPut key v ttl) (aged now (ledger_of m)))"
  by (intro aged_eqI) (auto simp: Put_def seen)

text \<open>The whole of an addressed reset: it ends, and answers the record of its key or the number of addressed keys that live.\<close>

lemma Reset_gm_ok: "gm_ok c \<Longrightarrow> gm_ok (Reset c ks)"
  by (induction c ks rule: Reset.induct) simp_all

lemma Addressed_Reset_exact:
  assumes "gm_ok (rc_counters m)"
  obtains r m' where "Addressed_Reset now us a m = Some (Inr r, m')" "gm_ok (rc_counters m')"
    "aged now (ledger_of m') = aged now (ledger_step now (length (filter (key_live us (rc_counters m)) (ar_Delete a))) (CReset a)
       (aged now (ledger_of m)))"
proof -
  let ?live = "filter (key_live us (rc_counters m)) (ar_Delete a)"
  obtain m1 where f: "rec_find now m (ar_Record a) = (rec_at now m (ar_Record a), m1)"
    and v: "\<And>x. rec_at now m1 x = rec_at now m x"
    "\<And>x. lease_find now m1 x = lease_find now m x" "\<And>x. document_find now m1 x = document_find now m x"
    "aged now (ledger_of m1) = aged now (ledger_of m)" "rc_counters m1 = rc_counters m"
    by (rule rec_find_obtain [of now m "ar_Record a"]) blast
  show ?thesis
  proof (cases "rec_at now m (ar_Record a)")
    case (Some e)
    then show ?thesis using f v assms that by (simp add: Addressed_Reset_def aged_later)
  next
    case None
    obtain c where c: "live_loop us (ar_Delete a) (rc_counters m1) = Some (Inr ?live, c)" "gm_ok c"
      using live_loop_exact [OF assms] v(5) by metis
    have ok: "gm_ok (Reset c ks)" for ks using c(2) by (rule Reset_gm_ok)
    show ?thesis
    proof (rule that)
      show "Addressed_Reset now us a m = Some (Inr
        \<lparr>ao_Replayed = False, ao_Command = ar_Command a, ao_Count = int (length ?live), ao_Answer = ar_Answer a\<rparr>,
        m1\<lparr>rc_counters := (if \<not> ar_DryRun a \<and> length ?live > 0 then Reset c ?live else c),
           rc_records := AList.update (ar_Record a)
             \<lparr>re_command = ar_Command a, re_fencing = [], re_terminal = True,
              re_progress = no_progress\<lparr>pg_Reset := int (length ?live)\<rparr>, re_outcome = no_outcome, re_answer = ar_Answer a,
              re_expiresAt = now + Retention\<rparr> (rc_records m1)\<rparr>)"
        using None f c(1) by (simp add: Addressed_Reset_def del: update.simps)
    qed (use ok c(2) None v in \<open>auto intro!: aged_eqI simp: seen\<close>)
  qed
qed

lemma Batch_counters_ok: "gm_ok (rc_counters m) \<Longrightarrow> gm_ok (rc_counters (snd (Batch now b m)))"
  by (rule rec_find_cases [of now m "rk_Record (ba_Keys b)"]) (simp add: Batch_def Reset_gm_ok split: option.split)

lemma other_counters_ok:
  "rc_counters (snd (Lookup now keys m)) = rc_counters m"
  "rc_counters (snd (Accept now a m)) = rc_counters m"
  "rc_counters (snd (Commit now c m)) = rc_counters m"
  "rc_counters (snd (Finalize now fi m)) = rc_counters m"
  "rc_counters (Put now key v ttl m) = rc_counters m"
proof -
  show "rc_counters (snd (Lookup now keys m)) = rc_counters m" by (simp add: Lookup_def rec_read_state)
  show "rc_counters (snd (Accept now a m)) = rc_counters m"
    by (rule rec_find_cases [of now m "rk_Record (ac_Keys a)"])
       (simp add: Accept_def Let_def case_prod_beta rec_read_state(2) split: option.split)
  show "rc_counters (snd (Commit now c m)) = rc_counters m"
    by (rule rec_find_cases [of now m "rk_Record (co_Keys c)"]) (simp add: Commit_def split: option.split)
  show "rc_counters (snd (Finalize now fi m)) = rc_counters m"
    by (rule rec_find_cases [of now m "rk_Record (fi_Keys fi)"])
       (simp add: Finalize_def rec_read_state(2) split: option.split)
qed (simp add: Put_def)

interpretation kept: command_store ledger_of "\<lambda>m. gm_ok (rc_counters m)" rec_exec
proof
  fix m :: records and now us c
  assume ok: "gm_ok (rc_counters m)"
  show "\<exists>m' n. rec_exec now us c m = Some m' \<and> gm_ok (rc_counters m') \<and>
    aged now (ledger_of m') = aged now (ledger_step now n c (aged now (ledger_of m)))"
  proof (cases c)
    case (CReset a)
    with Addressed_Reset_exact [OF ok, of now us a] show ?thesis
      by (metis map_option_eq_Some rec_exec.simps(6) snd_conv)
  qed (use ok Batch_counters_ok in \<open>auto simp: other_counters_ok Accept_refines Batch_refines Commit_refines Finalize_refines
         Put_refines Lookup_def rec_read_state aged_later simp del: ledger_step.simps(2-7)\<close>)
qed

lemma protected_start: "protected owner dl (aged t (ledger_of (NewMemory c)))"
  by (simp add: protected_def NewMemory_def lease_find_def)

text \<open>The state a history of honest calls leaves.\<close>

lemma history_protected:
  assumes "gm_ok c" "fair_calls owner dl t0 cs t" "run_calls rec_exec cs (NewMemory c) = Some m"
  shows "gm_ok (rc_counters m)" "protected owner dl (aged t (ledger_of m))"
  using kept.run_protected [OF _ protected_start assms(2), of c] assms(1,3) by (auto simp: NewMemory_def)

section \<open>What the answers show\<close>

lemma Lookup_answer:
  "fst (rec_read now m keys) =
     (case rec_at now m (rk_Record keys) of
        None \<Rightarrow> no_record
      | Some e \<Rightarrow> no_record\<lparr>cd_Found := True, cd_Command := re_command e, cd_Terminal := re_terminal e,
           cd_Outcome := re_outcome e, cd_Progress := re_progress e, cd_Answer := re_answer e, cd_Fencing := re_fencing e,
           cd_LeaseHolder := (case lease_find now m (rk_Lease keys) of None \<Rightarrow> [] | Some le \<Rightarrow> le_value le),
           cd_LeaseTTL := (case lease_find now m (rk_Lease keys) of None \<Rightarrow> 0 | Some le \<Rightarrow> le_expiresAt le - now)\<rparr>)"
  by (rule rec_find_obtain [of now m "rk_Record keys"])
     (simp add: rec_read_def Let_def no_record_def split: option.split)

lemma Accept_answer:
  "ad_OK (fst (Accept now a m)) \<longleftrightarrow> accepts a (aged now (ledger_of m))"
  "rec_at now m (rk_Record (ac_Keys a)) \<noteq> None \<Longrightarrow>
     ad_Existing (fst (Accept now a m)) = fst (rec_read now m (ac_Keys a))"
  by (rule rec_find_obtain [of now m "rk_Record (ac_Keys a)"];
      auto simp: Accept_def accepts_def Let_def case_prod_beta not_accepted_def Lookup_answer split: option.split)+

lemma Finalize_answer:
  "rec_at now m (rk_Record (fi_Keys fi)) = Some e \<Longrightarrow> re_terminal e \<Longrightarrow>
     fst (Finalize now fi m) = fst (rec_read now m (fi_Keys fi))"
  by (rule rec_find_obtain [of now m "rk_Record (fi_Keys fi)"]) (simp add: Finalize_def Lookup_answer)

lemma Commit_done:
  assumes "Commit now c m = (None, m')"
  obtains e where "rec_at now m' (rk_Record (co_Keys c)) = Some e" "re_terminal e" "re_outcome e = co_Outcome c"
    "re_progress e = oc_Progress (co_Outcome c)" "re_expiresAt e = now + Retention"
  using assms
  by (rule_tac rec_find_obtain [of now m "rk_Record (co_Keys c)"])
     (auto simp: Commit_def seen split: if_splits option.splits)

lemma Batch_owned:
  assumes "lease_find now m (rk_Lease (ba_Keys b)) = Some le"
  shows "le_value le \<noteq> ba_Fencing b \<Longrightarrow> Batch now b m = (Some ErrLeaseLost, m)"
    "le_value le = ba_Fencing b \<Longrightarrow> rec_at now m (rk_Record (ba_Keys b)) \<noteq> None \<Longrightarrow> fst (Batch now b m) = None"
  using assms
  by (rule_tac [!] rec_find_obtain [of now m "rk_Record (ba_Keys b)"]) (auto simp: Batch_def owns_def)

lemma Accept_done:
  assumes "accepts a (aged now (ledger_of m))"
  shows "rec_at now (snd (Accept now a m)) (rk_Record (ac_Keys a)) = Some (fresh_entry now a)"
    "0 < ac_LeaseTTL a \<Longrightarrow> lease_find now (snd (Accept now a m)) (rk_Lease (ac_Keys a)) =
       Some \<lparr>le_value = ac_Fencing a, le_expiresAt = now + ac_LeaseTTL a\<rparr>"
proof -
  have "lg_rec (aged now (ledger_of (snd (Accept now a m)))) (rk_Record (ac_Keys a)) = Some (fresh_entry now a)"
    unfolding Accept_refines [of now a m 0] using assms by (simp add: fresh_entry_def)
  then show "rec_at now (snd (Accept now a m)) (rk_Record (ac_Keys a)) = Some (fresh_entry now a)" by simp
  assume "0 < ac_LeaseTTL a"
  then have "lg_lease (aged now (ledger_of (snd (Accept now a m)))) (rk_Lease (ac_Keys a)) =
      Some \<lparr>le_value = ac_Fencing a, le_expiresAt = now + ac_LeaseTTL a\<rparr>"
    unfolding Accept_refines [of now a m 0] using assms by simp
  then show "lease_find now (snd (Accept now a m)) (rk_Lease (ac_Keys a)) =
      Some \<lparr>le_value = ac_Fencing a, le_expiresAt = now + ac_LeaseTTL a\<rparr>" by simp
qed

text \<open>The state one more honest call leaves.\<close>

lemma call_protected:
  assumes "gm_ok (rc_counters m)" "protected owner dl (aged t (ledger_of m))" "honest owner dl c" "rec_exec t us c m = Some m'"
  shows "gm_ok (rc_counters m')" "protected owner dl (aged t (ledger_of m'))"
  using kept.run_protected [of m owner dl t "[(t, us, c)]" t] assms by auto

lemma Addressed_Reset_replays:
  assumes "rec_at now m (ar_Record a) = Some e"
  obtains m' where "Addressed_Reset now us a m = Some (Inr \<lparr>ao_Replayed = True, ao_Command = re_command e,
      ao_Count = pg_Reset (re_progress e), ao_Answer = re_answer e\<rparr>, m')"
    "rc_counters m' = rc_counters m"
  using assms by (rule_tac rec_find_cases [of now m "ar_Record a"]) (auto simp: Addressed_Reset_def)

section \<open>A command runs once\<close>

text \<open>C9. Once a sweep's commit went through, its outcome is final: after any further calls of honest callers, in any order and
  until the retention has passed, a lookup finds the record terminal with this very outcome, an acceptance of the same key is
  refused with it, and a finalizing retry answers it too.\<close>

theorem committed_outcome_replayed:
  assumes "gm_ok c" "fair_calls owner dl t0 before t" "run_calls rec_exec before (NewMemory c) = Some m1"
    and "honest owner dl (CCommit x)" "Commit t x m1 = (None, m2)"
    and "fair_calls owner dl t after t'" "t' < t + Retention"
  shows "\<exists>m3. run_calls rec_exec after m2 = Some m3 \<and>
    (\<forall>keys. rk_Record keys = rk_Record (co_Keys x) \<longrightarrow>
       (let r = fst (Lookup t' keys m3)
        in cd_Found r \<and> cd_Terminal r \<and> \<not> Alive r \<and> cd_Outcome r = co_Outcome x \<and> cd_Progress r = oc_Progress (co_Outcome x) \<and>
           (\<forall>a. ac_Keys a = keys \<longrightarrow> \<not> ad_OK (fst (Accept t' a m3)) \<and> ad_Existing (fst (Accept t' a m3)) = r) \<and>
           (\<forall>fi. fi_Keys fi = keys \<longrightarrow> fst (Finalize t' fi m3) = r)))"
proof -
  note h = history_protected [OF assms(1-3)]
  have m2: "gm_ok (rc_counters m2)" "protected owner dl (aged t (ledger_of m2))"
    using call_protected [OF h assms(4), of 0 m2] assms(5) by simp_all
  obtain e where e: "rec_at t m2 (rk_Record (co_Keys x)) = Some e" "re_terminal e" "re_outcome e = co_Outcome x"
    "re_progress e = oc_Progress (co_Outcome x)" "re_expiresAt e = t + Retention"
    by (rule Commit_done [OF assms(5)])
  obtain m3 where m3: "run_calls rec_exec after m2 = Some m3"
    using kept.run_protected [OF m2 assms(6)] by blast
  have e3: "rec_at t' m3 (rk_Record (co_Keys x)) = Some e"
    using kept.outcome_kept [OF m2 assms(6) m3, of "rk_Record (co_Keys x)" e] e assms(7) by simp
  then show ?thesis
    using m3 e by (auto simp: Let_def Lookup_def Lookup_answer Alive_def no_record_def Accept_answer accepts_def Finalize_answer)
qed

text \<open>C11. A key is accepted once: after an acceptance and any further calls of honest callers, until the retention has passed,
  no acceptance of the same key succeeds - each is answered from the record, which names the accepted command - and an addressed
  reset under the key deletes nothing and answers a replay of that command.\<close>

theorem accepted_key_runs_once:
  assumes "gm_ok c" "fair_calls owner dl t0 before t" "run_calls rec_exec before (NewMemory c) = Some m1"
    and "honest owner dl (CAccept a)" "Accept t a m1 = (r, m2)" "ad_OK r"
    and "fair_calls owner dl t after t'" "t' < t + Retention" "run_calls rec_exec after m2 = Some m3"
  shows "(\<forall>a'. rk_Record (ac_Keys a') = rk_Record (ac_Keys a) \<longrightarrow>
        \<not> ad_OK (fst (Accept t' a' m3)) \<and> cd_Found (ad_Existing (fst (Accept t' a' m3))) \<and>
        cd_Command (ad_Existing (fst (Accept t' a' m3))) = ac_Command a) \<and>
     (\<forall>us d. ar_Record d = rk_Record (ac_Keys a) \<longrightarrow>
        (\<exists>out m4. Addressed_Reset t' us d m3 = Some (Inr out, m4) \<and> ao_Replayed out \<and> ao_Command out = ac_Command a \<and>
           rc_counters m4 = rc_counters m3))"
proof -
  note h = history_protected [OF assms(1-3)]
  have m2: "gm_ok (rc_counters m2)" "protected owner dl (aged t (ledger_of m2))"
    using call_protected [OF h assms(4), of 0 m2] assms(5) by simp_all
  have "accepts a (aged t (ledger_of m1))" using assms(5,6) Accept_answer(1) [of t a m1] by simp
  from Accept_done(1) [OF this] assms(5) have "rec_at t m2 (rk_Record (ac_Keys a)) = Some (fresh_entry t a)" by simp
  then obtain e where e: "rec_at t' m3 (rk_Record (ac_Keys a)) = Some e" "re_command e = ac_Command a"
    using kept.binding_kept [OF m2 assms(7,9), of "rk_Record (ac_Keys a)" "fresh_entry t a"] assms(8)
    by (auto simp: fresh_entry_def)
  have "\<exists>out m4. Addressed_Reset t' us d m3 = Some (Inr out, m4) \<and> ao_Replayed out \<and> ao_Command out = ac_Command a \<and>
      rc_counters m4 = rc_counters m3" if "ar_Record d = rk_Record (ac_Keys a)" for us d
    using Addressed_Reset_replays [of t' m3 d e us] e that by (metis addressed_outcome.simps(1,2))
  with e show ?thesis by (simp add: Accept_answer accepts_def Lookup_answer)
qed

text \<open>C10. One sweep owns a domain: while the lease an acceptance claimed has not run out and its holder has not committed, no
  call of any other sweep gets through. An acceptance on the same lease is refused, a batch or a commit under another fencing
  token answers \<open>ErrLeaseLost\<close> and leaves the records and the counters as they were, and the holder's own batches go through.\<close>

theorem one_sweep_per_domain:
  assumes "gm_ok c" "fair_calls owner dl t0 before t" "run_calls rec_exec before (NewMemory c) = Some m1"
    and "honest owner dl (CAccept a)" "Accept t a m1 = (r, m2)" "ad_OK r"
    and "fair_calls owner dl t after t'" "t' < t + ac_LeaseTTL a" "run_calls rec_exec after m2 = Some m3"
    and "\<forall>(now, us, cmd) \<in> set after. \<forall>x. cmd = CCommit x \<longrightarrow> co_Fencing x \<noteq> ac_Fencing a"
  shows "(\<forall>a'. rk_Lease (ac_Keys a') = rk_Lease (ac_Keys a) \<longrightarrow> \<not> ad_OK (fst (Accept t' a' m3))) \<and>
     (\<forall>b. rk_Lease (ba_Keys b) = rk_Lease (ac_Keys a) \<longrightarrow> ba_Fencing b \<noteq> ac_Fencing a \<longrightarrow>
        Batch t' b m3 = (Some ErrLeaseLost, m3)) \<and>
     (\<forall>x. rk_Lease (co_Keys x) = rk_Lease (ac_Keys a) \<longrightarrow> co_Fencing x \<noteq> ac_Fencing a \<longrightarrow>
        Commit t' x m3 = (Some ErrLeaseLost, m3)) \<and>
     (\<forall>b. ba_Keys b = ac_Keys a \<longrightarrow> ba_Fencing b = ac_Fencing a \<longrightarrow> fst (Batch t' b m3) = None)"
proof -
  note h = history_protected [OF assms(1-3)]
  have m2: "gm_ok (rc_counters m2)" "protected owner dl (aged t (ledger_of m2))"
    using call_protected [OF h assms(4), of 0 m2] assms(5) by simp_all
  let ?le = "\<lparr>le_value = ac_Fencing a, le_expiresAt = t + ac_LeaseTTL a\<rparr>"
  have "accepts a (aged t (ledger_of m1))" using assms(5,6) Accept_answer(1) [of t a m1] by simp
  moreover have "0 < ac_LeaseTTL a" using assms(8) fair_calls_le [OF assms(7)] by simp
  ultimately have "lease_find t m2 (rk_Lease (ac_Keys a)) = Some ?le" using Accept_done(2) assms(5) by (metis snd_conv)
  then have L: "lease_find t' m3 (rk_Lease (ac_Keys a)) = Some ?le"
    using kept.lease_kept [OF m2 assms(7,9), of "rk_Lease (ac_Keys a)" ?le] assms(8,10) by simp
  have "protected owner dl (aged t' (ledger_of m3))"
    using kept.run_protected [OF m2 assms(7)] assms(9) by auto
  then have "rec_at t' m3 (rk_Record (ac_Keys a)) \<noteq> None"
    using protectedD [of owner dl "aged t' (ledger_of m3)" "rk_Lease (ac_Keys a)" ?le] L assms(4) by auto
  with L show ?thesis
    by (auto simp: Accept_answer accepts_def Batch_owned [where le = ?le] Commit_def owns_def)
qed

section \<open>The addressed reset\<close>

lemma map_of_Reset: "map_of (Reset c ks) k = (if k \<in> set ks then None else map_of c k)"
  by (induction c ks rule: Reset.induct) (auto simp: delete_conv')

lemma key_live_later: "gm_ok c \<Longrightarrow> us \<le> us' \<Longrightarrow> key_live us' (swept us c) k = key_live us' c k"
  by (auto simp: key_live_def map_of_swept split: option.splits)

lemma key_live_earlier: "us \<le> us' \<Longrightarrow> key_live us' c k \<Longrightarrow> key_live us c k"
  by (auto simp: key_live_def split: option.splits)

lemma Addressed_Reset_fresh:
  assumes "gm_ok (rc_counters m)" "rec_at now m (ar_Record a) = None"
  obtains m' where "Addressed_Reset now us a m = Some (Inr \<lparr>ao_Replayed = False, ao_Command = ar_Command a,
      ao_Count = int (length (filter (key_live us (rc_counters m)) (ar_Delete a))), ao_Answer = ar_Answer a\<rparr>, m')"
    "\<And>us' k. us \<le> us' \<Longrightarrow> key_live us' (rc_counters m') k \<longleftrightarrow>
       key_live us' (rc_counters m) k \<and> (ar_DryRun a \<or> k \<notin> set (ar_Delete a))"
    "\<And>k. rec_at now m' k = (if k = ar_Record a then Some \<lparr>re_command = ar_Command a, re_fencing = [], re_terminal = True,
        re_progress = no_progress\<lparr>pg_Reset := int (length (filter (key_live us (rc_counters m)) (ar_Delete a)))\<rparr>,
        re_outcome = no_outcome, re_answer = ar_Answer a, re_expiresAt = now + Retention\<rparr> else rec_at now m k)"
proof -
  let ?live = "filter (key_live us (rc_counters m)) (ar_Delete a)"
  let ?e = "\<lparr>re_command = ar_Command a, re_fencing = [], re_terminal = True,
    re_progress = no_progress\<lparr>pg_Reset := int (length ?live)\<rparr>, re_outcome = no_outcome, re_answer = ar_Answer a,
    re_expiresAt = now + Retention\<rparr>"
  obtain m1 where f: "rec_find now m (ar_Record a) = (rec_at now m (ar_Record a), m1)"
    and v: "\<And>x. rec_at now m1 x = rec_at now m x" "rc_counters m1 = rc_counters m"
    by (rule rec_find_obtain [of now m "ar_Record a"]) blast
  obtain c where c: "live_loop us (ar_Delete a) (rc_counters m1) = Some (Inr ?live, c)"
    "c = rc_counters m \<or> c = swept us (rc_counters m)"
    using live_loop_exact [OF assms(1), of us "ar_Delete a"] v(2) by auto
  have live: "key_live us' c k = key_live us' (rc_counters m) k" if "us \<le> us'" for us' k
    using c(2) key_live_later [OF assms(1) that] by auto
  show ?thesis
  proof (rule that)
    show "Addressed_Reset now us a m = Some (Inr \<lparr>ao_Replayed = False, ao_Command = ar_Command a,
        ao_Count = int (length ?live), ao_Answer = ar_Answer a\<rparr>,
      m1\<lparr>rc_counters := (if \<not> ar_DryRun a \<and> length ?live > 0 then Reset c ?live else c),
         rc_records := AList.update (ar_Record a) ?e (rc_records m1)\<rparr>)"
      using assms(2) f c(1) by (simp add: Addressed_Reset_def del: update.simps)
    fix us' k assume us: "us \<le> us'"
    have "key_live us' (Reset c ?live) k \<longleftrightarrow> key_live us' (rc_counters m) k \<and> k \<notin> set (ar_Delete a)"
      using live [OF us, of k] key_live_earlier [OF us, of "rc_counters m" k]
      by (auto simp: key_live_def map_of_Reset split: option.splits)
    moreover have "k \<notin> set (ar_Delete a)" if "?live = []" "key_live us' (rc_counters m) k"
      using that key_live_earlier [OF us] by (auto simp: filter_empty_conv)
    ultimately show "key_live us' (rc_counters (m1\<lparr>rc_counters := (if \<not> ar_DryRun a \<and> length ?live > 0 then Reset c ?live else c),
         rc_records := AList.update (ar_Record a) ?e (rc_records m1)\<rparr>)) k \<longleftrightarrow>
       key_live us' (rc_counters m) k \<and> (ar_DryRun a \<or> k \<notin> set (ar_Delete a))"
      using live [OF us, of k] by auto
  qed (use v in \<open>simp add: seen\<close>)
qed

text \<open>C12. An addressed reset under an unbound key ends and is exact: it counts the addressed keys that live, a preview deletes
  nothing, an execution deletes those keys and no other, and a retry until the retention has passed - whatever it addresses -
  replays the command, the count and the answer of the first call without touching the counters.\<close>

theorem addressed_reset_exact:
  assumes "gm_ok (rc_counters m)" "rec_at now m (ar_Record a) = None"
  shows "\<exists>out m'. Addressed_Reset now us a m = Some (Inr out, m') \<and>
    \<not> ao_Replayed out \<and> ao_Count out = int (length (filter (key_live us (rc_counters m)) (ar_Delete a))) \<and>
    (\<forall>us' k. us \<le> us' \<longrightarrow> (key_live us' (rc_counters m') k \<longleftrightarrow>
       key_live us' (rc_counters m) k \<and> (ar_DryRun a \<or> k \<notin> set (ar_Delete a)))) \<and>
    (\<forall>now' us' d. now \<le> now' \<longrightarrow> now' < now + Retention \<longrightarrow> ar_Record d = ar_Record a \<longrightarrow>
       (\<exists>m''. Addressed_Reset now' us' d m' = Some (Inr (out\<lparr>ao_Replayed := True\<rparr>), m'') \<and> rc_counters m'' = rc_counters m'))"
proof -
  let ?n = "int (length (filter (key_live us (rc_counters m)) (ar_Delete a)))"
  let ?e = "\<lparr>re_command = ar_Command a, re_fencing = [], re_terminal = True, re_progress = no_progress\<lparr>pg_Reset := ?n\<rparr>,
    re_outcome = no_outcome, re_answer = ar_Answer a, re_expiresAt = now + Retention\<rparr>"
  obtain m' where m': "Addressed_Reset now us a m = Some (Inr \<lparr>ao_Replayed = False, ao_Command = ar_Command a,
      ao_Count = ?n, ao_Answer = ar_Answer a\<rparr>, m')"
    "\<And>us' k. us \<le> us' \<Longrightarrow> key_live us' (rc_counters m') k \<longleftrightarrow>
       key_live us' (rc_counters m) k \<and> (ar_DryRun a \<or> k \<notin> set (ar_Delete a))"
    "rec_at now m' (ar_Record a) = Some ?e"
    by (rule Addressed_Reset_fresh [OF assms, of us]) auto
  have "\<exists>m''. Addressed_Reset now' us' d m' = Some (Inr \<lparr>ao_Replayed = True, ao_Command = ar_Command a,
      ao_Count = ?n, ao_Answer = ar_Answer a\<rparr>, m'') \<and> rc_counters m'' = rc_counters m'"
    if "now \<le> now'" "now' < now + Retention" "ar_Record d = ar_Record a" for now' us' d
  proof -
    have "rec_at now' m' (ar_Record a) = unless_expired now' re_expiresAt (rec_at now m' (ar_Record a))"
      using that(1) by (simp add: rec_at_def)
    then have "rec_at now' m' (ar_Record d) = Some ?e" using m'(3) that(2,3) by simp
    from Addressed_Reset_replays [OF this, of us'] show ?thesis by simp metis
  qed
  with m'(1,2) show ?thesis by simp
qed

section \<open>A sample sweep\<close>

definition sweep_keys :: rec_keys where
  "sweep_keys = \<lparr>rk_Record = ''rec'', rk_Lease = ''lease'', rk_Token = []\<rparr>"

definition sweep_accept :: acceptance where
  "sweep_accept = \<lparr>ac_Keys = sweep_keys, ac_Command = ''sweep'', ac_Fencing = ''f1'', ac_LeaseTTL = 60 * Second\<rparr>"

definition sweep_commit :: commit_step where
  "sweep_commit = \<lparr>co_Keys = sweep_keys, co_Fencing = ''f1'', co_Outcome = no_outcome\<lparr>oc_Code := ''done''\<rparr>\<rparr>"

definition sweep_retry :: finalize_step where
  "sweep_retry = \<lparr>fi_Keys = sweep_keys, fi_Outcome = no_outcome\<lparr>oc_Failed := True\<rparr>\<rparr>"

definition sweep_rival :: batch_step where
  "sweep_rival = \<lparr>ba_Keys = sweep_keys, ba_Fencing = ''f2'', ba_Delete = [''rl:k''], ba_Progress = no_progress\<rparr>"

lemmas sweep_sample = sweep_keys_def sweep_accept_def sweep_commit_def sweep_retry_def sweep_rival_def

definition sweep_running :: records where
  "sweep_running = snd (Accept 5 sweep_accept (NewMemory []))"

definition sweep_done :: records where
  "sweep_done = snd (Commit 7 sweep_commit sweep_running)"

lemma sweep_running_eq: "Accept 5 sweep_accept (NewMemory []) = (not_accepted\<lparr>ad_OK := True\<rparr>, sweep_running)"
  unfolding sweep_running_def by code_simp

lemma sweep_done_eq: "Commit 7 sweep_commit sweep_running = (None, sweep_done)"
  unfolding sweep_done_def by code_simp

lemma sweep_fair:
  "fair_calls (\<lambda>_. ''rec'') (\<lambda>_. ''lease'') 0 [] 5"
  "fair_calls (\<lambda>_. ''rec'') (\<lambda>_. ''lease'') 0 [(5, 0, CAccept sweep_accept)] 7"
  "fair_calls (\<lambda>_. ''rec'') (\<lambda>_. ''lease'') 5 [(6, 0, CFinalize sweep_retry)] 9"
  "fair_calls (\<lambda>_. ''rec'') (\<lambda>_. ''lease'') 7 [(8, 0, CFinalize sweep_retry)] 9"
  "honest (\<lambda>_. ''rec'') (\<lambda>_. ''lease'') (CAccept sweep_accept)"
  "honest (\<lambda>_. ''rec'') (\<lambda>_. ''lease'') (CCommit sweep_commit)"
  by (simp_all add: sweep_sample Retention_def Second_def)

lemma sweep_empty: "gm_ok ([] :: mem)" by (simp add: gm_ok_def)

lemma sweep_retried: "run_calls rec_exec [(6, 0, CFinalize sweep_retry)] sweep_running = Some sweep_running"
  unfolding sweep_running_def by code_simp

theorem committed_outcome_replayed_witness:
  "\<exists>m3. run_calls rec_exec [(8, 0, CFinalize sweep_retry)] sweep_done = Some m3 \<and>
     cd_Outcome (fst (Lookup 9 sweep_keys m3)) = no_outcome\<lparr>oc_Code := ''done''\<rparr>"
proof -
  have run: "run_calls rec_exec [(5, 0, CAccept sweep_accept)] (NewMemory []) = Some sweep_running"
    by (simp add: sweep_running_eq)
  have "(9 :: int) < 7 + Retention" by (simp add: Retention_def Second_def)
  from committed_outcome_replayed [OF sweep_empty sweep_fair(2) run sweep_fair(6) sweep_done_eq sweep_fair(4) this]
  show ?thesis by (auto simp: Let_def sweep_commit_def)
qed

theorem accepted_key_runs_once_witness:
  "\<not> ad_OK (fst (Accept 9 sweep_accept sweep_running)) \<and>
   cd_Command (ad_Existing (fst (Accept 9 sweep_accept sweep_running))) = ''sweep''"
proof -
  have "(9 :: int) < 5 + Retention" by (simp add: Retention_def Second_def)
  from accepted_key_runs_once [OF sweep_empty sweep_fair(1) _ sweep_fair(5) sweep_running_eq _ sweep_fair(3) this sweep_retried]
  show ?thesis by (simp add: not_accepted_def sweep_accept_def)
qed

theorem one_sweep_per_domain_witness:
  "Batch 9 sweep_rival sweep_running = (Some ErrLeaseLost, sweep_running)"
proof -
  have "(9 :: int) < 5 + ac_LeaseTTL sweep_accept" by (simp add: sweep_accept_def Second_def)
  from one_sweep_per_domain [OF sweep_empty sweep_fair(1) _ sweep_fair(5) sweep_running_eq _ sweep_fair(3) this sweep_retried]
  show ?thesis by (simp add: not_accepted_def sweep_accept_def sweep_rival_def)
qed

definition sample_addressed :: addressed where
  "sample_addressed = \<lparr>ar_Record = ''rec'', ar_Command = ''reset'', ar_Delete = [bk_Key sample_minute, ''rl:absent''],
     ar_DryRun = False, ar_Answer = ''body''\<rparr>"

definition sample_counted :: records where
  "sample_counted = NewMemory (snd (Decide New sample_time [sample_minute, sample_day]))"

theorem addressed_reset_exact_witness:
  "\<exists>out m'. Addressed_Reset 5 sample_time sample_addressed sample_counted = Some (Inr out, m') \<and> ao_Count out = 1 \<and>
     \<not> key_live sample_time (rc_counters m') (bk_Key sample_minute) \<and>
     key_live sample_time (rc_counters m') (bk_Key sample_day)"
proof -
  have ok: "gm_ok (rc_counters sample_counted)" "rec_at 5 sample_counted (ar_Record sample_addressed) = None"
    using sample_distinct by (simp_all add: sample_counted_def NewMemory_def rec_at_def sample_both_decided gm_ok_def)
  have live: "filter (key_live sample_time (rc_counters sample_counted)) (ar_Delete sample_addressed) = [bk_Key sample_minute]"
    "key_live sample_time (rc_counters sample_counted) (bk_Key sample_day)"
    "bk_Key sample_day \<notin> set (ar_Delete sample_addressed)" "\<not> ar_DryRun sample_addressed"
    "bk_Key sample_minute \<in> set (ar_Delete sample_addressed)"
    by code_simp+
  show ?thesis using addressed_reset_exact [OF ok, of sample_time] live by (auto simp: live)
qed

end
