(* ===== verification/Mgmt_Base.thy ===== *)
theory Mgmt_Base
  imports Ruleview Records Rls_Server
begin

text \<open>
  The ground of the management API (\<open>service/internal/management\<close>): its error catalog (\<open>errors.go\<close>), the values it lets
  into a log line or an answer and the query parameters it admits (\<open>http.go\<close>), and who may call it (\<open>identity.go\<close>). A request
  is its headers and its query, both maps. The bearer token verifier is a library's: it is the parameter \<open>verify\<close>. The
  platform library draws the id of an error instance; where the code keeps it, it is an argument.
\<close>

section \<open>The error catalog\<close>

record error_code =
  ec_Code :: string
  ec_Title :: string

definition CodeInvalidRequest :: error_code where
  "CodeInvalidRequest = \<lparr>ec_Code = ''RLS-0400'', ec_Title = ''Invalid request''\<rparr>"
definition CodeUnauthorized :: error_code where
  "CodeUnauthorized = \<lparr>ec_Code = ''RLS-0401'', ec_Title = ''Authentication required''\<rparr>"
definition CodeForbidden :: error_code where
  "CodeForbidden = \<lparr>ec_Code = ''RLS-0403'', ec_Title = ''Access denied''\<rparr>"
definition CodeNotFound :: error_code where
  "CodeNotFound = \<lparr>ec_Code = ''RLS-0404'', ec_Title = ''Unknown resource''\<rparr>"
definition CodeConflict :: error_code where
  "CodeConflict = \<lparr>ec_Code = ''RLS-0409'', ec_Title = ''Conflict''\<rparr>"
definition CodeGone :: error_code where
  "CodeGone = \<lparr>ec_Code = ''RLS-0410'', ec_Title = ''Confirmation token gone''\<rparr>"
definition CodeWorkLimit :: error_code where
  "CodeWorkLimit = \<lparr>ec_Code = ''RLS-0422'', ec_Title = ''Selection exceeds the synchronous work limit''\<rparr>"
definition CodeInternal :: error_code where
  "CodeInternal = \<lparr>ec_Code = ''RLS-0500'', ec_Title = ''Internal error''\<rparr>"
definition CodeInterrupted :: error_code where
  "CodeInterrupted = \<lparr>ec_Code = ''RLS-0501'', ec_Title = ''Command interrupted after acceptance''\<rparr>"
definition CodeStoreDown :: error_code where
  "CodeStoreDown = \<lparr>ec_Code = ''RLS-0503'', ec_Title = ''Counter store unavailable''\<rparr>"
definition CodeVerifierUnavailable :: error_code where
  "CodeVerifierUnavailable = \<lparr>ec_Code = ''RLS-0504'', ec_Title = ''Token verification unavailable''\<rparr>"

lemmas error_codes = CodeInvalidRequest_def CodeUnauthorized_def CodeForbidden_def CodeNotFound_def CodeConflict_def
  CodeGone_def CodeWorkLimit_def CodeInternal_def CodeInterrupted_def CodeStoreDown_def CodeVerifierUnavailable_def

definition statuses :: "int gomap" where
  "statuses =
     [(ec_Code CodeInvalidRequest, 400), (ec_Code CodeUnauthorized, 401), (ec_Code CodeForbidden, 403),
      (ec_Code CodeNotFound, 404), (ec_Code CodeConflict, 409), (ec_Code CodeGone, 410), (ec_Code CodeWorkLimit, 422),
      (ec_Code CodeInternal, 500), (ec_Code CodeInterrupted, 500), (ec_Code CodeStoreDown, 503),
      (ec_Code CodeVerifierUnavailable, 503)]"

definition ConflictCommandMismatch :: string where "ConflictCommandMismatch = ''command_mismatch''"
definition ConflictStaleConfirmation :: string where "ConflictStaleConfirmation = ''stale_confirmation''"
definition ConflictStaleRuleSet :: string where "ConflictStaleRuleSet = ''stale_rule_set''"
definition ConflictSweepInFlight :: string where "ConflictSweepInFlight = ''sweep_in_flight''"

record bulk_rule_count =
  br_RuleID :: string
  br_MatchedCount :: "int option"
  br_ResetCount :: "int option"

record partial_reset =
  pr_DryRun :: bool
  pr_Scanned :: int
  pr_MatchedCount :: "int option"
  pr_ResetCount :: "int option"
  pr_Rules :: "bulk_rule_count list"
  pr_Keys :: "string list"
  pr_Truncated :: bool

record api_error =
  ae_Code :: error_code
  ae_Id :: string
  ae_Detail :: string
  ae_fields :: "string list"
  ae_conflictType :: string
  ae_partialReset :: "partial_reset option"
  ae_retryAfter :: int

definition errorf :: "error_code \<Rightarrow> string \<Rightarrow> string list \<Rightarrow> api_error" where
  "errorf code message flds =
     \<lparr>ae_Code = code, ae_Id = [], ae_Detail = message, ae_fields = flds, ae_conflictType = [], ae_partialReset = None,
      ae_retryAfter = 0\<rparr>"

definition invalid :: "string \<Rightarrow> string list \<Rightarrow> api_error" where
  "invalid message flds = errorf CodeInvalidRequest message flds"

definition notFound :: "string \<Rightarrow> api_error" where
  "notFound message = errorf CodeNotFound message []"

definition conflict :: "string \<Rightarrow> string \<Rightarrow> api_error" where
  "conflict kind message = (errorf CodeConflict message [])\<lparr>ae_conflictType := kind\<rparr>"

definition storeDown :: "string \<Rightarrow> api_error" where
  "storeDown message = errorf CodeStoreDown message []"

definition verifierRetryAfter :: int where "verifierRetryAfter = 5 * Second"

definition verifierUnavailable :: api_error where
  "verifierUnavailable = (errorf CodeVerifierUnavailable
     ''the service cannot verify tokens yet: the cluster's OIDC discovery has not answered'' [])
     \<lparr>ae_retryAfter := verifierRetryAfter\<rparr>"

definition interrupted :: "string \<Rightarrow> partial_reset \<Rightarrow> api_error" where
  "interrupted message partial1 = (errorf CodeInterrupted message [])\<lparr>ae_partialReset := Some partial1\<rparr>"

definition workLimit :: "string \<Rightarrow> partial_reset \<Rightarrow> api_error" where
  "workLimit message partial1 = (errorf CodeWorkLimit message [])\<lparr>ae_partialReset := Some partial1\<rparr>"

definition withRetryAfter :: "int \<Rightarrow> api_error \<Rightarrow> api_error" where
  "withRetryAfter wait e = e\<lparr>ae_retryAfter := wait\<rparr>"

definition replayOf :: "error_code \<Rightarrow> string \<Rightarrow> string \<Rightarrow> partial_reset \<Rightarrow> api_error" where
  "replayOf code i message partial1 = (errorf code message [])\<lparr>ae_Id := i, ae_partialReset := Some partial1\<rparr>"

definition error_status :: "api_error \<Rightarrow> int" where
  "error_status e = (case map_of statuses (ec_Code (ae_Code e)) of Some status \<Rightarrow> status | None \<Rightarrow> 500)"

text \<open>\<open>Duration.Seconds\<close>, in double precision.\<close>

definition duration_Seconds :: "int \<Rightarrow> rat" where
  "duration_Seconds d = dbl (of_int (quo64 d Second) + dbl (of_int (rem64 d Second) / of_int Second))"

text \<open>The status and the headers \<open>Handle\<close> sets, and the fields of the body's \<open>meta\<close> beside the request id.\<close>

definition error_headers :: "api_error \<Rightarrow> string gomap" where
  "error_headers e =
     (if ae_Code e = CodeUnauthorized then [(''WWW-Authenticate'', ''Bearer'')] else []) @
     (if ae_retryAfter e > 0 then [(''Retry-After'', FormatInt \<lceil>duration_Seconds (ae_retryAfter e)\<rceil>)] else []) @
     [(''X-Content-Type-Options'', ''nosniff'')]"

definition meta_fields :: "api_error \<Rightarrow> string list" where
  "meta_fields e = [''requestId''] @ (if ae_fields e \<noteq> [] then [''fields''] else []) @
     (if ae_conflictType e \<noteq> [] then [''conflictType''] else []) @
     (if ae_partialReset e \<noteq> None then [''partialReset''] else [])"

section \<open>Values and parameters of a request\<close>

type_synonym query = "string list gomap"

definition query_values :: "query \<Rightarrow> string \<Rightarrow> string list" where
  "query_values q name = (case map_of q name of Some vs \<Rightarrow> vs | None \<Rightarrow> [])"

text \<open>\<open>url.Values.Get\<close>\<close>

definition query_Get :: "query \<Rightarrow> string \<Rightarrow> string" where
  "query_Get q name = (case query_values q name of [] \<Rightarrow> [] | v # _ \<Rightarrow> v)"

definition maxLoggedBytes :: nat where "maxLoggedBytes = 512"

fun logSafe_loop :: "string \<Rightarrow> (int \<times> string) list \<Rightarrow> string" where
  "logSafe_loop b [] = b"
| "logSafe_loop b ((r, _) # rs) =
     (if r < 0x20 \<or> r = 0x7f then logSafe_loop b rs
      else if length b + length (EncodeRune r) > maxLoggedBytes then b
      else logSafe_loop (b @ EncodeRune r) rs)"

definition logSafe :: "string \<Rightarrow> string" where
  "logSafe v = logSafe_loop [] (rune_list v)"

definition axisPrefix :: string where "axisPrefix = ''axis.''"

fun Join_with :: "string \<Rightarrow> string list \<Rightarrow> string" where
  "Join_with sep [] = []"
| "Join_with sep [p] = p"
| "Join_with sep (p # q # ps) = p @ sep @ Join_with sep (q # ps)"

definition checkQueryNames :: "query \<Rightarrow> string list \<Rightarrow> api_error option" where
  "checkQueryNames q allowed =
     (let unknown = filter (\<lambda>name. \<not> (name \<in> set allowed \<or> HasPrefix name axisPrefix)) (map fst q)
      in if unknown = [] then None
         else
           let sorted_names = sort unknown
           in Some (invalid (''the query carries parameters this endpoint does not define: '' @
                Join_with '', '' (map logSafe sorted_names)) sorted_names))"

definition alnum :: "char \<Rightarrow> bool" where
  "alnum c \<longleftrightarrow> CHR ''A'' \<le> c \<and> c \<le> CHR ''Z'' \<or> CHR ''a'' \<le> c \<and> c \<le> CHR ''z'' \<or> isDigit c"

text \<open>\<open>^[A-Za-z0-9][A-Za-z0-9._:-]{0,127}$\<close>\<close>

definition requestIDPattern :: "string \<Rightarrow> bool" where
  "requestIDPattern s =
     (case s of [] \<Rightarrow> False
      | c # cs \<Rightarrow> alnum c \<and> length cs \<le> 127 \<and> list_all (\<lambda>x. alnum x \<or> x \<in> set ''._:-'') cs)"

definition headerIdempotencyKey :: string where "headerIdempotencyKey = ''Idempotency-Key''"

definition idempotencyKeyOf :: "string gomap \<Rightarrow> api_error + string" where
  "idempotencyKeyOf headers =
     (let key = (case map_of headers headerIdempotencyKey of Some v \<Rightarrow> v | None \<Rightarrow> [])
      in if key = [] then Inl (invalid ''this mutation needs an Idempotency-Key header'' [headerIdempotencyKey])
         else if \<not> requestIDPattern key
           then Inl (invalid ''the Idempotency-Key does not match ^[A-Za-z0-9][A-Za-z0-9._:-]{0,127}$'' [headerIdempotencyKey])
         else Inr key)"

section \<open>Callers\<close>

definition RoleViewer :: string where "RoleViewer = ''viewer''"
definition RoleOperator :: string where "RoleOperator = ''operator''"

record subject =
  su_Name :: string
  su_Roles :: "string list"

definition Can :: "subject \<Rightarrow> string \<Rightarrow> bool" where
  "Can s role \<longleftrightarrow> list_ex (\<lambda>held. held = role \<or> held = RoleOperator) (su_Roles s)"

definition bearerToken :: "string gomap \<Rightarrow> string option" where
  "bearerToken headers =
     (let header = (case map_of headers ''Authorization'' of Some v \<Rightarrow> v | None \<Rightarrow> [])
      in if header = [] then None
         else case Cut header (CHR '' '') of (scheme, raw, found) \<Rightarrow>
           if \<not> found \<or> \<not> EqualFold scheme ''Bearer'' then None
           else let trimmed = TrimSpace raw in if trimmed = [] then None else Some trimmed)"

text \<open>What the verifier says of a token: the sentinel errors its refusal wraps, or the subject and whether it is a
  ServiceAccount's.\<close>

datatype token_error =
    ErrTokenMalformed | ErrTokenExpired | ErrTokenNotValidYet | ErrTokenUsedBeforeIssued | ErrTokenInvalidAudience
  | ErrTokenInvalidIssuer | ErrKeyNotFound | ErrTokenSignatureInvalid | ErrTokenUnverifiable

datatype verified =
    Refused "token_error list"
  | Verified "string option" bool

definition refusal_class :: "token_error list \<Rightarrow> string" where
  "refusal_class err =
     (if ErrTokenMalformed \<in> set err then ''the bearer token is not a well-formed JWT''
      else if ErrTokenExpired \<in> set err then ''the bearer token has expired''
      else if ErrTokenNotValidYet \<in> set err \<or> ErrTokenUsedBeforeIssued \<in> set err then ''the bearer token is not valid yet''
      else if ErrTokenInvalidAudience \<in> set err then ''the bearer token is not issued for the audience of this API''
      else if ErrTokenInvalidIssuer \<in> set err then ''the bearer token was not issued by this cluster''
      else if ErrKeyNotFound \<in> set err then ''the bearer token is signed with a key this cluster does not hold''
      else if ErrTokenSignatureInvalid \<in> set err \<or> ErrTokenUnverifiable \<in> set err
        then ''the signature of the bearer token could not be verified''
      else ''the bearer token was not accepted'')"

definition withIdentity :: "(string \<Rightarrow> verified) option \<Rightarrow> string list \<Rightarrow> string gomap \<Rightarrow> api_error + subject" where
  "withIdentity verifier callers headers =
     (case verifier of
        None \<Rightarrow> Inl verifierUnavailable
      | Some verify \<Rightarrow>
          (case bearerToken headers of
             None \<Rightarrow> Inl (errorf CodeUnauthorized ''no bearer token on the request; send a Kubernetes ServiceAccount token'' [])
           | Some raw \<Rightarrow>
               (case verify raw of
                  Refused err \<Rightarrow> Inl (errorf CodeUnauthorized (refusal_class err) [])
                | Verified None _ \<Rightarrow> Inl (errorf CodeUnauthorized ''the bearer token is not a Kubernetes ServiceAccount token'' [])
                | Verified (Some name) kube \<Rightarrow>
                    if name = [] \<or> \<not> kube
                    then Inl (errorf CodeUnauthorized ''the bearer token is not a Kubernetes ServiceAccount token'' [])
                    else Inr \<lparr>su_Name = name, su_Roles = (if name \<in> set callers then [RoleOperator] else [])\<rparr>)))"

definition requireRole :: "string \<Rightarrow> subject \<Rightarrow> string \<Rightarrow> string \<Rightarrow> api_error option" where
  "requireRole role s http_method path =
     (if \<not> Can s role
      then Some (errorf CodeForbidden (''subject '' @ logSafe (su_Name s) @ '' lacks the '' @ role @ '' role for '' @
             http_method @ '' '' @ logSafe path) [])
      else None)"

section \<open>Normalized values\<close>

text \<open>\<open>strconv.Quote\<close>: a string with a byte beyond ASCII goes through the Unicode tables, which are the parameter \<open>uq\<close>.\<close>

definition quote_char :: "char \<Rightarrow> string" where
  "quote_char c =
     (if c = CHR 0x22 \<or> c = CHR 0x5C then [CHR 0x5C, c]
      else if c = CHR 7 then [CHR 0x5C, CHR ''a''] else if c = CHR 8 then [CHR 0x5C, CHR ''b'']
      else if c = CHR 12 then [CHR 0x5C, CHR ''f''] else if c = CHR 10 then [CHR 0x5C, CHR ''n'']
      else if c = CHR 13 then [CHR 0x5C, CHR ''r''] else if c = CHR 9 then [CHR 0x5C, CHR ''t'']
      else if c = CHR 11 then [CHR 0x5C, CHR ''v'']
      else if (of_char c :: nat) < 32 \<or> of_char c = (127 :: nat) then [CHR 0x5C, CHR ''x''] @ EncodeToString [c]
      else [c])"

definition Quote :: "(string \<Rightarrow> string) \<Rightarrow> string \<Rightarrow> string" where
  "Quote uq s = (if isASCII s then [CHR 0x22] @ concat (map quote_char s) @ [CHR 0x22] else uq s)"

fun unnormalized_values :: "(string \<Rightarrow> string) \<Rightarrow> (string \<Rightarrow> string) \<Rightarrow> string \<Rightarrow> string \<Rightarrow> string list \<Rightarrow> api_error option" where
  "unnormalized_values ul uq key fld [] = None"
| "unnormalized_values ul uq key fld (v # vs) =
     (let lower = ToLower ul v in
      if lower \<noteq> v then
        Some (invalid (''the '' @ key @ '' value '' @ Quote uq (logSafe v) @
          '' addresses no counter and no identity a request carries: the domain lowercases '' @ key @ '', so use '' @
          Quote uq (logSafe lower)) [fld])
      else unnormalized_values ul uq key fld vs)"

fun unnormalized_loop :: "(string \<Rightarrow> string) \<Rightarrow> (string \<Rightarrow> string) \<Rightarrow> string list gomap \<Rightarrow> string list \<Rightarrow> (string \<Rightarrow> string) \<Rightarrow>
    key_extraction list \<Rightarrow> api_error option" where
  "unnormalized_loop ul uq values captured field [] = None"
| "unnormalized_loop ul uq values captured field (e # es) =
     (if ke_Normalization e \<noteq> NormalizeLowercase \<or> ke_Key e \<in> set captured then unnormalized_loop ul uq values captured field es
      else case unnormalized_values ul uq (ke_Key e) (field (ke_Key e)) (query_values values (ke_Key e)) of
        Some err \<Rightarrow> Some err
      | None \<Rightarrow> unnormalized_loop ul uq values captured field es)"

definition unnormalized :: "(string \<Rightarrow> string) \<Rightarrow> (string \<Rightarrow> string) \<Rightarrow> snapshot \<Rightarrow> string list gomap \<Rightarrow> string list \<Rightarrow>
    (string \<Rightarrow> string) \<Rightarrow> api_error option" where
  "unnormalized ul uq snap values captured field = unnormalized_loop ul uq values captured field (sn_Extraction snap)"

definition capturedKeys :: "snapshot \<Rightarrow> string list \<Rightarrow> string list" where
  "capturedKeys snap ruleIDs =
     (let addressed = map (\<lambda>i. fst (Cut i (CHR ''/''))) ruleIDs
      in concat (map cb_Captures (filter (\<lambda>b. addressed = [] \<or> cb_Name b \<in> set addressed) (sn_Blocks snap))))"

definition axisField :: "string \<Rightarrow> string" where "axisField key = axisPrefix @ key"

definition singleValues :: "string gomap \<Rightarrow> string list gomap" where
  "singleValues axes = map (\<lambda>(k, v). (k, [v])) axes"

lemma unnormalized_values_none:
  "unnormalized_values ul uq key fld vs = None \<longleftrightarrow> (\<forall>v \<in> set vs. ToLower ul v = v)"
  by (induction vs) (auto simp: Let_def)

text \<open>A selection that passes names only values a request can be counted under.\<close>

lemma unnormalized_none:
  "unnormalized ul uq snap values captured field = None \<longleftrightarrow>
     (\<forall>e \<in> set (sn_Extraction snap). ke_Normalization e = NormalizeLowercase \<longrightarrow> ke_Key e \<notin> set captured \<longrightarrow>
        (\<forall>v \<in> set (query_values values (ke_Key e)). ToLower ul v = v))"
proof -
  have "unnormalized_loop ul uq values captured field es = None \<longleftrightarrow>
     (\<forall>e \<in> set es. ke_Normalization e = NormalizeLowercase \<longrightarrow> ke_Key e \<notin> set captured \<longrightarrow>
        (\<forall>v \<in> set (query_values values (ke_Key e)). ToLower ul v = v))" for es
  proof (induction es)
    case (Cons e es)
    then show ?case
      using unnormalized_values_none [of ul uq "ke_Key e" "field (ke_Key e)" "query_values values (ke_Key e)"]
      by (cases "unnormalized_values ul uq (ke_Key e) (field (ke_Key e)) (query_values values (ke_Key e))") auto
  qed simp
  then show ?thesis by (simp add: unnormalized_def)
qed

end
