(* ===== verification/Applicability.thy ===== *)
theory Applicability
  imports Mgmt_Base Match_Any
begin

text \<open>
  Which rules act on a client of whom only part of the identity is known (\<open>service/internal/management/applicability.go\<close>), and
  the listing of a domain's rules that shows it (\<open>handleRules\<close> of \<open>api.go\<close>). A key's value set is what the caller supplied, the
  empty set of a key declared absent, or open. \<open>completes\<close> says which contexts of the rule phase a partial identity leaves
  possible; the theorems compare the annotations with what the engine's rule phase does in every one of them.
\<close>

section \<open>The source\<close>

definition sortedUnique :: "string list \<Rightarrow> string list" where
  "sortedUnique values = sort (rev (remdups (rev values)))"

record scope =
  sc_values :: "string list gomap"
  sc_declared :: "string list"
  sc_present :: bool
  sc_effective :: "string list"

definition cutAxisParameter :: "string \<Rightarrow> string option" where
  "cutAxisParameter parameter =
     (if length parameter \<le> length axisPrefix \<or> take (length axisPrefix) parameter \<noteq> axisPrefix then None
      else Some (drop (length axisPrefix) parameter))"

definition knownKeys :: "snapshot \<Rightarrow> string list" where
  "knownKeys snap = [KeyPath, KeyMethod] @ sn_EffectiveKeys snap @ concat (map cb_Captures (sn_Blocks snap))"

definition declare_key :: "string \<Rightarrow> string list \<Rightarrow> scope \<Rightarrow> scope" where
  "declare_key name values sc =
     sc\<lparr>sc_values := AList.update name values (sc_values sc), sc_declared := List.insert name (sc_declared sc),
        sc_present := True\<rparr>"

fun parseScope_axes :: "snapshot \<Rightarrow> query \<Rightarrow> scope \<Rightarrow> api_error + scope" where
  "parseScope_axes snap [] sc = Inr sc"
| "parseScope_axes snap ((parameter, raw) # q) sc =
     (case cutAxisParameter parameter of
        None \<Rightarrow> parseScope_axes snap q sc
      | Some name \<Rightarrow>
          if name \<notin> set (knownKeys snap) then
            Inl (invalid (''no identity key '' @ logSafe name @ '' is declared in domain '' @ logSafe (sn_Domain snap)) [parameter])
          else
            let values = sortedUnique raw in
            if [] \<in> set values then
              Inl (invalid (''axis '' @ logSafe name @ '' has an empty value; declare the key known-absent with absent='' @
                     logSafe name @ '' instead'') [parameter])
            else if name \<notin> set (ListValuedKeys snap) \<and> length values > 1 then
              Inl (invalid (''identity key '' @ logSafe name @
                     '' is scalar, so one caller carries exactly one value for it'') [parameter])
            else parseScope_axes snap q (declare_key name values sc))"

fun parseScope_absent :: "snapshot \<Rightarrow> string list \<Rightarrow> scope \<Rightarrow> api_error + scope" where
  "parseScope_absent snap [] sc = Inr sc"
| "parseScope_absent snap (name # names) sc =
     (if name \<notin> set (knownKeys snap) then
        Inl (invalid (''no identity key '' @ logSafe name @ '' is declared in domain '' @ logSafe (sn_Domain snap)) [''absent''])
      else if map_of (sc_values sc) name \<noteq> None then
        Inl (invalid (''identity key '' @ logSafe name @ '' is declared both known-absent and with a value'') [''absent''])
      else parseScope_absent snap names (declare_key name [] sc))"

definition parseScope :: "snapshot \<Rightarrow> query \<Rightarrow> api_error + scope" where
  "parseScope snap q =
     (case parseScope_axes snap q \<lparr>sc_values = [], sc_declared = [], sc_present = False, sc_effective = sn_EffectiveKeys snap\<rparr> of
        Inl err \<Rightarrow> Inl err
      | Inr sc \<Rightarrow> parseScope_absent snap (query_values q ''absent'') sc)"

datatype state = stateFailed | stateSatisfied | stateUndecided

record keyValues =
  kv_known :: bool
  kv_values :: "string list"
  kv_nonEmpty :: bool

definition capturedByEveryRoute :: "c_block \<Rightarrow> string \<Rightarrow> bool" where
  "capturedByEveryRoute block name \<longleftrightarrow> cb_Routes block \<noteq> [] \<and>
     list_all (\<lambda>route. list_ex (\<lambda>segment. sg_Capture segment = name) (cr_Segments route)) (cb_Routes block)"

definition scope_lookup :: "scope \<Rightarrow> c_block \<Rightarrow> string \<Rightarrow> keyValues" where
  "scope_lookup sc block name =
     (case map_of (sc_values sc) name of
        Some values \<Rightarrow> \<lparr>kv_known = True, kv_values = values, kv_nonEmpty = False\<rparr>
      | None \<Rightarrow>
          if name = KeyPath \<or> name = KeyMethod then \<lparr>kv_known = False, kv_values = [], kv_nonEmpty = True\<rparr>
          else if capturedByEveryRoute block name then \<lparr>kv_known = False, kv_values = [], kv_nonEmpty = True\<rparr>
          else \<lparr>kv_known = False, kv_values = [], kv_nonEmpty = False\<rparr>)"

fun forTarget_loop :: "scope \<Rightarrow> match_target \<Rightarrow> string list \<Rightarrow> scope \<Rightarrow> api_error + scope" where
  "forTarget_loop s target [] out = Inr out"
| "forTarget_loop s target (name # names) out =
     (let identity = (name \<in> set (sc_effective s)) in
      if name \<in> set (mt_Undecided target) then
        forTarget_loop s target names
          (if identity then out\<lparr>sc_values := AList.delete name (sc_values out), sc_declared := remove1 name (sc_declared out)\<rparr> else out)
      else if identity then
        (case map_of (mt_Captures target) name of
           Some val \<Rightarrow> forTarget_loop s target names
             (out\<lparr>sc_values := AList.update name [val] (sc_values out), sc_declared := List.insert name (sc_declared out)\<rparr>)
         | None \<Rightarrow> forTarget_loop s target names out)
      else
        let decided1 = (case map_of (mt_Captures target) name of Some val \<Rightarrow> [val] | None \<Rightarrow> [])
        in case map_of (sc_values s) name of
             Some supplied \<Rightarrow>
               if supplied \<noteq> decided1 then
                 Inl (invalid (''path decides capture '' @ logSafe name @ '' through the route it matches; drop '' @
                        (if supplied = [] then ''absent='' else axisPrefix) @ logSafe name @ '' or path'')
                      [if supplied = [] then ''absent'' else axisPrefix @ name])
               else forTarget_loop s target names out
           | None \<Rightarrow> forTarget_loop s target names
               (out\<lparr>sc_values := AList.update name decided1 (sc_values out), sc_declared := List.insert name (sc_declared out)\<rparr>))"

definition forTarget :: "scope \<Rightarrow> match_target \<Rightarrow> api_error + scope" where
  "forTarget s target = forTarget_loop s target (cb_Captures (mt_Block target)) s"

definition boolState :: "bool \<Rightarrow> state" where
  "boolState ok = (if ok then stateSatisfied else stateFailed)"

definition conditionState :: "c_block \<Rightarrow> c_predicate \<Rightarrow> scope \<Rightarrow> state" where
  "conditionState block condition sc =
     (let values = scope_lookup sc block (cp_Key condition); op = cp_Operator condition in
      if \<not> kv_known values then
        if kv_nonEmpty values \<and> op = OperatorExists then stateSatisfied
        else if kv_nonEmpty values \<and> op = OperatorDoesNotExist then stateFailed
        else stateUndecided
      else
        let vs = kv_values values in
        if op = OperatorEquals then boolState (length vs = 1 \<and> vs ! 0 = cp_Value condition)
        else if op = OperatorIn \<or> op = OperatorInGroup then boolState (list_ex (\<lambda>v. v \<in> set (cp_Values condition)) vs)
        else if op = OperatorContains then boolState (cp_Value condition \<in> set vs)
        else if op = OperatorExists then boolState (length vs > 0)
        else if op = OperatorDoesNotExist then boolState (length vs = 0)
        else stateUndecided)"

definition GateUndecidedCondition :: string where "GateUndecidedCondition = ''undecided_condition''"
definition GateMissingAxis :: string where "GateMissingAxis = ''missing_axis''"
definition GateMayBePreempted :: string where "GateMayBePreempted = ''may_be_preempted''"
definition ApplicabilityAlways :: string where "ApplicabilityAlways = ''always''"
definition ApplicabilityConditional :: string where "ApplicabilityConditional = ''conditional''"
definition ApplicabilityNever :: string where "ApplicabilityNever = ''never''"

text \<open>The loops of \<open>evaluateRule\<close> over the conditions and over the axes; \<open>None\<close> is its early failure.\<close>

fun conditions_loop :: "c_block \<Rightarrow> scope \<Rightarrow> c_predicate list \<Rightarrow> string list \<Rightarrow> gate list \<Rightarrow> (string list \<times> gate list) option" where
  "conditions_loop block sc [] undecided gates = Some (undecided, gates)"
| "conditions_loop block sc (c # cs) undecided gates =
     (case conditionState block c sc of
        stateFailed \<Rightarrow> None
      | stateSatisfied \<Rightarrow> conditions_loop block sc cs undecided gates
      | stateUndecided \<Rightarrow>
          if cp_Key c \<in> set undecided then conditions_loop block sc cs undecided gates
          else conditions_loop block sc cs (cp_Key c # undecided)
                 (gates @ [\<lparr>ga_Reason = GateUndecidedCondition, ga_Key = cp_Key c, ga_Rule = []\<rparr>]))"

fun axes_loop :: "c_block \<Rightarrow> scope \<Rightarrow> string list \<Rightarrow> string list \<Rightarrow> gate list \<Rightarrow> gate list option" where
  "axes_loop block sc [] undecided gates = Some gates"
| "axes_loop block sc (axis # axes) undecided gates =
     (let values = scope_lookup sc block axis in
      if kv_known values \<and> length (kv_values values) = 1 then axes_loop block sc axes undecided gates
      else if kv_known values then None
      else if kv_nonEmpty values then axes_loop block sc axes undecided gates
      else axes_loop block sc axes undecided
        (if axis \<in> set undecided then gates
         else gates @ [\<lparr>ga_Reason = GateMissingAxis, ga_Key = axis, ga_Rule = []\<rparr>]))"

definition evaluateRule :: "c_block \<Rightarrow> c_rule \<Rightarrow> scope \<Rightarrow> state \<times> gate list" where
  "evaluateRule block rule sc =
     (case conditions_loop block sc (cu_Matches rule) [] [] of
        None \<Rightarrow> (stateFailed, [])
      | Some (undecided, gates) \<Rightarrow>
          (case axes_loop block sc (cu_Counters rule) undecided gates of
             None \<Rightarrow> (stateFailed, [])
           | Some gates' \<Rightarrow> if length gates' > 0 then (stateUndecided, gates') else (stateSatisfied, [])))"

definition preemptors :: "c_block \<Rightarrow> nat \<Rightarrow> nat list" where
  "preemptors block i =
     (if cb_Mode block = ModeFirstMatch
      then filter (\<lambda>j. cu_Behavior (cb_Rules block ! j) \<noteq> BehaviorShadow) [0..<i]
      else filter (\<lambda>j. \<not> (j = i \<or> cu_Behavior (cb_Rules block ! j) = BehaviorShadow) \<and>
             cu_Name (cb_Rules block ! i) \<in> set (cu_ReplacedRules (cb_Rules block ! j))) [0..<length (cb_Rules block)])"

fun preempt_loop :: "c_block \<Rightarrow> state list \<Rightarrow> nat list \<Rightarrow> gate list \<Rightarrow> gate list option" where
  "preempt_loop block base [] conditionalOn = Some conditionalOn"
| "preempt_loop block base (j # js) conditionalOn =
     (case base ! j of
        stateSatisfied \<Rightarrow> None
      | stateUndecided \<Rightarrow> preempt_loop block base js (conditionalOn @
          [\<lparr>ga_Reason = GateMayBePreempted, ga_Key = [], ga_Rule = view_ID (cb_Name block) (cu_Name (cb_Rules block ! j))\<rparr>])
      | stateFailed \<Rightarrow> preempt_loop block base js conditionalOn)"

definition preempt :: "c_block \<Rightarrow> state list \<Rightarrow> gate list list \<Rightarrow> nat \<Rightarrow> string \<times> gate list" where
  "preempt block base gates i =
     (if base ! i = stateFailed then (ApplicabilityNever, [])
      else case preempt_loop block base (preemptors block i) (gates ! i) of
        None \<Rightarrow> (ApplicabilityNever, [])
      | Some conditionalOn \<Rightarrow>
          if length conditionalOn > 0 then (ApplicabilityConditional, conditionalOn) else (ApplicabilityAlways, []))"

definition annotate :: "c_block \<Rightarrow> block_view \<Rightarrow> scope \<Rightarrow> block_view" where
  "annotate block view sc =
     (let judged = map (\<lambda>rule. evaluateRule block rule sc) (cb_Rules block); base = map fst judged; gates = map snd judged
      in view\<lparr>bv_Rules := map (\<lambda>i. case preempt block base gates i of (verdict, conditionalOn) \<Rightarrow>
             (bv_Rules view ! i)\<lparr>uv_Applicability := verdict, uv_ConditionalOn := conditionalOn\<rparr>) [0..<length (cb_Rules block)]\<rparr>)"

section \<open>Completions\<close>

text \<open>A value set of a request agrees with what the scope says of the key.\<close>

definition agrees :: "keyValues \<Rightarrow> string list \<Rightarrow> bool" where
  "agrees kv vs \<longleftrightarrow> (if kv_known kv then set vs = set (kv_values kv) \<and> length vs = length (kv_values kv)
     else kv_nonEmpty kv \<longrightarrow> length vs = 1)"

definition completes :: "c_block \<Rightarrow> scope \<Rightarrow> block_ctx \<Rightarrow> bool" where
  "completes block sc ctx \<longleftrightarrow> (\<forall>name. name \<noteq> [] \<longrightarrow> agrees (scope_lookup sc block name) (valueOf ctx name))"

lemma agrees_known: "agrees kv vs \<Longrightarrow> kv_known kv \<Longrightarrow> set vs = set (kv_values kv) \<and> length vs = length (kv_values kv)"
  by (simp add: agrees_def)

lemma singleton_set_length: "set vs = set ws \<Longrightarrow> length vs = length ws \<Longrightarrow> vs = [w] \<longleftrightarrow> ws = [w]"
  by (cases vs; cases ws) auto

text \<open>A condition on a value set.\<close>

definition pred_on :: "c_predicate \<Rightarrow> string list \<Rightarrow> bool" where
  "pred_on c vs =
     (let op = cp_Operator c in
      if op = OperatorEquals then vs = [cp_Value c]
      else if op = OperatorIn \<or> op = OperatorInGroup then list_ex (\<lambda>v. v \<in> set (cp_Values c)) vs
      else if op = OperatorContains then cp_Value c \<in> set vs
      else if op = OperatorExists then vs \<noteq> []
      else if op = OperatorDoesNotExist then vs = []
      else False)"

lemma predicateHolds_pred_on: "predicateHolds c ctx = pred_on c (valueOf ctx (cp_Key c))"
  by (simp add: predicateHolds_def pred_on_def Let_def)

lemma pred_on_cong:
  assumes "set vs = set ws" "length vs = length ws" shows "pred_on c vs = pred_on c ws"
  using assms singleton_set_length [OF assms, of "cp_Value c"]
  by (auto simp: pred_on_def Let_def list_ex_iff)

lemma conditionState_known:
  assumes "kv_known (scope_lookup sc block (cp_Key c))"
  shows "conditionState block c sc = boolState (pred_on c (kv_values (scope_lookup sc block (cp_Key c)))) \<or>
    conditionState block c sc = stateUndecided"
proof -
  have eq: "length ws = 1 \<and> ws ! 0 = w \<longleftrightarrow> ws = [w]" for ws :: "string list" and w by (cases ws) auto
  show ?thesis using assms unfolding conditionState_def pred_on_def Let_def eq by simp
qed

lemma conditionState_sound:
  assumes "completes block sc ctx" "cp_Key c \<noteq> []"
  shows "conditionState block c sc = stateSatisfied \<Longrightarrow> predicateHolds c ctx"
    and "conditionState block c sc = stateFailed \<Longrightarrow> \<not> predicateHolds c ctx"
proof -
  let ?kv = "scope_lookup sc block (cp_Key c)" and ?vs = "valueOf ctx (cp_Key c)"
  have a: "agrees ?kv ?vs" using assms by (simp add: completes_def)
  show "predicateHolds c ctx" if s: "conditionState block c sc = stateSatisfied"
  proof (cases "kv_known ?kv")
    case True
    then show ?thesis
      using conditionState_known [OF True] s pred_on_cong [of ?vs "kv_values ?kv" c] agrees_known [OF a]
      by (simp add: predicateHolds_pred_on boolState_def split: if_splits)
  next
    case False
    then have "kv_nonEmpty ?kv" "cp_Operator c = OperatorExists"
      using s by (auto simp: conditionState_def Let_def split: if_splits)
    with a False have "?vs \<noteq> []" "cp_Operator c = OperatorExists" by (auto simp: agrees_def)
    then show ?thesis by (simp add: predicateHolds_def model_consts)
  qed
  show "\<not> predicateHolds c ctx" if s: "conditionState block c sc = stateFailed"
  proof (cases "kv_known ?kv")
    case True
    then show ?thesis
      using conditionState_known [OF True] s pred_on_cong [of ?vs "kv_values ?kv" c] agrees_known [OF a]
      by (simp add: predicateHolds_pred_on boolState_def split: if_splits)
  next
    case False
    then have "kv_nonEmpty ?kv" "cp_Operator c = OperatorDoesNotExist"
      using s by (auto simp: conditionState_def Let_def split: if_splits)
    with a False have "?vs \<noteq> []" "cp_Operator c = OperatorDoesNotExist" by (auto simp: agrees_def)
    then show ?thesis by (simp add: predicateHolds_def model_consts)
  qed
qed

lemma conditions_loop_Some:
  assumes "conditions_loop block sc cs u g = Some (u', g')" "u \<noteq> [] \<longrightarrow> g \<noteq> []"
  shows "(\<forall>c \<in> set cs. conditionState block c sc \<noteq> stateFailed) \<and> (u' \<noteq> [] \<longrightarrow> g' \<noteq> []) \<and>
    (g' = [] \<longrightarrow> g = [] \<and> (\<forall>c \<in> set cs. conditionState block c sc = stateSatisfied))"
  using assms
proof (induction cs arbitrary: u g)
  case (Cons c cs)
  show ?case
  proof (cases "conditionState block c sc")
    case stateFailed
    with Cons.prems show ?thesis by simp
  next
    case stateSatisfied
    then have "conditions_loop block sc cs u g = Some (u', g')" using Cons.prems(1) by simp
    from Cons.IH [OF this Cons.prems(2)] stateSatisfied show ?thesis by (metis set_ConsD state.distinct(1))
  next
    case stateUndecided
    show ?thesis
    proof (cases "cp_Key c \<in> set u")
      case True
      then have "g \<noteq> []" using Cons.prems(2) by auto
      moreover have "conditions_loop block sc cs u g = Some (u', g')" using Cons.prems(1) stateUndecided True by simp
      note Cons.IH [OF this Cons.prems(2)]
      ultimately show ?thesis using stateUndecided by (metis set_ConsD state.distinct(3))
    next
      case False
      then have "conditions_loop block sc cs (cp_Key c # u)
          (g @ [\<lparr>ga_Reason = GateUndecidedCondition, ga_Key = cp_Key c, ga_Rule = []\<rparr>]) = Some (u', g')"
        using Cons.prems(1) stateUndecided by simp
      from Cons.IH [OF this] stateUndecided show ?thesis by (metis append_is_Nil_conv not_Cons_self2 set_ConsD state.distinct(3))
    qed
  qed
qed simp

lemma conditions_loop_None:
  "conditions_loop block sc cs u g = None \<Longrightarrow> \<exists>c \<in> set cs. conditionState block c sc = stateFailed"
  by (induction block sc cs u g rule: conditions_loop.induct) (auto split: state.splits if_splits)

definition axis_failed :: "keyValues \<Rightarrow> bool" where
  "axis_failed kv \<longleftrightarrow> kv_known kv \<and> length (kv_values kv) \<noteq> 1"

definition axis_certain :: "keyValues \<Rightarrow> bool" where
  "axis_certain kv \<longleftrightarrow> (if kv_known kv then length (kv_values kv) = 1 else kv_nonEmpty kv)"

lemma axes_loop_Some:
  assumes "axes_loop block sc axes u g = Some g'" "u \<noteq> [] \<longrightarrow> g \<noteq> []" "g' = []"
  shows "g = [] \<and> (\<forall>axis \<in> set axes. axis_certain (scope_lookup sc block axis))"
  using assms
proof (induction axes arbitrary: g)
  case (Cons axis axes)
  let ?g = "if axis \<in> set u then g else g @ [\<lparr>ga_Reason = GateMissingAxis, ga_Key = axis, ga_Rule = []\<rparr>]"
  show ?case
  proof (cases "axis_certain (scope_lookup sc block axis)")
    case True
    with Cons.prems Cons.IH [of g] show ?thesis by (auto simp: axis_certain_def Let_def split: if_splits)
  next
    case False
    with Cons.prems(1) have "axes_loop block sc axes u ?g = Some g'"
      by (auto simp: axis_certain_def Let_def split: if_splits)
    with Cons.prems(2,3) Cons.IH [of ?g] have "?g = []" by auto
    with Cons.prems(2) show ?thesis by (auto split: if_splits)
  qed
qed simp

lemma axes_loop_None:
  "axes_loop block sc axes u g = None \<Longrightarrow> \<exists>axis \<in> set axes. axis_failed (scope_lookup sc block axis)"
  by (induction block sc axes u g rule: axes_loop.induct) (auto simp: axis_failed_def Let_def split: if_splits)

text \<open>The keys a rule reads have names.\<close>

definition keys_named :: "c_rule \<Rightarrow> bool" where
  "keys_named rule \<longleftrightarrow> (\<forall>c \<in> set (cu_Matches rule). cp_Key c \<noteq> []) \<and> [] \<notin> set (cu_Counters rule)"

lemma evaluateRule_sound:
  assumes "completes block sc ctx" "keys_named rule"
  shows "fst (evaluateRule block rule sc) = stateSatisfied \<Longrightarrow> ruleMatches rule ctx"
    and "fst (evaluateRule block rule sc) = stateFailed \<Longrightarrow> \<not> ruleMatches rule ctx"
    and "fst (evaluateRule block rule sc) \<noteq> stateUndecided \<longleftrightarrow> snd (evaluateRule block rule sc) = []"
proof -
  have axis: "agrees (scope_lookup sc block a) (valueOf ctx a)" if "a \<in> set (cu_Counters rule)" for a
    using assms that unfolding completes_def keys_named_def by metis
  let ?C = "conditions_loop block sc (cu_Matches rule) [] []"
  show "fst (evaluateRule block rule sc) \<noteq> stateUndecided \<longleftrightarrow> snd (evaluateRule block rule sc) = []"
    by (auto simp: evaluateRule_def split: option.splits if_splits)
  show "ruleMatches rule ctx" if s: "fst (evaluateRule block rule sc) = stateSatisfied"
  proof -
    obtain u g where c: "?C = Some (u, g)" and a: "axes_loop block sc (cu_Counters rule) u g = Some []"
      using s by (auto simp: evaluateRule_def split: option.splits if_splits)
    note cl = conditions_loop_Some [OF c] 
    have "g = [] \<and> (\<forall>axis \<in> set (cu_Counters rule). axis_certain (scope_lookup sc block axis))"
      using axes_loop_Some [OF a] cl by simp
    with cl have "\<forall>c \<in> set (cu_Matches rule). predicateHolds c ctx"
      "\<forall>axis \<in> set (cu_Counters rule). axis_certain (scope_lookup sc block axis)"
      using conditionState_sound(1) [OF assms(1)] assms(2) by (simp_all add: keys_named_def)
    moreover have "a \<in> set (cu_Counters rule) \<Longrightarrow> axis_certain (scope_lookup sc block a) \<Longrightarrow> length (valueOf ctx a) = 1" for a
      using axis [of a] by (auto simp: axis_certain_def agrees_def split: if_splits)
    ultimately show ?thesis by (auto simp: ruleMatches_def list_all_iff)
  qed
  show "\<not> ruleMatches rule ctx" if s: "fst (evaluateRule block rule sc) = stateFailed"
  proof (cases ?C)
    case None
    then show ?thesis
      using conditions_loop_None [OF None] conditionState_sound(2) [OF assms(1)] assms(2)
      by (auto simp: ruleMatches_def list_all_iff keys_named_def)
  next
    case (Some p)
    then obtain u g where c: "?C = Some (u, g)" by (cases p) auto
    with s have "axes_loop block sc (cu_Counters rule) u g = None"
      by (auto simp: evaluateRule_def split: option.splits if_splits)
    then obtain a where "a \<in> set (cu_Counters rule)" "axis_failed (scope_lookup sc block a)"
      using axes_loop_None by blast
    then show ?thesis using axis [of a] by (auto simp: ruleMatches_def list_all_iff axis_failed_def agrees_def)
  qed
qed

section \<open>Reaching a rule\<close>

text \<open>The rule matches and none of those that can keep it from applying does.\<close>

definition reached :: "c_block \<Rightarrow> block_ctx \<Rightarrow> nat \<Rightarrow> bool" where
  "reached block ctx i \<longleftrightarrow> ruleMatches (cb_Rules block ! i) ctx \<and>
     (\<forall>j \<in> set (preemptors block i). \<not> ruleMatches (cb_Rules block ! j) ctx)"

lemma preempt_loop_Some:
  "preempt_loop block base js g = Some g' \<Longrightarrow>
     (\<forall>j \<in> set js. base ! j \<noteq> stateSatisfied) \<and> (g' = [] \<longrightarrow> g = [] \<and> (\<forall>j \<in> set js. base ! j = stateFailed))"
  by (induction block base js g rule: preempt_loop.induct) (auto split: state.splits)

lemma preempt_loop_None:
  "preempt_loop block base js g = None \<Longrightarrow> \<exists>j \<in> set js. base ! j = stateSatisfied"
  by (induction block base js g rule: preempt_loop.induct) (auto split: state.splits)

lemma first_match_Cons:
  "first_match ctx (x # xs) =
     (if \<not> ruleMatches x ctx then first_match ctx xs
      else if cu_Behavior x = BehaviorShadow then x # first_match ctx xs
      else if cu_Behavior x = BehaviorBypass then [] else [x])"
  by (simp add: first_match_def Let_def)

lemma first_match_subset: "r \<in> set (first_match ctx xs) \<Longrightarrow> r \<in> set xs \<and> ruleMatches r ctx \<and> cu_Behavior r \<noteq> BehaviorBypass"
proof (induction xs)
  case Nil
  then show ?case by (simp add: first_match_def)
next
  case (Cons x xs)
  have "BehaviorShadow \<noteq> BehaviorBypass" by (simp add: model_consts)
  with Cons show ?case by (auto simp: first_match_Cons split: if_splits)
qed

lemma first_match_mem:
  assumes "r \<notin> set xs" "r \<notin> set ys"
  shows "r \<in> set (first_match ctx (xs @ r # ys)) \<longleftrightarrow> ruleMatches r ctx \<and> cu_Behavior r \<noteq> BehaviorBypass \<and>
    (\<forall>x \<in> set xs. ruleMatches x ctx \<longrightarrow> cu_Behavior x = BehaviorShadow)"
  using assms
proof (induction xs)
  case Nil
  have "BehaviorShadow \<noteq> BehaviorBypass" by (simp add: model_consts)
  with Nil show ?case using first_match_subset [of r ctx ys] by (auto simp: first_match_Cons)
next
  case (Cons x xs)
  then show ?case by (simp add: first_match_Cons)
qed

lemma all_match_mem:
  "r \<in> set (all_match ctx rules) \<longleftrightarrow> r \<in> set rules \<and> ruleMatches r ctx \<and> cu_Behavior r \<noteq> BehaviorBypass \<and>
    (\<forall>x \<in> set rules. ruleMatches x ctx \<longrightarrow> cu_Behavior x \<noteq> BehaviorShadow \<longrightarrow> cu_Name r \<notin> set (cu_ReplacedRules x))"
  by (auto simp: all_match_def suppressed_def)

text \<open>What the compiler guarantees of the rules of a block.\<close>

definition rules_ok :: "c_block \<Rightarrow> bool" where
  "rules_ok block \<longleftrightarrow> distinct (map cu_Name (cb_Rules block)) \<and>
     (\<forall>r \<in> set (cb_Rules block). cu_Name r \<notin> set (cu_ReplacedRules r) \<and> keys_named r)"

lemma reached_iff_applied:
  assumes "rules_ok block" "i < length (cb_Rules block)" "cu_Behavior (cb_Rules block ! i) \<noteq> BehaviorBypass"
  shows "reached block ctx i \<longleftrightarrow> cb_Rules block ! i \<in> set (block_match block ctx)"
proof -
  let ?rs = "cb_Rules block" and ?r = "cb_Rules block ! i"
  have d: "distinct ?rs" using assms(1) by (simp add: rules_ok_def distinct_map)
  show ?thesis
  proof (cases "cb_Mode block = ModeFirstMatch")
    case True
    have split: "?rs = take i ?rs @ ?r # drop (Suc i) ?rs" using assms(2) by (simp add: id_take_nth_drop)
    then have "?r \<notin> set (take i ?rs)" "?r \<notin> set (drop (Suc i) ?rs)"
      using d by (metis distinct_append distinct.simps(2) not_distinct_conv_prefix)+
    from first_match_mem [OF this, of ctx]
    have "?r \<in> set (first_match ctx ?rs) \<longleftrightarrow> ruleMatches ?r ctx \<and>
        (\<forall>x \<in> set (take i ?rs). ruleMatches x ctx \<longrightarrow> cu_Behavior x = BehaviorShadow)"
      using assms(3) split by simp
    moreover have "set (take i ?rs) = (\<lambda>j. ?rs ! j) ` {0..<i}" using assms(2) by (simp add: nth_image)
    ultimately show ?thesis using True by (auto simp: reached_def preemptors_def block_match_def)
  next
    case False
    have own: "cu_Name ?r \<notin> set (cu_ReplacedRules ?r)" using assms(1,2) by (simp add: rules_ok_def)
    have "?r \<in> set (all_match ctx ?rs) \<longleftrightarrow> ruleMatches ?r ctx \<and>
        (\<forall>j < length ?rs. ruleMatches (?rs ! j) ctx \<longrightarrow> cu_Behavior (?rs ! j) \<noteq> BehaviorShadow \<longrightarrow>
           cu_Name ?r \<notin> set (cu_ReplacedRules (?rs ! j)))"
      using assms(2,3) unfolding all_match_mem by (auto simp: all_set_conv_all_nth)
    then show ?thesis using False own by (auto simp: reached_def preemptors_def block_match_def)
  qed
qed

section \<open>Annotations are sound\<close>

lemma annotate_rule:
  assumes "i < length (cb_Rules block)"
  shows "uv_Applicability (bv_Rules (annotate block view sc) ! i) =
    fst (preempt block (map (\<lambda>r. fst (evaluateRule block r sc)) (cb_Rules block))
      (map (\<lambda>r. snd (evaluateRule block r sc)) (cb_Rules block)) i)"
  using assms by (simp add: annotate_def Let_def comp_def split: prod.split)

lemma verdicts_distinct [simp]:
  "ApplicabilityAlways \<noteq> ApplicabilityNever" "ApplicabilityNever \<noteq> ApplicabilityAlways"
  "ApplicabilityConditional \<noteq> ApplicabilityAlways" "ApplicabilityAlways \<noteq> ApplicabilityConditional"
  "ApplicabilityConditional \<noteq> ApplicabilityNever" "ApplicabilityNever \<noteq> ApplicabilityConditional"
  by (simp_all add: ApplicabilityAlways_def ApplicabilityNever_def ApplicabilityConditional_def)

lemma preemptors_bound: "j \<in> set (preemptors block i) \<Longrightarrow> i < length (cb_Rules block) \<Longrightarrow> j < length (cb_Rules block)"
  by (auto simp: preemptors_def split: if_splits)

lemma annotation_reached:
  assumes "completes block sc ctx" "i < length (cb_Rules block)" "rules_ok block"
  shows "uv_Applicability (bv_Rules (annotate block view sc) ! i) = ApplicabilityAlways \<Longrightarrow> reached block ctx i"
    and "uv_Applicability (bv_Rules (annotate block view sc) ! i) = ApplicabilityNever \<Longrightarrow> \<not> reached block ctx i"
proof -
  let ?base = "map (\<lambda>r. fst (evaluateRule block r sc)) (cb_Rules block)"
  let ?gates = "map (\<lambda>r. snd (evaluateRule block r sc)) (cb_Rules block)"
  let ?js = "preemptors block i"
  have named: "keys_named (cb_Rules block ! j)" if "j < length (cb_Rules block)" for j
    using assms(3) that by (simp add: rules_ok_def)
  note ev = evaluateRule_sound [OF assms(1) named]
  show "reached block ctx i" if v: "uv_Applicability (bv_Rules (annotate block view sc) ! i) = ApplicabilityAlways"
  proof -
    from v have ne: "?base ! i \<noteq> stateFailed" and l: "preempt_loop block ?base ?js (?gates ! i) = Some []"
      unfolding annotate_rule [OF assms(2)] by (auto simp: preempt_def split: if_splits option.splits)
    note pl = preempt_loop_Some [OF l]
    have "ruleMatches (cb_Rules block ! i) ctx"
      using ev(1,3) [of i] ne pl assms(2) by (cases "fst (evaluateRule block (cb_Rules block ! i) sc)") auto
    moreover have "\<not> ruleMatches (cb_Rules block ! j) ctx" if "j \<in> set ?js" for j
    proof -
      have "?base ! j = stateFailed" using pl that by blast
      then show ?thesis using preemptors_bound [OF that assms(2)] ev(2) [of j] by simp
    qed
    ultimately show ?thesis by (simp add: reached_def)
  qed
  show "\<not> reached block ctx i" if v: "uv_Applicability (bv_Rules (annotate block view sc) ! i) = ApplicabilityNever"
  proof (cases "?base ! i = stateFailed")
    case True
    then show ?thesis using ev(2) [of i] assms(2) by (simp add: reached_def)
  next
    case False
    with v have "preempt_loop block ?base ?js (?gates ! i) = None"
      unfolding annotate_rule [OF assms(2)] by (auto simp: preempt_def split: if_splits option.splits)
    then obtain j where "j \<in> set ?js" "?base ! j = stateSatisfied" using preempt_loop_None by blast
    then show ?thesis
      using ev(1) [of j] preemptors_bound [OF _ assms(2), of j] by (auto simp: reached_def)
  qed
qed

definition rule_applied :: "c_block \<Rightarrow> block_ctx \<Rightarrow> nat \<Rightarrow> bool" where
  "rule_applied block ctx i \<longleftrightarrow>
     (\<exists>ms. evalBlock block ctx = Some ms \<and> cu_Name (cb_Rules block ! i) \<in> mr_Rule ` set ms)"

lemma rule_applied_iff:
  assumes "rules_ok block" "i < length (cb_Rules block)" "cu_Behavior (cb_Rules block ! i) \<noteq> BehaviorBypass"
  shows "rule_applied block ctx i \<longleftrightarrow> reached block ctx i"
proof -
  have inj: "inj_on cu_Name (set (cb_Rules block))" using assms(1) by (simp add: rules_ok_def distinct_map)
  have "rule_applied block ctx i \<longleftrightarrow> cu_Name (cb_Rules block ! i) \<in> cu_Name ` set (block_match block ctx)"
    by (auto simp: rule_applied_def evalBlock_match applied_def image_iff)
  also have "\<dots> \<longleftrightarrow> cb_Rules block ! i \<in> set (block_match block ctx)"
    using inj_on_image_mem_iff [OF inj, of "cb_Rules block ! i" "set (block_match block ctx)"] assms(2) block_match_set by auto
  finally show ?thesis using reached_iff_applied [OF assms] by simp
qed

section \<open>Requests\<close>

definition routes_ok :: "c_block \<Rightarrow> bool" where
  "routes_ok block \<longleftrightarrow> distinct (cb_Captures block) \<and>
     set (cb_Captures block) = (\<Union>cr \<in> set (cb_Routes block). set (seg_captures (cr_Segments cr))) \<and>
     (\<forall>cr \<in> set (cb_Routes block). cr_Type cr = PathTemplate \<or> cr_Segments cr = []) \<and>
     KeyPath \<notin> set (cb_Captures block) \<and> KeyMethod \<notin> set (cb_Captures block) \<and> [] \<notin> set (cb_Captures block)"

lemma matchSegments_keys:
  "matchSegments segs parts caps = Some out \<Longrightarrow> fst ` set out = fst ` set caps \<union> set (seg_captures segs)"
  by (induction segs parts caps rule: matchSegments.induct) (auto split: if_splits simp: dom_map_of_conv_image_fst [symmetric])

lemma matchPath_keys:
  "matchPath route path = Some caps \<Longrightarrow> fst ` set caps = (if cr_Type route = PathTemplate then set (seg_captures (cr_Segments route)) else {})"
  using matchSegments_keys [of "cr_Segments route" "Split (tl path) (CHR ''/'')" "[]" caps]
  by (simp add: matchPath_def matchTemplate_def Let_def split: if_splits)

lemma matchTarget_keys:
  assumes "matchTarget block path m = Some (r, axis, caps)"
  shows "r = None \<and> cb_Routes block = [] \<and> caps = [] \<or>
    (\<exists>route \<in> set (cb_Routes block). matchPath route path = Some caps)"
proof (cases "cb_Routes block = []")
  case False
  have "matchTarget_loop path m routes = Some (r, axis, caps) \<Longrightarrow> \<exists>route \<in> set routes. matchPath route path = Some caps" for routes
    by (induction routes) (auto split: if_splits option.splits)
  with assms False show ?thesis by (simp add: matchTarget_def)
qed (use assms in \<open>auto simp: matchTarget_def\<close>)

lemma target_captures:
  assumes "routes_ok block" "matchTarget block path m = Some (r, axis, caps)"
  shows "map_of caps name \<noteq> None \<Longrightarrow> name \<in> set (cb_Captures block)"
    and "capturedByEveryRoute block name \<Longrightarrow> name \<in> set (cb_Captures block) \<Longrightarrow> map_of caps name \<noteq> None"
proof -
  have keys: "fst ` set caps = (if cr_Type route = PathTemplate then set (seg_captures (cr_Segments route)) else {})"
    if "matchPath route path = Some caps" for route
    using matchPath_keys [OF that] .
  show "name \<in> set (cb_Captures block)" if "map_of caps name \<noteq> None"
  proof -
    have n: "name \<in> fst ` set caps" using that by (simp add: map_of_eq_None_iff)
    then obtain route where "route \<in> set (cb_Routes block)" "matchPath route path = Some caps"
      using matchTarget_keys [OF assms(2)] by auto
    then show ?thesis using n keys assms(1) by (auto simp: routes_ok_def split: if_splits)
  qed
  show "map_of caps name \<noteq> None" if every: "capturedByEveryRoute block name" and "name \<in> set (cb_Captures block)"
  proof -
    obtain route where r: "route \<in> set (cb_Routes block)" "matchPath route path = Some caps"
      using matchTarget_keys [OF assms(2)] every by (auto simp: capturedByEveryRoute_def)
    then obtain sg where sg: "sg \<in> set (cr_Segments route)" "sg_Capture sg = name"
      using every by (auto simp: capturedByEveryRoute_def list_all_iff list_ex_iff)
    moreover have "name \<noteq> []" using that(2) assms(1) by (auto simp: routes_ok_def)
    ultimately have "name \<in> set (seg_captures (cr_Segments route))" by (auto simp: seg_captures_def)
    moreover have "cr_Type route = PathTemplate" using assms(1) r(1) sg(1) by (auto simp: routes_ok_def)
    ultimately show ?thesis using keys [OF r(2)] by (simp add: map_of_eq_None_iff)
  qed
qed

text \<open>What a narrowed scope says of a key.\<close>

definition narrowed :: "scope \<Rightarrow> match_target \<Rightarrow> string \<Rightarrow> string list option" where
  "narrowed s target n =
     (let old = map_of (sc_values s) n; produced = map_of (mt_Captures target) n in
      if n \<in> set (mt_Undecided target) then (if n \<in> set (sc_effective s) then None else old)
      else if n \<in> set (sc_effective s) then (case produced of Some v \<Rightarrow> Some [v] | None \<Rightarrow> old)
      else Some (case produced of Some v \<Rightarrow> [v] | None \<Rightarrow> []))"

lemma forTarget_loop_values:
  assumes "forTarget_loop s target names out = Inr q" "distinct names"
    "\<And>n. n \<in> set names \<Longrightarrow> map_of (sc_values out) n = map_of (sc_values s) n"
  shows "map_of (sc_values q) n = (if n \<in> set names then narrowed s target n else map_of (sc_values out) n)"
  using assms
proof (induction names arbitrary: out)
  case (Cons name names)
  let ?p = "map_of (mt_Captures target) name"
  obtain out' where o: "forTarget_loop s target names out' = Inr q"
    "map_of (sc_values out') = (map_of (sc_values out))(name := narrowed s target name)"
  proof -
    show thesis
      using Cons.prems(1,3) that
      by (cases "name \<in> set (mt_Undecided target)"; cases "name \<in> set (sc_effective s)"; cases ?p;
          cases "map_of (sc_values s) name")
         (fastforce simp: narrowed_def Let_def fun_upd_idem split: if_splits)+
  qed
  have "map_of (sc_values out') x = map_of (sc_values s) x" if "x \<in> set names" for x
    using o(2) Cons.prems(2,3) that by auto
  from Cons.IH [OF o(1) _ this] Cons.prems(2) o(2) show ?case by auto
qed simp

text \<open>The scope describes the client of a request: the identity the client carries has the declared values, and the parts of
  the request that no identity carries - a capture, the path, the method - have them too.\<close>

definition identity_of :: "block_ctx \<Rightarrow> string \<Rightarrow> string list" where
  "identity_of ctx name = (case map_of (bc_keys ctx) name of Some vs \<Rightarrow> vs | None \<Rightarrow> [])"

definition describes :: "scope \<Rightarrow> block_ctx \<Rightarrow> bool" where
  "describes sc ctx \<longleftrightarrow> (\<forall>name values. map_of (sc_values sc) name = Some values \<longrightarrow>
     (let vs = (if name \<in> set (sc_effective sc) \<and> name \<notin> {KeyPath, KeyMethod} then identity_of ctx name else valueOf ctx name)
      in set vs = set values \<and> length vs = length values))"

lemma valueOf_identity:
  "name \<noteq> KeyPath \<Longrightarrow> name \<noteq> KeyMethod \<Longrightarrow> map_of (bc_captures ctx) name = None \<Longrightarrow> valueOf ctx name = identity_of ctx name"
  by (simp add: valueOf_def identity_of_def)

lemma valueOf_capture:
  "name \<noteq> KeyPath \<Longrightarrow> name \<noteq> KeyMethod \<Longrightarrow> map_of (bc_captures ctx) name = Some v \<Longrightarrow> valueOf ctx name = [v]"
  by (simp add: valueOf_def)

lemma forTarget_completes:
  assumes ok: "routes_ok (mt_Block target)"
    and q: "forTarget sc target = Inr question"
    and known: "\<And>k. map_of (bc_keys ctx) k \<noteq> None \<Longrightarrow> k \<in> set (sc_effective sc)"
    and ctx: "describes sc ctx" "matchTarget (mt_Block target) path m = Some (r, axis, bc_captures ctx)"
    and dec: "\<And>n. n \<in> set (cb_Captures (mt_Block target)) \<Longrightarrow> n \<notin> set (mt_Undecided target) \<Longrightarrow>
      map_of (mt_Captures target) n = map_of (bc_captures ctx) n"
  shows "completes (mt_Block target) question ctx"
  unfolding completes_def
proof (intro allI impI)
  fix n :: string assume n: "n \<noteq> []"
  let ?b = "mt_Block target" and ?c = "map_of (bc_captures ctx) n"
  have d: "distinct (cb_Captures ?b)" and pm: "n \<in> set (cb_Captures ?b) \<Longrightarrow> n \<noteq> KeyPath \<and> n \<noteq> KeyMethod"
    using ok by (auto simp: routes_ok_def)
  have vals: "map_of (sc_values question) n =
      (if n \<in> set (cb_Captures ?b) then narrowed sc target n else map_of (sc_values sc) n)"
    using forTarget_loop_values [OF q [unfolded forTarget_def] d] by simp
  note caps = target_captures [OF ok ctx(2)]
  have old: "set vs = set ws \<and> length vs = length ws"
    if "map_of (sc_values sc) n = Some ws" "vs = (if n \<in> set (sc_effective sc) \<and> n \<notin> {KeyPath, KeyMethod} then identity_of ctx n else valueOf ctx n)" for ws vs
    using ctx(1) that by (simp add: describes_def Let_def)
  have plain: "valueOf ctx n = (if n \<in> set (sc_effective sc) \<and> n \<notin> {KeyPath, KeyMethod} then identity_of ctx n else valueOf ctx n)"
    if "?c = None" using valueOf_identity [of n ctx] that by auto
  show "agrees (scope_lookup question ?b n) (valueOf ctx n)"
  proof (cases "map_of (sc_values question) n")
    case (Some ws)
    have "set (valueOf ctx n) = set ws \<and> length (valueOf ctx n) = length ws"
    proof (cases "n \<in> set (cb_Captures ?b)")
      case False
      then have "?c = None" using caps(1) by blast
      then show ?thesis using old [OF _ plain] Some vals False by simp
    next
      case True
      then have nw: "narrowed sc target n = Some ws" using Some vals by simp
      show ?thesis
      proof (cases "n \<in> set (mt_Undecided target)")
        case un: True
        then have "n \<notin> set (sc_effective sc)" "map_of (sc_values sc) n = Some ws"
          using nw by (auto simp: narrowed_def Let_def split: if_splits)
        then show ?thesis using old [of ws "valueOf ctx n"] by simp
      next
        case False
        then have p: "map_of (mt_Captures target) n = ?c" using dec True by simp
        show ?thesis
        proof (cases ?c)
          case (Some v)
          then have "ws = [v]" using nw False p by (auto simp: narrowed_def Let_def split: if_splits)
          then show ?thesis using valueOf_capture [of n ctx v] pm [OF True] Some by simp
        next
          case c: None
          show ?thesis
          proof (cases "n \<in> set (sc_effective sc)")
            case True
            then show ?thesis using nw False p c old [OF _ plain [OF c]] by (simp add: narrowed_def Let_def)
          next
            case eff: False
            then have "map_of (bc_keys ctx) n = None" using known [of n] by blast
            then have "identity_of ctx n = []" by (simp add: identity_of_def)
            then show ?thesis
              using nw False p c eff valueOf_identity [OF _ _ c] pm [OF True] by (simp add: narrowed_def Let_def)
          qed
        qed
      qed
    qed
    with Some show ?thesis by (simp add: scope_lookup_def agrees_def)
  next
    case None
    have "length (valueOf ctx n) = 1" if "n = KeyPath \<or> n = KeyMethod" using that by (auto simp: valueOf_def)
    moreover have "length (valueOf ctx n) = 1" if "n \<noteq> KeyPath" "n \<noteq> KeyMethod" "capturedByEveryRoute ?b n" "n \<in> set (cb_Captures ?b)"
      using caps(2) [OF that(3,4)] valueOf_capture [of n ctx] that(1,2) by auto
    moreover have "n \<in> set (cb_Captures ?b)" if every: "capturedByEveryRoute ?b n"
    proof -
      obtain route where "route \<in> set (cb_Routes ?b)" "list_ex (\<lambda>sg. sg_Capture sg = n) (cr_Segments route)"
        using every by (cases "cb_Routes ?b") (auto simp: capturedByEveryRoute_def)
      then show ?thesis using ok n by (auto simp: routes_ok_def list_ex_iff seg_captures_def)
    qed
    ultimately show ?thesis using None by (auto simp: scope_lookup_def agrees_def)
  qed
qed

section \<open>The listing of a domain's rules\<close>

definition api_snapshot :: "rule_set \<Rightarrow> string \<Rightarrow> api_error + (snapshot \<times> string)" where
  "api_snapshot rules domain =
     (case set_Snapshot rules domain of
        None \<Rightarrow> Inl (notFound (''domain '' @ logSafe domain @ '' is not in the enforced rule set''))
      | Some snap \<Rightarrow> Inr (snap, set_Version rules domain))"

definition handleDomains :: "rule_set \<Rightarrow> domain_summary list" where
  "handleDomains rules =
     List.map_filter (\<lambda>domain. map_option (\<lambda>snap. Summary snap (set_Version rules domain)) (set_Snapshot rules domain))
       (set_Domains rules)"

definition selectTargets :: "snapshot \<Rightarrow> string \<Rightarrow> string \<Rightarrow> match_target list" where
  "selectTargets snap path m =
     (if path = [] then map (\<lambda>block. \<lparr>mt_Block = block, mt_Captures = [], mt_Undecided = []\<rparr>) (sn_Blocks snap)
      else if m = [] then TargetsByPath snap path
      else Targets (Match snap path m))"

fun rules_loop :: "scope \<Rightarrow> string \<Rightarrow> match_target list \<Rightarrow> api_error + block_view list" where
  "rules_loop sc path [] = Inr []"
| "rules_loop sc path (target # targets) =
     (let rendered = view_Block (mt_Block target);
          annotated = (if \<not> sc_present sc then Inr rendered
            else case (if path \<noteq> [] then forTarget sc target else Inr sc) of
                Inl err \<Rightarrow> Inl err
              | Inr question \<Rightarrow> Inr (annotate (mt_Block target) rendered question))
      in case annotated of
           Inl err \<Rightarrow> Inl err
         | Inr view \<Rightarrow> (case rules_loop sc path targets of Inl err \<Rightarrow> Inl err | Inr views \<Rightarrow> Inr (view # views)))"

definition handleRules :: "(string \<Rightarrow> string) \<Rightarrow> (string \<Rightarrow> string) \<Rightarrow> rule_set \<Rightarrow> string \<Rightarrow> query \<Rightarrow> api_error + rule_set_view" where
  "handleRules ul uq rules domain q =
     (case api_snapshot rules domain of
        Inl err \<Rightarrow> Inl err
      | Inr (snap, version) \<Rightarrow>
          (case checkQueryNames q [''path'', ''method'', ''absent''] of
             Some err \<Rightarrow> Inl err
           | None \<Rightarrow>
               let path = query_Get q ''path''; m = query_Get q ''method'' in
               if path = [] \<and> m \<noteq> [] then
                 Inl (invalid ''method filters a route match and is meaningful only with path'' [''method''])
               else case parseScope snap q of
                 Inl err \<Rightarrow> Inl err
               | Inr sc \<Rightarrow>
                   (case unnormalized ul uq snap (sc_values sc) (capturedKeys snap []) axisField of
                      Some err \<Rightarrow> Inl err
                    | None \<Rightarrow>
                        (case rules_loop sc path (selectTargets snap path m) of
                           Inl err \<Rightarrow> Inl err
                         | Inr views \<Rightarrow>
                             Inr \<lparr>sv_Domain = sn_Domain snap, sv_RuleSetVersion = version, sv_EffectiveKeys = sn_EffectiveKeys snap,
                                  sv_ListValuedKeys = ListValuedKeys snap, sv_Blocks = views\<rparr>))))"

section \<open>Compiled blocks\<close>

lemma compileMappings_named:
  "compileMappings declared s env kms = (s', env', ps) \<Longrightarrow> [] \<notin> set (gm_keys (env_keys env)) \<Longrightarrow> [] \<notin> set (gm_keys (env_keys env'))"
proof (induction declared s env kms arbitrary: s' env' ps rule: compileMappings.induct)
  case (2 declared s env km kms)
  show ?case
  proof (cases "km_Key km \<in> set declared")
    case True
    obtain s1 e1 p1 where "compileMappings declared s env kms = (s1, e1, p1)" using prod_cases3 by blast
    then show ?thesis using 2(1) [OF True] 2(4,5) True by simp
  next
    case False
    show ?thesis
    proof (cases "compileKeyMapping km")
      case (Inl problem)
      obtain s1 e1 p1 where "compileMappings (km_Key km # declared) s env kms = (s1, e1, p1)" using prod_cases3 by blast
      then show ?thesis using 2(2) [OF False Inl] 2(4,5) False Inl by simp
    next
      case (Inr ex)
      have "km_Key km \<noteq> []" using compileKeyMapping_Inr(3) [OF Inr] keyName_not_Nil by blast
      then have "[] \<notin> set (gm_keys (AList.update (km_Key km) (ke_Type ex = ValueStringArray) (env_keys env)))"
        using 2(5) unfolding set_update_keys by (metis insert_iff)
      then show ?thesis using 2(3) [OF False Inr] 2(4) False Inr by simp
    qed
  qed
qed auto

lemma env_keys_named: "compileEnvironment domain (Some p) = (env, ps) \<Longrightarrow> [] \<notin> set (gm_keys (env_keys env))"
proof -
  assume E: "compileEnvironment domain (Some p) = (env, ps)"
  obtain s e p1 where m: "compileMappings [] False
      \<lparr>env_keys = builtin_keys, env_groups = [], env_extraction = []\<rparr> (p_Mappings p) = (s, e, p1)"
    using prod_cases3 by blast
  have "[] \<notin> set (gm_keys (env_keys e))"
    using compileMappings_named [OF m] by (simp add: builtin_keys_def model_consts)
  moreover have "env_keys env = env_keys e"
    using E m by (auto simp: compileEnvironment_def Let_def split: prod.splits if_splits)
  ultimately show ?thesis by simp
qed

lemma blockKeys_named:
  assumes "[] \<notin> set (gm_keys (env_keys env))" "[] \<notin> set captures"
  shows "map_of (blockKeys_of env captures) [] = None"
proof -
  have "map_of (fold (\<lambda>capture keys. AList.update capture False keys) captures keys) [] = map_of keys []" for keys :: "bool gomap"
    using assms(2) by (induction captures arbitrary: keys) (auto simp: update_conv')
  then show ?thesis using assms(1) by (simp add: blockKeys_of_def map_of_eq_None_iff)
qed

lemma route_kept_routes:
  assumes "list_all2 route_kept rs (cb_Routes cb)" "cr \<in> set (cb_Routes cb)"
  shows "cr_Type cr = PathTemplate \<or> cr_Segments cr = []" and "c \<in> set (seg_captures (cr_Segments cr)) \<Longrightarrow> capture_ok c"
proof -
  obtain r where k: "route_kept r cr" using list_all2_right_mem [OF assms] by blast
  then show "cr_Type cr = PathTemplate \<or> cr_Segments cr = []" by (auto simp: route_kept_def)
  show "capture_ok c" if "c \<in> set (seg_captures (cr_Segments cr))"
    using k that by (fastforce simp: route_kept_def template_ok_def seg_ok_def seg_captures_def split: if_splits)
qed

lemma kept_block_wf:
  assumes named: "[] \<notin> set (gm_keys (env_keys env))" and K: "block_kept namespace domain env b cb"
  shows "routes_ok cb" and "rules_ok cb"
proof -
  have R: "list_all2 route_kept (t_Routes (b_Target b)) (cb_Routes cb)" using K by (simp add: block_kept_def)
  have ok: "capture_ok c" if "c \<in> set (cb_Captures cb)" for c
    using K that route_kept_routes(2) [OF R] by (auto simp: block_kept_def)
  then have caps: "KeyPath \<notin> set (cb_Captures cb)" "KeyMethod \<notin> set (cb_Captures cb)" "[] \<notin> set (cb_Captures cb)"
    using keyName_not_Nil by (auto simp: capture_ok_def)
  then show "routes_ok cb" using K route_kept_routes(1) [OF R] by (auto simp: routes_ok_def block_kept_def)
  let ?keys = "blockKeys_of env (cb_Captures cb)"
  have none: "map_of ?keys [] = None" using blockKeys_named [OF named caps(3)] .
  have L: "list_all2 (rule_kept namespace domain env b ?keys) (b_Rules b) (cb_Rules cb)" using K by (simp add: block_kept_def)
  then have "map ru_Name (b_Rules b) = map cu_Name (cb_Rules cb)" by (rule list_all2_map_eq) (simp add: rule_kept_def)
  moreover have "cu_Name cu \<notin> set (cu_ReplacedRules cu) \<and> keys_named cu" if cu: "cu \<in> set (cb_Rules cb)" for cu
  proof -
    obtain r where r: "r \<in> set (b_Rules b)" "rule_kept namespace domain env b ?keys r cu" using list_all2_right_mem [OF L cu] by blast
    have "cp_Key c \<noteq> []" if c: "c \<in> set (cu_Matches cu)" for c
    proof -
      have "list_all2 (pred_kept env ?keys) (ru_Matches r) (cu_Matches cu)" using r(2) by (simp add: rule_kept_def)
      then obtain p where "pred_kept env ?keys p c" using list_all2_right_mem [OF _ c] by blast
      then show ?thesis using none by (auto simp: pred_kept_def)
    qed
    moreover have "[] \<notin> set (cu_Counters cu)" using r(2) none by (auto simp: rule_kept_def)
    moreover have "cu_Name cu \<notin> set (cu_ReplacedRules cu)"
    proof -
      have "replaced_ok (cb_Mode cb) (map ru_Name (b_Rules b)) r" using K r(1) unfolding block_kept_def by blast
      moreover have "cu_Name cu = ru_Name r" "cu_ReplacedRules cu = ru_ReplacedRules r" using r(2) by (simp_all add: rule_kept_def)
      ultimately show ?thesis unfolding replaced_ok_def by (metis empty_iff list.set(1))
    qed
    ultimately show ?thesis by (simp add: keys_named_def)
  qed
  ultimately show "rules_ok cb" using K by (simp add: rules_ok_def block_kept_def)
qed

lemma compiled_blocks_ok:
  assumes "Compile namespace domain (Some p) = Some (snap, problems)" "cb \<in> set (sn_Blocks snap)"
  shows "routes_ok cb \<and> rules_ok cb"
  using assms(1)
proof (cases rule: Compile_cases)
  case refused
  then show ?thesis using assms(2) by simp
next
  case (accepted env p0 p1)
  then have "list_all2 (block_kept namespace domain env) (p_Blocks p) (sn_Blocks snap)"
    using compileBlocks_accepted by simp
  then obtain b where "block_kept namespace domain env b cb" using list_all2_right_mem [OF _ assms(2)] by blast
  then show ?thesis using kept_block_wf [OF env_keys_named [OF accepted(2)]] by blast
qed

section \<open>The listing is sound\<close>

lemma rules_loop_views:
  assumes "rules_loop sc path targets = Inr views" "target \<in> set targets" "path \<noteq> []"
  shows "\<exists>view \<in> set views. bv_Block view = cb_Name (mt_Block target) \<and>
    (if sc_present sc then \<exists>question. forTarget sc target = Inr question \<and> view = annotate (mt_Block target) (view_Block (mt_Block target)) question
     else view = view_Block (mt_Block target))"
  using assms(1,2)
proof (induction targets arbitrary: views)
  case (Cons t targets)
  obtain v vs where vs: "rules_loop sc path targets = Inr vs" "views = v # vs"
    and v: "if sc_present sc then \<exists>question. forTarget sc t = Inr question \<and> v = annotate (mt_Block t) (view_Block (mt_Block t)) question
      else v = view_Block (mt_Block t)"
    using Cons.prems(1) assms(3) by (auto simp: Let_def split: sum.splits if_splits)
  show ?case
  proof (cases "target = t")
    case True
    have "bv_Block v = cb_Name (mt_Block t)" using v by (auto simp: annotate_def Let_def view_Block_def split: if_splits)
    then show ?thesis using True v vs(2) by simp
  next
    case False
    then have "target \<in> set targets" using Cons.prems(2) by simp
    from Cons.IH [OF vs(1) this] vs(2) show ?thesis by auto
  qed
qed simp

lemma Match_hit:
  assumes "h \<in> set (cd_hits (Match snap path m))"
  obtains r where "h_block h \<in> set (sn_Blocks snap)"
    "matchTarget (h_block h) (fst (Cut path (CHR ''?''))) m = Some (r, h_pathAxis h, h_captures h)"
  using assms by (auto simp: Match_def List.map_filter_def matchBlock_def split: prod.splits option.splits)

text \<open>The filter finds every block the engine evaluates for the request, and what it says of a capture is what the engine
  captures, whatever the method the caller left out.\<close>

lemma selected_target:
  assumes "path \<noteq> []" "h \<in> set (cd_hits (Match snap path m))" "qm = [] \<or> qm = m"
  obtains target where "target \<in> set (selectTargets snap path qm)" "mt_Block target = h_block h"
    "\<And>n. n \<in> set (cb_Captures (h_block h)) \<Longrightarrow> n \<notin> set (mt_Undecided target) \<Longrightarrow> map_of (mt_Captures target) n = map_of (h_captures h) n"
proof (cases "qm = []")
  case False
  then have "\<lparr>mt_Block = h_block h, mt_Captures = h_captures h, mt_Undecided = []\<rparr> \<in> set (selectTargets snap path qm)"
    using assms by (simp add: selectTargets_def Targets_def)
  then show thesis using that by force
next
  case True
  let ?p = "fst (Cut path (CHR ''?''))" and ?b = "h_block h"
  obtain r where h: "?b \<in> set (sn_Blocks snap)" "matchTarget ?b ?p m = Some (r, h_pathAxis h, h_captures h)"
    using Match_hit [OF assms(2)] by blast
  note agree = targetByPath_agrees [of ?b ?p]
  obtain t where t: "targetByPath ?b ?p = Some t" using agree h(2) by (cases "targetByPath ?b ?p") auto
  then have blk: "mt_Block t = ?b" by (auto simp: targetByPath_def Let_def split: if_splits)
  have "capture_of ?b ?p n m = map_of (h_captures h) n" for n using h(2) by (simp add: capture_of_def)
  then have "map_of (mt_Captures t) n = map_of (h_captures h) n"
    if "n \<in> set (cb_Captures ?b)" "n \<notin> set (mt_Undecided t)" for n
    using agree [unfolded t option.case] h(2) that by (metis option.distinct(1))
  moreover have "t \<in> set (selectTargets snap path qm)"
    using True assms(1) t h(1) by (force simp: selectTargets_def TargetsByPath_def List.map_filter_def)
  ultimately show thesis using that blk by blast
qed

lemma parseScope_effective: "parseScope snap q = Inr sc \<Longrightarrow> sc_effective sc = sn_EffectiveKeys snap"
proof -
  have axes: "parseScope_axes snap q sc0 = Inr sc1 \<Longrightarrow> sc_effective sc1 = sc_effective sc0" for sc0 sc1
    by (induction snap q sc0 rule: parseScope_axes.induct) (auto simp: Let_def declare_key_def split: option.splits if_splits)
  have absent: "parseScope_absent snap names sc0 = Inr sc1 \<Longrightarrow> sc_effective sc1 = sc_effective sc0" for names sc0 sc1
    by (induction snap names sc0 rule: parseScope_absent.induct) (auto simp: declare_key_def split: if_splits)
  assume "parseScope snap q = Inr sc"
  then show ?thesis using axes absent by (fastforce simp: parseScope_def split: sum.splits)
qed

lemma unannotated: "i < length (cb_Rules block) \<Longrightarrow> uv_Applicability (bv_Rules (view_Block block) ! i) = []"
  by (simp add: view_Block_def view_Rule_def)


definition sample_rules :: rule_set where
  "sample_rules = NewRuleSet (Some [(''gw'', zero_domain\<lparr>do_Snapshot := Some sample_snapshot, do_Version := ''7c31a9f4e0d2''\<rparr>)])"

definition sample_question :: query where
  "sample_question = [(''path'', [''/orders/7'']), (''axis.sub'', [''ann'']), (''axis.plan'', [''gold''])]"

definition sample_scope :: scope where
  "sample_scope = \<lparr>sc_values = [(''sub'', [''ann'']), (''plan'', [''gold''])], sc_declared = [''plan'', ''sub''], sc_present = True,
     sc_effective = sn_EffectiveKeys sample_snapshot\<rparr>"

definition sample_hit :: hit where
  "sample_hit = \<lparr>h_block = sample_block, h_pathAxis = ''/orders/{orderId}'', h_captures = [(''orderId'', ''7'')], h_cost = 2\<rparr>"

definition sample_identity :: "string list gomap" where
  "sample_identity = [(''sub'', [''ann'']), (''plan'', [''gold''])]"

definition sample_ctx :: block_ctx where
  "sample_ctx = hit_ctx (Match sample_snapshot ''/orders/7'' ''GET'') sample_identity 1 sample_hit"

lemma describes_code:
  "(\<forall>(name, ws) \<in> set (sc_values sc).
     let vs = (if name \<in> set (sc_effective sc) \<and> name \<notin> {KeyPath, KeyMethod} then identity_of ctx name else valueOf ctx name)
     in set vs = set ws \<and> length vs = length ws) \<Longrightarrow> describes sc ctx"
  by (fastforce simp: describes_def dest: map_of_SomeD)

lemma sample_describes: "describes sample_scope sample_ctx"
  by (rule describes_code) code_simp


section \<open>Without a path\<close>

text \<open>A domain that maps the claim \<open>ext.plan\<close> and has a block whose template captures the same name.\<close>

definition shadow_policy :: policy where
  "shadow_policy = sample_policy\<lparr>
     p_Blocks := [\<lparr>b_Name = ''plans'',
        b_Target = \<lparr>t_Routes = [\<lparr>r_Path = \<lparr>pm_Type = ''Template'', pm_Value = ''/plans/{plan}''\<rparr>, r_Methods = [], r_Cost = None\<rparr>]\<rparr>,
        b_Mode = [],
        b_Rules = [\<lparr>ru_Name = ''gold'',
           ru_Matches = [\<lparr>pd_Key = ''plan'', pd_Operator = ''Equals'', pd_Value = ''gold'', pd_Values = []\<rparr>],
           ru_Counters = [''sub''],
           ru_Rates = [\<lparr>ra_Requests = 5, ra_Period = 60000000000, ra_Burst = 0, ra_Algorithm = ''FixedWindow''\<rparr>],
           ru_Behavior = [], ru_ReplacedRules = []\<rparr>]\<rparr>]\<rparr>"

definition shadow_rules :: rule_set where
  "shadow_rules = NewRuleSet (Some [(''gw'', zero_domain\<lparr>do_Snapshot := map_option fst (Compile ''ns'' ''gw'' (Some shadow_policy))\<rparr>)])"


end
