(* ===== verification/Mgmt_Keys.thy ===== *)
theory Mgmt_Keys
  imports Applicability Redis_Scan
begin

text \<open>
  Counter keys read back (\<open>service/internal/management/keys.go\<close>) and the grammar that selects counters
  (\<open>service/internal/management/selector.go\<close>). The decoder inverts the encoder of \<open>engine/key\<close>, and a selection prints and
  compares in one canonical form. \<open>strconv.ParseInt\<close> and \<open>time.ParseDuration\<close> of the standard library are modelled here; the
  fractions of a duration go through IEEE doubles, as in Go.
\<close>

section \<open>Keys\<close>

record counterKey =
  ck_RuleID :: string
  ck_Block :: string
  ck_Rule :: string
  ck_Algorithm :: string
  ck_PeriodSeconds :: int
  ck_RatePrefix :: string
  ck_Axes :: "string list"

definition hexDigit_value :: "char \<Rightarrow> nat result" where
  "hexDigit_value c =
     (if CHR ''0'' \<le> c \<and> c \<le> CHR ''9'' then Inr (of_char c - 48)
      else if CHR ''A'' \<le> c \<and> c \<le> CHR ''F'' then Inr (of_char c - 65 + 10)
      else if CHR ''a'' \<le> c \<and> c \<le> CHR ''f'' then Inr (of_char c - 97 + 10)
      else Inl (Errorf ''invalid percent escape digit %q'' [FStr [c]]))"

fun unescape_loop :: "string \<Rightarrow> string \<Rightarrow> string result" where
  "unescape_loop segment [] = Inr []"
| "unescape_loop segment (c # r) =
     (if c \<noteq> CHR ''%'' then (case unescape_loop segment r of Inl err \<Rightarrow> Inl err | Inr out \<Rightarrow> Inr (c # out))
      else case r of
        a # b # r' \<Rightarrow>
          (case hexDigit_value a of
             Inl err \<Rightarrow> Inl err
           | Inr high \<Rightarrow>
               (case hexDigit_value b of
                  Inl err \<Rightarrow> Inl err
                | Inr low \<Rightarrow>
                    (case unescape_loop segment r' of Inl err \<Rightarrow> Inl err | Inr out \<Rightarrow> Inr (char_of (16 * high + low) # out))))
      | _ \<Rightarrow> Inl (Errorf ''truncated percent escape in %q'' [FStr segment]))"

definition unescapeSegment :: "string \<Rightarrow> string result" where
  "unescapeSegment segment = (if CHR ''%'' \<notin> set segment then Inr segment else unescape_loop segment segment)"

definition splitRuleSegment :: "string \<Rightarrow> (string \<times> string) result" where
  "splitRuleSegment segment =
     (case Split segment (CHR ''/'') of
        [p, q] \<Rightarrow>
          (case unescapeSegment p of
             Inl err \<Rightarrow> Inl err
           | Inr block \<Rightarrow>
               if block = [] then Inl (Errorf ''the rule segment %q carries an empty part'' [FStr segment])
               else case unescapeSegment q of
                 Inl err \<Rightarrow> Inl err
               | Inr rule \<Rightarrow>
                   if rule = [] then Inl (Errorf ''the rule segment %q carries an empty part'' [FStr segment])
                   else Inr (block, rule))
      | _ \<Rightarrow> Inl (Errorf ''the rule segment %q is not block/rule'' [FStr segment]))"

text \<open>\<open>strconv.ParseInt\<close> in base 10 and 64 bits.\<close>

definition ParseInt64 :: "string \<Rightarrow> int option" where
  "ParseInt64 s =
     (case s of
        [] \<Rightarrow> None
      | c # r \<Rightarrow>
          let neg = (c = CHR ''-''); digits = (if c = CHR ''-'' \<or> c = CHR ''+'' then r else s)
          in case ParseUint64 digits of
               None \<Rightarrow> None
             | Some n \<Rightarrow>
                 if \<not> neg \<and> int n \<ge> 2 ^ 63 \<or> neg \<and> int n > 2 ^ 63 then None
                 else Some (if neg then - int n else int n))"

fun axes_parse :: "string list \<Rightarrow> string list result" where
  "axes_parse [] = Inr []"
| "axes_parse (f # fs) =
     (case unescapeSegment f of
        Inl err \<Rightarrow> Inl err
      | Inr val \<Rightarrow> (case axes_parse fs of Inl err \<Rightarrow> Inl err | Inr vals \<Rightarrow> Inr (val # vals)))"

definition parseCounterKey :: "string \<Rightarrow> string \<Rightarrow> string \<Rightarrow> counterKey result option" where
  "parseCounterKey namespace domain k = do {
     prefix \<leftarrow> DomainPrefix namespace domain;
     Some (
       if \<not> HasPrefix k prefix then Inl (Errorf ''key %q does not belong to domain %q'' [FStr k, FStr domain])
       else
         let split = Split (drop (length prefix) k) (CHR '':'');
             fields = (if last split = [] then butlast split else split)
         in case fields of
              f0 # f1 # f2 # fs \<Rightarrow>
                (case splitRuleSegment f0 of
                   Inl err \<Rightarrow> Inl (Errorf ''key %q: %w'' [FStr k, FErr err])
                 | Inr (block, rule) \<Rightarrow>
                     (case ParseInt64 f2 of
                        None \<Rightarrow> Inl (Errorf ''key %q carries a period that is not a whole number of seconds: %q'' [FStr k, FStr f2])
                      | Some period \<Rightarrow>
                          (case axes_parse fs of
                             Inl err \<Rightarrow> Inl (Errorf ''key %q: %w'' [FStr k, FErr err])
                           | Inr axes \<Rightarrow>
                               Inr \<lparr>ck_RuleID = view_ID block rule, ck_Block = block, ck_Rule = rule, ck_Algorithm = f1,
                                    ck_PeriodSeconds = period, ck_RatePrefix = prefix @ Join [f0, f1, f2] (CHR '':'') @ '':'',
                                    ck_Axes = axes\<rparr>)))
            | _ \<Rightarrow> Inl (Errorf ''key %q carries %d segments, fewer than the rule, algorithm, and period the layout requires''
                     [FStr k, FInt (int (length fields))]))
   }"

definition namedAxes :: "counterKey \<Rightarrow> string list \<Rightarrow> string gomap result" where
  "namedAxes c names =
     (if length (ck_Axes c) \<noteq> length names then
        Inl (Errorf ''a counter of %s carries %d axis values but the rule declares %d''
          [FStr (ck_RuleID c), FInt (int (length (ck_Axes c))), FInt (int (length names))])
      else Inr (fold (\<lambda>(n, v) axes. AList.update n v axes) (zip names (ck_Axes c)) []))"

section \<open>Durations\<close>

text \<open>\<open>time.ParseDuration\<close>. A \<open>uint64\<close> is an \<^typ>\<open>int\<close> with the wrap-around written out, a \<open>float64\<close> a rational rounded
  after every operation.\<close>

fun leadingInt :: "int \<Rightarrow> string \<Rightarrow> (int \<times> string) option" where
  "leadingInt x [] = Some (x, [])"
| "leadingInt x (c # s) =
     (if \<not> isDigit c then Some (x, c # s)
      else if x > 2 ^ 63 div 10 then None
      else let y = x * 10 + (of_char c - 48) in if y > 2 ^ 63 then None else leadingInt y s)"

fun leadingFraction :: "int \<Rightarrow> rat \<Rightarrow> bool \<Rightarrow> string \<Rightarrow> int \<times> rat \<times> string" where
  "leadingFraction x scale overflow [] = (x, scale, [])"
| "leadingFraction x scale overflow (c # s) =
     (if \<not> isDigit c then (x, scale, c # s)
      else if overflow \<or> x > (2 ^ 63 - 1) div 10 then leadingFraction x scale True s
      else let y = x * 10 + (of_char c - 48) in
        if y > 2 ^ 63 then leadingFraction x scale True s else leadingFraction y (lmul scale 10) False s)"

definition unitMap :: "int gomap" where
  "unitMap =
     [(''ns'', 1), (''us'', 1000), ([byte 0xC2, byte 0xB5, CHR ''s''], 1000), ([byte 0xCE, byte 0xBC, CHR ''s''], 1000),
      (''ms'', 1000000), (''s'', 1000000000), (''m'', 60000000000), (''h'', 3600000000000)]"

definition duration_item :: "string \<Rightarrow> (int \<times> string) option" where
  "duration_item s =
     (if \<not> (hd s = CHR ''.'' \<or> isDigit (hd s)) then None
      else case leadingInt 0 s of
        None \<Rightarrow> None
      | Some (v, s1) \<Rightarrow>
          let pre = (length s \<noteq> length s1);
              dot = (s1 \<noteq> [] \<and> hd s1 = CHR ''.'');
              (f, scale, s2) = (if dot then leadingFraction 0 1 False (tl s1) else (0, 1, s1));
              post = (dot \<and> length (tl s1) \<noteq> length s2);
              u = takeWhile (\<lambda>c. \<not> (c = CHR ''.'' \<or> isDigit c)) s2
          in if \<not> pre \<and> \<not> post \<or> u = [] then None
             else case map_of unitMap u of
               None \<Rightarrow> None
             | Some unit \<Rightarrow>
                 if v > 2 ^ 63 div unit then None
                 else
                   let v1 = (if f > 0 then (v * unit + \<lfloor>lmul (dbl (of_int f)) (ldiv (of_int unit) scale)\<rfloor>) mod 2 ^ 64 else v * unit)
                   in if f > 0 \<and> v1 > 2 ^ 63 then None else Some (v1, drop (length u) s2))"

lemma leadingInt_suffix: "leadingInt x s = Some (v, r) \<Longrightarrow> length r \<le> length s"
  by (induction x s rule: leadingInt.induct) (fastforce simp: Let_def split: if_splits)+

lemma leadingFraction_suffix: "leadingFraction x sc ov s = (v, sc', r) \<Longrightarrow> length r \<le> length s"
  by (induction x sc ov s rule: leadingFraction.induct) (fastforce simp: Let_def split: if_splits)+

lemma duration_item_shorter: "s \<noteq> [] \<Longrightarrow> duration_item s = Some (v, r) \<Longrightarrow> length r < length s"
proof -
  assume a: "s \<noteq> []" "duration_item s = Some (v, r)"
  from a(2) obtain w s1 where s1: "leadingInt 0 s = Some (w, s1)" by (auto simp: duration_item_def split: if_splits option.splits)
  let ?dot = "s1 \<noteq> [] \<and> hd s1 = CHR ''.''"
  obtain f sc s2 where s2: "(if ?dot then leadingFraction 0 1 False (tl s1) else (0, 1, s1)) = (f, sc, s2)" using prod_cases3 by blast
  have l2: "length s2 \<le> length s1"
    using s2 leadingFraction_suffix [of 0 1 False "tl s1" f sc s2] by (auto split: if_splits intro: le_trans)
  let ?u = "takeWhile (\<lambda>c. \<not> (c = CHR ''.'' \<or> isDigit c)) s2"
  have "?u \<noteq> [] \<and> r = drop (length ?u) s2"
    using a(2) s1 unfolding duration_item_def s1 option.case prod.case Let_def s2
    by (auto split: if_splits option.splits)
  then have "length r < length s2" by (cases s2) auto
  then show ?thesis using leadingInt_suffix [OF s1] l2 by linarith
qed

function ParseDuration_loop :: "int \<Rightarrow> string \<Rightarrow> int option" where
  "ParseDuration_loop d s =
     (if s = [] then Some d
      else case duration_item s of
        None \<Rightarrow> None
      | Some (v, r) \<Rightarrow> let d' = (d + v) mod 2 ^ 64 in if d' > 2 ^ 63 then None else ParseDuration_loop d' r)"
  by pat_completeness auto
termination
  by (relation "measure (\<lambda>(d, s). length s)") (auto intro: duration_item_shorter)

declare ParseDuration_loop.simps [simp del]

definition ParseDuration :: "string \<Rightarrow> int option" where
  "ParseDuration orig =
     (let neg = (orig \<noteq> [] \<and> hd orig = CHR ''-'');
          s = (if orig \<noteq> [] \<and> (hd orig = CHR ''-'' \<or> hd orig = CHR ''+'') then tl orig else orig)
      in if s = ''0'' then Some 0
         else if s = [] then None
         else case ParseDuration_loop 0 s of
           None \<Rightarrow> None
         | Some d \<Rightarrow>
             if neg then Some (wrap64 (- wrap64 d))
             else if d > 2 ^ 63 - 1 then None else Some d)"

section \<open>Selections\<close>

record selector =
  se_RuleIDs :: "string list"
  se_Algorithm :: string
  se_PeriodSeconds :: int
  se_Axes :: "string list gomap"
  se_LimitedOnly :: bool

definition selector_json :: "selector \<Rightarrow> json" where
  "selector_json s = JObject (
     omit_empty (se_RuleIDs s) ''ruleIds'' (jstrings (se_RuleIDs s)) @
     omit_empty (se_Algorithm s) ''algorithm'' (JString (se_Algorithm s)) @
     (if se_PeriodSeconds s = 0 then [] else [(''periodSeconds'', JNumber (FormatInt (se_PeriodSeconds s)))]) @
     omit_empty (se_Axes s) ''axes'' (JObject (map (\<lambda>(k, vs). (k, jstrings vs)) (sort_key fst (se_Axes s)))) @
     (if se_LimitedOnly s then [(''limited'', JBool True)] else []))"

definition canonical :: "selector \<Rightarrow> string" where
  "canonical s = json_text (selector_json s)"

definition fingerprint :: "(string \<Rightarrow> string) \<Rightarrow> selector \<Rightarrow> string" where
  "fingerprint sha s = take 16 (EncodeToString (sha (canonical s)))"

definition checkRuleIDForm :: "string \<Rightarrow> string \<Rightarrow> api_error option" where
  "checkRuleIDForm i field =
     (let parts = Split i (CHR ''/'') in
      if length parts > 2 then
        Some (invalid (''the rule id '' @ logSafe i @
          '' has more than the two block/rule segments; the policy segment the layout used to carry is gone, because a domain has exactly one policy'') [field])
      else if [] \<in> set parts then
        Some (invalid (''the rule id '' @ logSafe i @ '' carries an empty segment; use block or block/rule'') [field])
      else None)"

definition parsePeriod :: "string \<Rightarrow> string \<Rightarrow> api_error + int" where
  "parsePeriod raw field =
     (case ParseInt64 raw of
        Some seconds \<Rightarrow>
          if seconds \<le> 0 then Inl (invalid ''the period must be a positive number of seconds'' [field]) else Inr seconds
      | None \<Rightarrow>
          (case ParseDuration raw of
             None \<Rightarrow> Inl (invalid (''the period '' @ logSafe raw @ '' is neither a number of seconds nor a duration such as 1m or 24h'') [field])
           | Some period \<Rightarrow>
               if period \<le> 0 \<or> rem64 period Second \<noteq> 0 then Inl (invalid ''the period must be a positive whole number of seconds'' [field])
               else Inr (quo64 period Second)))"

definition parseEnumTrue :: "query \<Rightarrow> string \<Rightarrow> bool \<Rightarrow> api_error + bool" where
  "parseEnumTrue q name out =
     (let raw = query_Get q name in
      if raw = [] then Inr out
      else if raw = ''true'' then Inr True
      else Inl (invalid (''the only value of '' @ name @ '' is true; omit the parameter instead of passing '' @ logSafe raw) [name]))"

fun parseAxes :: "query \<Rightarrow> string list gomap \<Rightarrow> api_error + string list gomap" where
  "parseAxes [] axes = Inr axes"
| "parseAxes ((parameter, vs) # q) axes =
     (if \<not> HasPrefix parameter axisPrefix then parseAxes q axes
      else
        let name = drop (length axisPrefix) parameter in
        if name = [] then Inl (invalid (''an axis parameter needs a name after '' @ axisPrefix) [parameter])
        else if [] \<in> set vs then Inl (invalid (''axis '' @ logSafe name @ '' has an empty value, which addresses no counter'') [parameter])
        else parseAxes q (AList.update name (sortedUnique vs) axes))"

fun ruleIDs_check :: "string list \<Rightarrow> api_error option" where
  "ruleIDs_check [] = None"
| "ruleIDs_check (i # ids) = (case checkRuleIDForm i ''ruleId'' of Some err \<Rightarrow> Some err | None \<Rightarrow> ruleIDs_check ids)"

definition parseSelector :: "(string \<Rightarrow> string) \<Rightarrow> query \<Rightarrow> api_error + selector" where
  "parseSelector ul q =
     (case ruleIDs_check (query_values q ''ruleId'') of
        Some err \<Rightarrow> Inl err
      | None \<Rightarrow>
          let alg = (if query_Get q ''algorithm'' \<noteq> [] then ToLower ul (query_Get q ''algorithm'') else []);
              raw = query_Get q ''period''
          in case (if raw \<noteq> [] then parsePeriod raw ''period'' else Inr 0) of
               Inl err \<Rightarrow> Inl err
             | Inr seconds \<Rightarrow>
                 (case parseEnumTrue q ''limited'' False of
                    Inl err \<Rightarrow> Inl err
                  | Inr limited \<Rightarrow>
                      (case parseAxes q [] of
                         Inl err \<Rightarrow> Inl err
                       | Inr axes \<Rightarrow>
                           Inr \<lparr>se_RuleIDs = sortedUnique (query_values q ''ruleId''), se_Algorithm = alg, se_PeriodSeconds = seconds,
                                se_Axes = axes, se_LimitedOnly = limited\<rparr>)))"

definition selectorParams :: "string list \<Rightarrow> string list" where
  "selectorParams extra = [''ruleId'', ''algorithm'', ''period'', ''limited''] @ extra"

definition matchesRuleID :: "string \<Rightarrow> counterKey \<Rightarrow> bool" where
  "matchesRuleID i parsed =
     (case Split i (CHR ''/'') of
        [block] \<Rightarrow> ck_Block parsed = block
      | [_, _] \<Rightarrow> ck_RuleID parsed = i
      | _ \<Rightarrow> False)"

definition selector_matches :: "selector \<Rightarrow> counterKey \<Rightarrow> bool" where
  "selector_matches s parsed =
     (if se_Algorithm s \<noteq> [] \<and> ck_Algorithm parsed \<noteq> se_Algorithm s then False
      else if se_PeriodSeconds s \<noteq> 0 \<and> ck_PeriodSeconds parsed \<noteq> se_PeriodSeconds s then False
      else if se_RuleIDs s = [] then True
      else list_ex (\<lambda>i. matchesRuleID i parsed) (se_RuleIDs s))"

definition matchesAxes :: "selector \<Rightarrow> string gomap \<Rightarrow> bool" where
  "matchesAxes s axes =
     list_all (\<lambda>(name, wanted). case map_of axes name of None \<Rightarrow> False | Some val \<Rightarrow> val \<in> set wanted) (se_Axes s)"

section \<open>The decoder inverts the encoder\<close>

lemma hexDigit_values:
  "hexDigit_value (CHR ''2'') = Inr 2" "hexDigit_value (CHR ''3'') = Inr 3" "hexDigit_value (CHR ''5'') = Inr 5"
  "hexDigit_value (CHR ''7'') = Inr 7" "hexDigit_value (CHR ''A'') = Inr 10" "hexDigit_value (CHR ''B'') = Inr 11"
  "hexDigit_value (CHR ''D'') = Inr 13" "hexDigit_value (CHR ''F'') = Inr 15"
  by (code_simp)+

lemma reserved_codes:
  "char_of (37 :: nat) = CHR ''%''" "char_of (58 :: nat) = CHR '':''" "char_of (47 :: nat) = CHR ''/''"
  "char_of (123 :: nat) = CHR ''{''" "char_of (125 :: nat) = CHR ''}''"
  by (simp_all add: char_of_eq_iff)

lemma unescape_loop_escape: "unescape_loop s (escape v) = Inr v"
  by (induction v) (simp_all add: escape_byte_cases hexDigit_values reserved_codes)

lemma unescapeSegment_escape [simp]: "unescapeSegment (escape v) = Inr v"
proof (cases "CHR ''%'' \<in> set (escape v)")
  case False
  moreover have "unescape_loop s r = Inr r" if "CHR ''%'' \<notin> set r" for s r using that by (induction r) auto
  ultimately show ?thesis using unescape_loop_escape [of "escape v" v] by (simp add: unescapeSegment_def)
qed (simp add: unescapeSegment_def unescape_loop_escape)

lemma axes_parse_escape [simp]: "axes_parse (map escape axes) = Inr axes"
  by (induction axes) simp_all

lemma splitRuleSegment_escape:
  assumes "block \<noteq> []" "rule \<noteq> []"
  shows "splitRuleSegment (escape block @ CHR ''/'' # escape rule) = Inr (block, rule)"
proof -
  have "Split (Join [escape block, escape rule] (CHR ''/'')) (CHR ''/'') = [escape block, escape rule]"
    by (rule Split_Join) auto
  then show ?thesis using assms by (simp add: splitRuleSegment_def)
qed

lemma ParseInt64_FormatInt:
  assumes "0 \<le> n" "n < 2 ^ 63"
  shows "ParseInt64 (FormatInt n) = Some n"
proof -
  obtain c r where f: "FormatNat (nat n) = c # r" by (cases "FormatNat (nat n)") auto
  then have "isDigit c" using FormatNat_digits [of c "nat n"] by simp
  then have "c \<noteq> CHR ''-''" "c \<noteq> CHR ''+''" by (auto simp: isDigit_def less_eq_char_def)
  moreover have "ParseUint64 (c # r) = Some (nat n)" using ParseUint64_FormatNat [of "nat n"] assms f by simp
  ultimately show ?thesis using assms f by (simp add: ParseInt64_def FormatInt_def Let_def)
qed

lemma Split_terminated:
  "\<forall>s \<in> set ss. c \<notin> set s \<Longrightarrow> Split (terminate_all c ss) c = ss @ [[]]"
  by (induction ss) (simp_all add: Split_append)

text \<open>C23. Whatever counter key the engine builds for a rule, the management API reads back as exactly that rule, window and
  identity: every axis value comes back as it went in, whatever bytes it holds, and the prefix is the one compilation built.\<close>

theorem counter_key_roundtrip:
  assumes "RatePrefix i a w = Some p" "Check a w = None" "id_Block i \<noteq> []" "id_Rule i \<noteq> []"
  shows "parseCounterKey (Namespace i) (Domain i) (Bucket p axes) =
    Some (Inr \<lparr>ck_RuleID = view_ID (id_Block i) (id_Rule i), ck_Block = id_Block i, ck_Rule = id_Rule i,
      ck_Algorithm = lower_name (alg_Name a), ck_PeriodSeconds = Period w div Second, ck_RatePrefix = p, ck_Axes = axes\<rparr>)"
proof -
  have ok: "ident_ok i" and p: "p = rule_text i @ rate_text a (quo64 (Period w) Second)"
    using assms(1) by (auto simp: RatePrefix_eq split: if_splits)
  note c = Check_common_ok [OF assms(2)]
  let ?secs = "Period w div Second"
  have secs: "quo64 (Period w) Second = ?secs" "0 \<le> ?secs" using period_seconds [OF c] by auto
  have big: "?secs < 2 ^ 63" using c by (auto simp: common_ok_def algo_consts in64_def)
  define prefix where "prefix = ''rl:v1:{'' @ escape (Namespace i) @ CHR ''/'' # escape (Domain i) @ ''}:''"
  have dp: "DomainPrefix (Namespace i) (Domain i) = Some prefix"
    using ok by (simp add: DomainPrefix_def DomainTag_def ident_ok_def prefix_def schemaVersion_def)
  let ?f0 = "escape (id_Block i) @ CHR ''/'' # escape (id_Rule i)" and ?f1 = "lower_name (alg_Name a)" and ?f2 = "FormatInt ?secs"
  have k: "Bucket p axes = prefix @ terminate_all (CHR '':'') (?f0 # ?f1 # ?f2 # map escape axes)"
    by (simp add: Bucket_eq p secs prefix_def rule_text_def rate_text_def)
  have "Split (terminate_all (CHR '':'') (?f0 # ?f1 # ?f2 # map escape axes)) (CHR '':'') = (?f0 # ?f1 # ?f2 # map escape axes) @ [[]]"
    by (rule Split_terminated) (use secs in auto)
  moreover have "p = prefix @ Join [?f0, ?f1, ?f2] (CHR '':'') @ '':''"
    by (simp add: p secs prefix_def rule_text_def rate_text_def)
  ultimately show ?thesis
    unfolding parseCounterKey_def dp k
    using assms(3,4) ParseInt64_FormatInt [OF secs(2) big]
    by (simp add: Let_def splitRuleSegment_escape del: terminate_all_simps)
qed

theorem counter_key_roundtrip_witness:
  "parseCounterKey ''ns'' ''gw'' (Bucket ''rl:v1:{ns/gw}:b/r:gcra:60:'' [''al:ice'', [], ''50%'']) =
     Some (Inr \<lparr>ck_RuleID = ''b/r'', ck_Block = ''b'', ck_Rule = ''r'', ck_Algorithm = ''gcra'', ck_PeriodSeconds = 60,
       ck_RatePrefix = ''rl:v1:{ns/gw}:b/r:gcra:60:'', ck_Axes = [''al:ice'', [], ''50%'']\<rparr>)"
  using counter_key_roundtrip [OF sample_rate_prefix sample_window_ok, of "[''al:ice'', [], ''50%'']"]
  by (simp add: sample_ident_def sample_window_def view_ID_def algo_consts)

end
