(* ===== verification/Mgmt_Reset.thy ===== *)
theory Mgmt_Reset
  imports Mgmt_Keys Record_Ledger
begin

text \<open>
  The addressed reset (\<open>service/internal/management/reset.go\<close> and \<open>handleReset\<close> of \<open>api.go\<close>): a caller names one rule and
  one value for every axis it counts by, and the counters of that identity are dropped, one per window. The handler runs over
  the interface of the record store and the counter store (\<open>reset_ops\<close>); \<open>memory_ops\<close> is the in-process one. SHA-256 is the
  parameter \<open>sha\<close>. Log lines are not modelled.
\<close>

section \<open>The source\<close>

record reset_response =
  rr_Domain :: string
  rr_RuleID :: string
  rr_RuleSetVersion :: string
  rr_Axes :: "string gomap"
  rr_Keys :: "string list"
  rr_DryRun :: bool
  rr_MatchedCount :: "int option"
  rr_ResetCount :: "int option"

record resetCommand =
  rm_Selector :: selector
  rm_DryRun :: bool
  rm_ExpectedVersion :: string
  rm_AxesByName :: "string gomap"
  rm_Ordered :: "string list"
  rm_block :: c_block
  rm_rule :: c_rule

definition reset_command :: "(string \<Rightarrow> string) \<Rightarrow> selector \<Rightarrow> bool \<Rightarrow> string \<Rightarrow> string" where
  "reset_command sha sel dryRun expectedVersion =
     EncodeToString (sha (json_text (JObject ([(''selector'', selector_json sel)] @
       (if dryRun then [(''dryRun'', JBool True)] else []) @
       omit_empty expectedVersion ''expectedRuleSetVersion'' (JString expectedVersion)))))"

definition splitFullID :: "string \<Rightarrow> (string \<times> string) option" where
  "splitFullID i =
     (case Split i (CHR ''/'') of
        [b, r] \<Rightarrow> if b = [] \<or> r = [] then None else Some (b, r)
      | _ \<Rightarrow> None)"

definition findRule :: "snapshot \<Rightarrow> string \<Rightarrow> string \<Rightarrow> (c_block \<times> c_rule) option" where
  "findRule snap block rule =
     find (\<lambda>(cb, cu). cb_Name cb = block \<and> cu_Name cu = rule) (concat (map (\<lambda>cb. map (Pair cb) (cb_Rules cb)) (sn_Blocks snap)))"

fun resolve_loop :: "string \<Rightarrow> string list gomap \<Rightarrow> string list \<Rightarrow> string gomap \<Rightarrow> string list \<Rightarrow> api_error + (string gomap \<times> string list)" where
  "resolve_loop i axes [] named ordered = Inr (named, ordered)"
| "resolve_loop i axes (name # names) named ordered =
     (case query_values axes name of
        [v] \<Rightarrow> resolve_loop i axes names (AList.update name v named) (ordered @ [v])
      | _ \<Rightarrow> Inl (invalid (''axis '' @ logSafe name @ '' of rule '' @ logSafe i @
               '' takes exactly one value here; several values address several counters'') [axisPrefix @ name]))"

definition resolveAxes :: "string \<Rightarrow> c_rule \<Rightarrow> string list gomap \<Rightarrow> api_error + (string gomap \<times> string list)" where
  "resolveAxes i rule axes =
     (let declared = cu_Counters rule; listed = ''['' @ Join declared (CHR '' '') @ '']'' in
      case find (\<lambda>name. name \<notin> set declared) (map fst axes) of
        Some name \<Rightarrow>
          Inl (invalid (''rule '' @ logSafe i @ '' does not count by axis '' @ logSafe name @ ''; it counts by '' @ listed) [axisPrefix @ name])
      | None \<Rightarrow>
          if length axes \<noteq> length declared then
            Inl (invalid (''the addressed reset needs one value for every axis of '' @ logSafe i @ '' '' @ listed @
              ''; a partial selection is a counter-resets action, never a silently wider reset'') [''axis''])
          else resolve_loop i axes declared [] [])"

definition parseReset :: "(string \<Rightarrow> string) \<Rightarrow> snapshot \<Rightarrow> query \<Rightarrow> api_error + resetCommand" where
  "parseReset ul snap q =
     (case checkQueryNames q (selectorParams [''dryRun'', ''expectedRuleSetVersion'']) of
        Some err \<Rightarrow> Inl err
      | None \<Rightarrow>
          (case parseSelector ul q of
             Inl err \<Rightarrow> Inl err
           | Inr sel \<Rightarrow>
               (case se_RuleIDs sel of
                  [i] \<Rightarrow>
                    (case splitFullID i of
                       None \<Rightarrow> Inl (invalid (''the ruleId '' @ logSafe i @ '' is not a full block/rule id; prefix forms are refused here'') [''ruleId''])
                     | Some (block, rule) \<Rightarrow>
                         (case parseEnumTrue q ''dryRun'' False of
                            Inl err \<Rightarrow> Inl err
                          | Inr dryRun \<Rightarrow>
                              (case findRule snap block rule of
                                 None \<Rightarrow> Inl (notFound (''no rule '' @ logSafe i @ '' is enforced in domain '' @ logSafe (sn_Domain snap) @
                                   ''; a rule missing here but present in a policy object means the policy was rejected or is running on an earlier spec''))
                               | Some (cb, cu) \<Rightarrow>
                                   (case resolveAxes i cu (se_Axes sel) of
                                      Inl err \<Rightarrow> Inl err
                                    | Inr (named, ordered) \<Rightarrow>
                                        Inr \<lparr>rm_Selector = sel, rm_DryRun = dryRun, rm_ExpectedVersion = query_Get q ''expectedRuleSetVersion'',
                                             rm_AxesByName = named, rm_Ordered = ordered, rm_block = cb, rm_rule = cu\<rparr>))))
                | _ \<Rightarrow> Inl (invalid ''the addressed reset takes exactly one full block/rule id; wider selections are a counter-resets action'' [''ruleId'']))))"

definition windowSelected :: "resetCommand \<Rightarrow> c_rate \<Rightarrow> bool" where
  "windowSelected c rate =
     (if se_Algorithm (rm_Selector c) \<noteq> [] \<and> lower_name (alg_Name (ct_Algorithm rate)) \<noteq> se_Algorithm (rm_Selector c) then False
      else if se_PeriodSeconds (rm_Selector c) \<noteq> 0 \<and> quo64 (Period (ct_Window rate)) Second \<noteq> se_PeriodSeconds (rm_Selector c) then False
      else True)"

definition reset_keys :: "resetCommand \<Rightarrow> string list" where
  "reset_keys c =
     sortedUnique (map (\<lambda>rate. Bucket (ct_Prefix rate) (rm_Ordered c)) (filter (windowSelected c) (cu_Rates (rm_rule c))))"

text \<open>The stores a handler reaches, and how each call can end.\<close>

record 's reset_ops =
  op_Lookup :: "rec_keys \<Rightarrow> 's \<Rightarrow> cmd_record result \<times> 's"
  op_Reset :: "addressed \<Rightarrow> 's \<Rightarrow> addressed_outcome result \<times> 's"
  op_Peek :: "bucket list \<Rightarrow> 's \<Rightarrow> verdict list result \<times> 's"

definition refusing :: "'s reset_ops \<Rightarrow> string list \<Rightarrow> resetCommand \<Rightarrow> 's \<Rightarrow> (api_error + string list) \<times> 's" where
  "refusing ops computed command s =
     (let byPrefix = rev (map (\<lambda>rate. (Bucket (ct_Prefix rate) (rm_Ordered command), rate)) (cu_Rates (rm_rule command)));
          buckets = List.map_filter (\<lambda>k. map_option (\<lambda>rate.
            \<lparr>bk_Key = k, bk_Algorithm = alg_ID (ct_Algorithm rate), bk_Window = ct_Window rate,
             bk_Shadow = (cu_Behavior (rm_rule command) = BehaviorShadow), bk_Cost = 1\<rparr>) (map_of byPrefix k)) computed
      in case op_Peek ops buckets s of
           (Inl _, s') \<Rightarrow> (Inl (storeDown ''the counter store did not answer the read''), s')
         | (Inr verdicts, s') \<Rightarrow>
             if length verdicts \<noteq> length buckets then
               (Inl (errorf CodeInternal ''the counter store answered a different number of verdicts than keys'' []), s')
             else (Inr (map (bk_Key \<circ> fst) (filter (\<lambda>(b, v). \<not> v_Allowed v) (zip buckets verdicts))), s'))"

definition reset_json :: "reset_response \<Rightarrow> json" where
  "reset_json r = JObject ([(''domain'', JString (rr_Domain r)), (''ruleId'', JString (rr_RuleID r)),
     (''ruleSetVersion'', JString (rr_RuleSetVersion r))] @
     omit_empty (rr_Axes r) ''axes'' (JObject (map (\<lambda>(k, v). (k, JString v)) (sort_key fst (rr_Axes r)))) @
     [(''keys'', jstrings (rr_Keys r)), (''dryRun'', JBool (rr_DryRun r))] @
     (case rr_MatchedCount r of Some n \<Rightarrow> [(''matchedCount'', JNumber (FormatInt n))] | None \<Rightarrow> []) @
     (case rr_ResetCount r of Some n \<Rightarrow> [(''resetCount'', JNumber (FormatInt n))] | None \<Rightarrow> []))"

definition recorded :: "reset_response \<Rightarrow> string" where
  "recorded r = json_text (reset_json (r\<lparr>rr_MatchedCount := None, rr_ResetCount := None\<rparr>))"

definition counted :: "int \<Rightarrow> reset_response \<Rightarrow> reset_response" where
  "counted n r = (if rr_DryRun r then r\<lparr>rr_MatchedCount := Some n\<rparr> else r\<lparr>rr_ResetCount := Some n\<rparr>)"

definition runReset :: "(string \<Rightarrow> string) \<Rightarrow> 's reset_ops \<Rightarrow> snapshot \<Rightarrow> string \<Rightarrow> resetCommand \<Rightarrow> string \<Rightarrow> 's \<Rightarrow>
    (api_error + reset_response) \<times> 's" where
  "runReset sha ops snap version command name s =
     (let computed = reset_keys command; sel = rm_Selector command; i = hd (se_RuleIDs sel);
          hash = reset_command sha sel (rm_DryRun command) (rm_ExpectedVersion command)
      in if computed = [] then (Inl (notFound (''rule '' @ logSafe i @ '' has no window matching the algorithm and period given'')), s)
         else case (if se_LimitedOnly sel then refusing ops computed command s else (Inr computed, s)) of
           (Inl err, s1) \<Rightarrow> (Inl err, s1)
         | (Inr drop_keys, s1) \<Rightarrow>
             let answer = \<lparr>rr_Domain = sn_Domain snap, rr_RuleID = i, rr_RuleSetVersion = version, rr_Axes = rm_AxesByName command,
                   rr_Keys = computed, rr_DryRun = rm_DryRun command, rr_MatchedCount = None, rr_ResetCount = None\<rparr>
             in case op_Reset ops \<lparr>ar_Record = name, ar_Command = hash, ar_Delete = drop_keys, ar_DryRun = rm_DryRun command,
                       ar_Answer = recorded answer\<rparr> s1 of
                  (Inl _, s2) \<Rightarrow> (Inl (storeDown ''the counter store did not accept the reset; nothing was bound, so the call can be retried''), s2)
                | (Inr outcome, s2) \<Rightarrow>
                    if ao_Replayed outcome \<and> ao_Command outcome \<noteq> hash then
                      (Inl (conflict ConflictCommandMismatch
                        ''this Idempotency-Key is already bound to a different command; a new command needs a new key''), s2)
                    else (Inr (counted (ao_Count outcome) answer), s2))"

definition recordTag :: "string \<Rightarrow> string \<Rightarrow> string option" where
  "recordTag namespace domain = map_option (\<lambda>tag. ''rlm:v1:'' @ tag @ '':'') (DomainTag namespace domain)"

definition endpointCounters :: string where "endpointCounters = ''counters''"

definition recordKey :: "(string \<Rightarrow> string) \<Rightarrow> string \<Rightarrow> string \<Rightarrow> string \<Rightarrow> string \<Rightarrow> string \<Rightarrow> string option" where
  "recordKey sha namespace domain endpoint subj idempotencyKey =
     map_option (\<lambda>tag. tag @ ''idem:'' @ endpoint @ '':'' @ take 32 (EncodeToString (sha (subj @ [CHR 0x00] @ idempotencyKey))))
       (recordTag namespace domain)"

definition resetBinding :: "(string \<Rightarrow> string) \<Rightarrow> (string \<Rightarrow> string) \<Rightarrow> query \<Rightarrow> api_error + string" where
  "resetBinding ul sha q =
     (case parseSelector ul q of
        Inl err \<Rightarrow> Inl err
      | Inr sel \<Rightarrow>
          (case parseEnumTrue q ''dryRun'' False of
             Inl err \<Rightarrow> Inl err
           | Inr dryRun \<Rightarrow> Inr (reset_command sha sel dryRun (query_Get q ''expectedRuleSetVersion''))))"

text \<open>\<open>json.Unmarshal\<close> into a \<open>ResetResponse\<close>, on the fields under the names they are written with; an absent field and
  \<open>null\<close> leave the zero value, a value of another type is an error.\<close>

definition read_string :: "json \<Rightarrow> string option" where
  "read_string j = (case j of JString s \<Rightarrow> Some s | JNull \<Rightarrow> Some [] | _ \<Rightarrow> None)"

definition read_bool :: "json \<Rightarrow> bool option" where
  "read_bool j = (case j of JBool b \<Rightarrow> Some b | JNull \<Rightarrow> Some False | _ \<Rightarrow> None)"

definition read_count :: "json \<Rightarrow> int option option" where
  "read_count j = (case j of JNumber n \<Rightarrow> map_option Some (ParseInt64 n) | JNull \<Rightarrow> Some None | _ \<Rightarrow> None)"

definition read_strings :: "json \<Rightarrow> string list option" where
  "read_strings j = (case j of JArray vs \<Rightarrow> those (map read_string vs) | JNull \<Rightarrow> Some [] | _ \<Rightarrow> None)"

definition read_string_map :: "json \<Rightarrow> string gomap option" where
  "read_string_map j =
     (case j of
        JObject fs \<Rightarrow> those (map (\<lambda>(k, v). map_option (Pair k) (read_string v)) fs)
      | JNull \<Rightarrow> Some []
      | _ \<Rightarrow> None)"

definition read_field :: "json gomap \<Rightarrow> string \<Rightarrow> json" where
  "read_field fs name = (case map_of fs name of Some v \<Rightarrow> v | None \<Rightarrow> JNull)"

definition unmarshal_reset :: "string \<Rightarrow> reset_response option" where
  "unmarshal_reset buf = do {
     fs \<leftarrow> Unmarshal buf;
     domain \<leftarrow> read_string (read_field fs ''domain'');
     ruleId \<leftarrow> read_string (read_field fs ''ruleId'');
     version \<leftarrow> read_string (read_field fs ''ruleSetVersion'');
     axes \<leftarrow> read_string_map (read_field fs ''axes'');
     keys \<leftarrow> read_strings (read_field fs ''keys'');
     dryRun \<leftarrow> read_bool (read_field fs ''dryRun'');
     matched \<leftarrow> read_count (read_field fs ''matchedCount'');
     reset \<leftarrow> read_count (read_field fs ''resetCount'');
     Some \<lparr>rr_Domain = domain, rr_RuleID = ruleId, rr_RuleSetVersion = version, rr_Axes = axes, rr_Keys = keys,
           rr_DryRun = dryRun, rr_MatchedCount = matched, rr_ResetCount = reset\<rparr>
   }"

definition replayReset :: "(string \<Rightarrow> string) \<Rightarrow> (string \<Rightarrow> string) \<Rightarrow> 's reset_ops \<Rightarrow> query \<Rightarrow> string \<Rightarrow> 's \<Rightarrow>
    (api_error + reset_response option) \<times> 's" where
  "replayReset ul sha ops q name s =
     (case resetBinding ul sha q of
        Inl _ \<Rightarrow> (Inr None, s)
      | Inr binding \<Rightarrow>
          (case op_Lookup ops \<lparr>rk_Record = name, rk_Lease = [], rk_Token = []\<rparr> s of
             (Inl _, s1) \<Rightarrow> (Inl (storeDown ''the counter store did not answer the idempotency lookup''), s1)
           | (Inr record1, s1) \<Rightarrow>
               if \<not> cd_Found record1 \<or> \<not> cd_Terminal record1 \<or> cd_Answer record1 = [] then (Inr None, s1)
               else if cd_Command record1 \<noteq> binding then
                 (Inl (conflict ConflictCommandMismatch
                   ''this Idempotency-Key is already bound to a different command; a new command needs a new key''), s1)
               else case unmarshal_reset (cd_Answer record1) of
                 None \<Rightarrow> (Inl (errorf CodeInternal ''the recorded answer of this command cannot be read'' []), s1)
               | Some response \<Rightarrow> (Inr (Some (counted (pg_Reset (cd_Progress record1)) response)), s1)))"

definition handleReset :: "(string \<Rightarrow> string) \<Rightarrow> (string \<Rightarrow> string) \<Rightarrow> (string \<Rightarrow> string) \<Rightarrow> 's reset_ops \<Rightarrow> string \<Rightarrow> rule_set \<Rightarrow>
    subject \<Rightarrow> string \<Rightarrow> string gomap \<Rightarrow> query \<Rightarrow> 's \<Rightarrow> ((api_error + reset_response) \<times> 's) option" where
  "handleReset ul uq sha ops namespace rules subj domain headers q s =
     (case api_snapshot rules domain of
        Inl err \<Rightarrow> Some (Inl err, s)
      | Inr (snap, version) \<Rightarrow>
          (case idempotencyKeyOf headers of
             Inl err \<Rightarrow> Some (Inl err, s)
           | Inr idempotencyKey \<Rightarrow>
               (case checkQueryNames q (selectorParams [''dryRun'', ''expectedRuleSetVersion'']) of
                  Some err \<Rightarrow> Some (Inl err, s)
                | None \<Rightarrow> do {
                    name \<leftarrow> recordKey sha namespace (sn_Domain snap) endpointCounters (su_Name subj) idempotencyKey;
                    Some (case replayReset ul sha ops q name s of
                       (Inl err, s1) \<Rightarrow> (Inl err, s1)
                     | (Inr (Some response), s1) \<Rightarrow> (Inr response, s1)
                     | (Inr None, s1) \<Rightarrow>
                         (case parseReset ul snap q of
                            Inl err \<Rightarrow> (Inl err, s1)
                          | Inr command \<Rightarrow>
                              (case unnormalized ul uq snap (singleValues (rm_AxesByName command))
                                      (capturedKeys snap [cb_Name (rm_block command)]) axisField of
                                 Some err \<Rightarrow> (Inl err, s1)
                               | None \<Rightarrow>
                                   if rm_ExpectedVersion command \<noteq> [] \<and> rm_ExpectedVersion command \<noteq> version then
                                     (Inl (conflict ConflictStaleRuleSet
                                       (''the enforced rule set is now '' @ version @ '', not the '' @ logSafe (rm_ExpectedVersion command) @
                                        '' this call pinned; re-read the rules and repeat the command'')), s1)
                                   else runReset sha ops snap version command name s1)))
                  })))"

text \<open>The in-process stores: the records and the counters they reset, at the times the calls are made.\<close>

definition memory_ops :: "int \<Rightarrow> int \<Rightarrow> int \<Rightarrow> records reset_ops" where
  "memory_ops now0 now us =
     \<lparr>op_Lookup = (\<lambda>keys m. case Lookup now0 keys m of (r, m') \<Rightarrow> (Inr r, m')),
      op_Reset = (\<lambda>a m. case Addressed_Reset now us a m of Some r \<Rightarrow> r | None \<Rightarrow> (Inl (Panic ''the walk is not over'' []), m)),
      op_Peek = (\<lambda>bs m. case Peek (rc_counters m) us bs of (r, c) \<Rightarrow> (r, m\<lparr>rc_counters := c\<rparr>))\<rparr>"

section \<open>The keys a command addresses\<close>

lemma sortedUnique_set [simp]: "set (sortedUnique xs) = set xs" "distinct (sortedUnique xs)" "sorted (sortedUnique xs)"
  by (simp_all add: sortedUnique_def)

lemma splitFullID_view: "splitFullID i = Some (b, r) \<Longrightarrow> i = view_ID b r \<and> b \<noteq> [] \<and> r \<noteq> []"
proof -
  assume "splitFullID i = Some (b, r)"
  then have s: "Split i (CHR ''/'') = [b, r]" "b \<noteq> []" "r \<noteq> []" by (auto simp: splitFullID_def split: list.splits if_splits)
  from Join_Split [of i "CHR ''/''"] have "i = view_ID b r" unfolding s(1) by (simp add: view_ID_def)
  with s show ?thesis by simp
qed

lemma Split_parts: "Split (p @ c # s) c = Split p c @ Split s c"
proof (induction p)
  case (Cons x p)
  then show ?case by (cases "Split p c") auto
qed simp

lemma splitFullID_unique: "splitFullID i = Some (b, r) \<Longrightarrow> view_ID b' r' = i \<longleftrightarrow> b' = b \<and> r' = r"
proof
  assume s: "splitFullID i = Some (b, r)" and v: "view_ID b' r' = i"
  have "Split i (CHR ''/'') = [b, r]" using s by (auto simp: splitFullID_def split: list.splits if_splits)
  then have "Split (view_ID b' r') (CHR ''/'') = [b, r]" using v by simp
  then have "Split b' (CHR ''/'') @ Split r' (CHR ''/'') = [b, r]" by (simp add: view_ID_def Split_parts)
  moreover have "Split b' (CHR ''/'') \<noteq> []" "Split r' (CHR ''/'') \<noteq> []" by auto
  ultimately have "Split b' (CHR ''/'') = [b]" "Split r' (CHR ''/'') = [r]"
    by (auto simp: append_eq_Cons_conv)
  then show "b' = b \<and> r' = r" using Join_Split [of b' "CHR ''/''"] Join_Split [of r' "CHR ''/''"] by simp
qed (use splitFullID_view in auto)

lemma findRule_Some:
  "findRule snap b r = Some (cb, cu) \<Longrightarrow> cb \<in> set (sn_Blocks snap) \<and> cu \<in> set (cb_Rules cb) \<and> cb_Name cb = b \<and> cu_Name cu = r"
  by (auto simp: findRule_def find_Some_iff in_set_conv_nth dest!: nth_mem)

lemma resolve_loop_ordered:
  assumes "resolve_loop i axes names nm od = Inr (nm', od')"
  shows "\<exists>vs. od' = od @ vs \<and> length vs = length names \<and>
    (\<forall>n. map_of nm' n = (if n \<in> set names then Some (hd (query_values axes n)) else map_of nm n)) \<and>
    list_all2 (\<lambda>n v. query_values axes n = [v]) names vs"
  using assms
proof (induction names arbitrary: nm od)
  case (Cons name names)
  then obtain v where v: "query_values axes name = [v]" "resolve_loop i axes names (AList.update name v nm) (od @ [v]) = Inr (nm', od')"
    by (auto split: list.splits)
  from Cons.IH [OF v(2)] obtain vs where "od' = (od @ [v]) @ vs" "length vs = length names"
    "\<forall>n. map_of nm' n = (if n \<in> set names then Some (hd (query_values axes n)) else map_of (AList.update name v nm) n)"
    "list_all2 (\<lambda>n v. query_values axes n = [v]) names vs" by blast
  then show ?case using v(1) by (intro exI [of _ "v # vs"]) (auto simp: update_conv')
qed auto

lemma parseReset_command:
  assumes "parseReset ul snap q = Inr c"
  shows "rm_block c \<in> set (sn_Blocks snap)" "rm_rule c \<in> set (cb_Rules (rm_block c))"
    and "se_RuleIDs (rm_Selector c) = [view_ID (cb_Name (rm_block c)) (cu_Name (rm_rule c))]"
    and "rm_Ordered c = map (\<lambda>n. the (map_of (rm_AxesByName c) n)) (cu_Counters (rm_rule c))"
    and "n \<in> set (cu_Counters (rm_rule c)) \<Longrightarrow> map_of (rm_AxesByName c) n \<noteq> None"
    and "parseSelector ul q = Inr (rm_Selector c)" "parseEnumTrue q ''dryRun'' False = Inr (rm_DryRun c)"
    and "rm_ExpectedVersion c = query_Get q ''expectedRuleSetVersion''"
    and "splitFullID (view_ID (cb_Name (rm_block c)) (cu_Name (rm_rule c))) = Some (cb_Name (rm_block c), cu_Name (rm_rule c))"
proof -
  obtain sel i b r cb cu named ordered dry where
    p: "parseSelector ul q = Inr sel" "se_RuleIDs sel = [i]" "splitFullID i = Some (b, r)" "parseEnumTrue q ''dryRun'' False = Inr dry"
      "findRule snap b r = Some (cb, cu)" "resolveAxes i cu (se_Axes sel) = Inr (named, ordered)"
    and c: "c = \<lparr>rm_Selector = sel, rm_DryRun = dry, rm_ExpectedVersion = query_Get q ''expectedRuleSetVersion'',
      rm_AxesByName = named, rm_Ordered = ordered, rm_block = cb, rm_rule = cu\<rparr>"
    using assms by (auto simp: parseReset_def split: option.splits sum.splits list.splits prod.splits)
  note f = findRule_Some [OF p(5)]
  have "resolve_loop i (se_Axes sel) (cu_Counters cu) [] [] = Inr (named, ordered)"
    using p(6) by (auto simp: resolveAxes_def Let_def split: option.splits if_splits)
  from resolve_loop_ordered [OF this] obtain vs where vs: "ordered = vs" "length vs = length (cu_Counters cu)"
    "\<forall>n. map_of named n = (if n \<in> set (cu_Counters cu) then Some (hd (query_values (se_Axes sel) n)) else None)"
    "list_all2 (\<lambda>n v. query_values (se_Axes sel) n = [v]) (cu_Counters cu) vs" by auto
  have "ordered = map (\<lambda>n. the (map_of named n)) (cu_Counters cu)"
    using vs by (auto intro!: nth_equalityI simp: list_all2_conv_all_nth)
  then show "rm_Ordered c = map (\<lambda>n. the (map_of (rm_AxesByName c) n)) (cu_Counters (rm_rule c))" by (simp add: c)
  show "rm_block c \<in> set (sn_Blocks snap)" "rm_rule c \<in> set (cb_Rules (rm_block c))"
    "se_RuleIDs (rm_Selector c) = [view_ID (cb_Name (rm_block c)) (cu_Name (rm_rule c))]"
    "parseSelector ul q = Inr (rm_Selector c)" "parseEnumTrue q ''dryRun'' False = Inr (rm_DryRun c)"
    "rm_ExpectedVersion c = query_Get q ''expectedRuleSetVersion''"
    "splitFullID (view_ID (cb_Name (rm_block c)) (cu_Name (rm_rule c))) = Some (cb_Name (rm_block c), cu_Name (rm_rule c))"
    using f p splitFullID_view [OF p(3)] by (simp_all add: c)
  show "n \<in> set (cu_Counters (rm_rule c)) \<Longrightarrow> map_of (rm_AxesByName c) n \<noteq> None" using vs(3) by (simp add: c)
qed

lemma compiled_rate:
  assumes "snapshot_ok namespace snap" "cb \<in> set (sn_Blocks snap)" "cu \<in> set (cb_Rules cb)" "ct \<in> set (cu_Rates cu)"
  shows "Check (ct_Algorithm ct) (ct_Window ct) = None"
    and "RatePrefix \<lparr>Namespace = namespace, Domain = sn_Domain snap, id_Block = cb_Name cb, id_Rule = cu_Name cu\<rparr>
      (ct_Algorithm ct) (ct_Window ct) = Some (ct_Prefix ct)"
  using assms by (auto simp: snapshot_ok_def c_block_ok_def c_rule_ok_def)

lemma same_rule:
  assumes "snapshot_ok namespace snap" "cb \<in> set (sn_Blocks snap)" "cu \<in> set (cb_Rules cb)"
    and "cb' \<in> set (sn_Blocks snap)" "cu' \<in> set (cb_Rules cb')" "cb_Name cb = cb_Name cb'" "cu_Name cu = cu_Name cu'"
  shows "cb = cb' \<and> cu = cu'"
proof -
  have "cb = cb'" using assms(1,2,4,6) by (auto simp: snapshot_ok_def distinct_map dest: inj_onD)
  moreover from this have "distinct (map cu_Name (cb_Rules cb))" using assms(1,2) by (auto simp: snapshot_ok_def c_block_ok_def)
  ultimately show ?thesis using assms(3,5,7) by (auto simp: distinct_map dest: inj_onD)
qed

lemma windowSelected_iff:
  assumes "Check (ct_Algorithm rate) (ct_Window rate) = None"
  shows "windowSelected c rate \<longleftrightarrow>
    (se_Algorithm (rm_Selector c) = [] \<or> se_Algorithm (rm_Selector c) = lower_name (alg_Name (ct_Algorithm rate))) \<and>
    (se_PeriodSeconds (rm_Selector c) = 0 \<or> Period (ct_Window rate) = se_PeriodSeconds (rm_Selector c) * Second)"
proof -
  let ?p = "Period (ct_Window rate)" and ?s = "se_PeriodSeconds (rm_Selector c)"
  note whole = period_seconds [OF Check_common_ok [OF assms]]
  have "quo64 ?p Second = ?s \<longleftrightarrow> ?p = ?s * Second"
  proof
    assume "quo64 ?p Second = ?s"
    then have "?p div Second = ?s" using whole(1) by simp
    then show "?p = ?s * Second" using whole(3) by simp
  next
    assume "?p = ?s * Second"
    then have "?p div Second = ?s" by (simp add: Second_def)
    then show "quo64 ?p Second = ?s" using whole(1) by simp
  qed
  then show ?thesis by (auto simp: windowSelected_def)
qed

lemma windowSelected_cong:
  "ct_Algorithm a = ct_Algorithm b \<Longrightarrow> Period (ct_Window a) = Period (ct_Window b) \<Longrightarrow> windowSelected c a = windowSelected c b"
  by (simp add: windowSelected_def)

lemma those_map_eq_Some: "those (map f xs) = Some ys \<longleftrightarrow> map f xs = map Some ys"
  by (induction xs arbitrary: ys) (auto split: option.splits)

lemma matchedRule_keys:
  assumes "matchedRule block rule ctx = Some mr"
  obtains axes where "map (axis_value ctx) (cu_Counters rule) = map Some axes"
    "map bk_Key (mr_Buckets mr) = map (\<lambda>rate. Bucket (ct_Prefix rate) axes) (cu_Rates rule)"
  using assms by (auto simp: matchedRule_def those_map_eq_Some bind_eq_Some_conv Let_def comp_def)

text \<open>A counter key of a rule is addressed when the rule, the window and the identity are.\<close>

lemma reset_keys_iff:
  assumes ok: "snapshot_ok namespace snap" and P: "parseReset ul snap q = Inr c"
    and r: "block \<in> set (sn_Blocks snap)" "rule \<in> set (cb_Rules block)" "rate \<in> set (cu_Rates rule)"
    and axes: "map (axis_value ctx) (cu_Counters rule) = map Some axes"
  shows "Bucket (ct_Prefix rate) axes \<in> set (reset_keys c) \<longleftrightarrow>
    cb_Name block = cb_Name (rm_block c) \<and> cu_Name rule = cu_Name (rm_rule c) \<and> windowSelected c rate \<and>
    (\<forall>n \<in> set (cu_Counters rule). axis_value ctx n = map_of (rm_AxesByName c) n)" (is "?in \<longleftrightarrow> ?addressed")
proof -
  note cmd = parseReset_command [OF P]
  have eq: "Bucket (ct_Prefix x) (rm_Ordered c) = Bucket (ct_Prefix rate) axes \<longleftrightarrow>
      cb_Name (rm_block c) = cb_Name block \<and> cu_Name (rm_rule c) = cu_Name rule \<and> ct_Algorithm x = ct_Algorithm rate \<and>
      Period (ct_Window x) = Period (ct_Window rate) \<and> rm_Ordered c = axes" if "x \<in> set (cu_Rates (rm_rule c))" for x
    using Bucket_eq_iff [OF compiled_rate(1) [OF ok cmd(1,2) that] compiled_rate(1) [OF ok r]
      compiled_rate(2) [OF ok cmd(1,2) that] compiled_rate(2) [OF ok r]] by auto
  have ordered: "rm_Ordered c = axes \<longleftrightarrow> (\<forall>n \<in> set (cu_Counters rule). axis_value ctx n = map_of (rm_AxesByName c) n)"
    if "rm_rule c = rule"
  proof -
    have "map Some (rm_Ordered c) = map (map_of (rm_AxesByName c)) (cu_Counters rule)"
      using cmd(4,5) that by (auto simp: comp_def)
    then have "rm_Ordered c = axes \<longleftrightarrow> map (map_of (rm_AxesByName c)) (cu_Counters rule) = map (axis_value ctx) (cu_Counters rule)"
      using axes by (metis inj_Some inj_map_eq_map)
    then show ?thesis by (auto simp: map_eq_conv)
  qed
  have same: "rm_rule c = rule" if "cb_Name block = cb_Name (rm_block c)" "cu_Name rule = cu_Name (rm_rule c)"
    using same_rule [OF ok cmd(1,2) r(1,2)] that by simp
  show ?thesis
  proof
    assume ?in
    then obtain x where "x \<in> set (cu_Rates (rm_rule c))" "windowSelected c x" "Bucket (ct_Prefix x) (rm_Ordered c) = Bucket (ct_Prefix rate) axes"
      by (auto simp: reset_keys_def)
    then show ?addressed using eq same ordered windowSelected_cong [of x rate c] by auto
  next
    assume a: ?addressed
    then have "rm_rule c = rule" "rm_Ordered c = axes" using same ordered by auto
    then show ?in using a r(3) by (auto simp: reset_keys_def)
  qed
qed

text \<open>C14. An addressed reset names exactly the counters of the client it names. Take any rule the engine applies to any
  request, and the counter it charges for one of the rule's windows: the key of that counter is among the keys of the command if
  and only if the rule is the one addressed, the window passes the narrowing by algorithm and period, and the request has the
  addressed value on every axis the rule counts by.\<close>

theorem reset_addresses_the_client:
  assumes "Compile namespace domain p = Some (snap, problems)" "parseReset ul snap q = Inr c"
    and "block \<in> set (sn_Blocks snap)" "rule \<in> set (cb_Rules block)" "matchedRule block rule ctx = Some mr" "j < length (cu_Rates rule)"
  shows "bk_Key (mr_Buckets mr ! j) \<in> set (reset_keys c) \<longleftrightarrow>
    se_RuleIDs (rm_Selector c) = [view_ID (cb_Name block) (cu_Name rule)] \<and>
    (se_Algorithm (rm_Selector c) = [] \<or> se_Algorithm (rm_Selector c) = lower_name (alg_Name (ct_Algorithm (cu_Rates rule ! j)))) \<and>
    (se_PeriodSeconds (rm_Selector c) = 0 \<or> Period (ct_Window (cu_Rates rule ! j)) = se_PeriodSeconds (rm_Selector c) * Second) \<and>
    (\<forall>n \<in> set (cu_Counters rule). axis_value ctx n = map_of (rm_AxesByName c) n)"
proof -
  obtain axes where axes: "map (axis_value ctx) (cu_Counters rule) = map Some axes"
    and keys: "map bk_Key (mr_Buckets mr) = map (\<lambda>rate. Bucket (ct_Prefix rate) axes) (cu_Rates rule)"
    using matchedRule_keys [OF assms(5)] by blast
  have key: "bk_Key (mr_Buckets mr ! j) = Bucket (ct_Prefix (cu_Rates rule ! j)) axes"
    using arg_cong [OF keys, of "\<lambda>l. l ! j"] arg_cong [OF keys, of length] assms(6) by simp
  note ok = Compile_snapshot_ok [OF assms(1)] and rate = nth_mem [OF assms(6)]
  note addressed = reset_keys_iff [OF ok assms(2-4) rate axes, folded key]
  have "se_RuleIDs (rm_Selector c) = [view_ID (cb_Name block) (cu_Name rule)] \<longleftrightarrow>
      cb_Name block = cb_Name (rm_block c) \<and> cu_Name rule = cu_Name (rm_rule c)"
    using splitFullID_unique [OF parseReset_command(9) [OF assms(2)], of "cb_Name block" "cu_Name rule"]
      parseReset_command(3) [OF assms(2)] by auto
  then show ?thesis
    using addressed windowSelected_iff [OF compiled_rate(1) [OF ok assms(3,4) rate], of c] by blast
qed

section \<open>What the handler does to the counters\<close>

text \<open>What the handler relies on: a lookup and a read change nothing that lives, a reset under a free name runs whole and says
  how much it found, and one under a bound name touches no counter. \<open>alive d\<close> is what lives \<open>d\<close> after the call.\<close>

locale reset_backend =
  fixes ops :: "'s reset_ops"
    and good :: "'s \<Rightarrow> bool"
    and alive :: "nat \<Rightarrow> 's \<Rightarrow> string \<Rightarrow> bool"
    and bound :: "'s \<Rightarrow> string \<Rightarrow> bool"
  assumes lookup_answers: "good s \<Longrightarrow> \<exists>r s'. op_Lookup ops keys s = (Inr r, s') \<and> good s' \<and> alive d s' = alive d s \<and>
      bound s' = bound s \<and> (cd_Found r \<longleftrightarrow> bound s (rk_Record keys))"
    and peek_keeps: "good s \<Longrightarrow> op_Peek ops bs s = (v, s') \<Longrightarrow> good s' \<and> bound s' = bound s \<and>
      (k \<notin> bk_Key ` set bs \<longrightarrow> alive d s' k = alive d s k)"
    and reset_runs: "good s \<Longrightarrow> \<not> bound s (ar_Record a) \<Longrightarrow> \<exists>out s'. op_Reset ops a s = (Inr out, s') \<and> good s' \<and>
      \<not> ao_Replayed out \<and> ao_Count out = int (length (filter (alive 0 s) (ar_Delete a))) \<and>
      (\<forall>d k. alive d s' k \<longleftrightarrow> alive d s k \<and> (ar_DryRun a \<or> k \<notin> set (ar_Delete a)))"
    and reset_replays: "good s \<Longrightarrow> bound s (ar_Record a) \<Longrightarrow> op_Reset ops a s = (w, s') \<Longrightarrow> good s' \<and> alive d s' = alive d s"
begin

text \<open>Narrowed to refusing counters or not, a reset reads and is asked to delete only keys it computed.\<close>

lemma refusing_subset:
  assumes "good s" "refusing ops computed command s = (r, s')"
  shows "good s' \<and> (k \<notin> set computed \<longrightarrow> alive d s' k = alive d s k) \<and> (\<forall>ks. r = Inr ks \<longrightarrow> set ks \<subseteq> set computed)"
proof -
  let ?by = "rev (map (\<lambda>rate. (Bucket (ct_Prefix rate) (rm_Ordered command), rate)) (cu_Rates (rm_rule command)))"
  define bs where "bs = List.map_filter (\<lambda>k. map_option (\<lambda>rate.
    \<lparr>bk_Key = k, bk_Algorithm = alg_ID (ct_Algorithm rate), bk_Window = ct_Window rate,
     bk_Shadow = (cu_Behavior (rm_rule command) = BehaviorShadow), bk_Cost = 1\<rparr>) (map_of ?by k)) computed"
  have keys: "bk_Key ` set bs \<subseteq> set computed" by (auto simp: bs_def List.map_filter_def)
  obtain v s1 where P: "op_Peek ops bs s = (v, s1)" by fastforce
  have "s' = s1" and r: "\<And>ks. r = Inr ks \<Longrightarrow> set ks \<subseteq> bk_Key ` set bs"
    using assms(2) P unfolding refusing_def Let_def bs_def [symmetric]
    by (auto split: sum.splits if_splits dest!: set_zip_leftD)
  then show ?thesis using peek_keeps [OF assms(1) P, of k d] keys by blast
qed

lemma runReset_keeps_others:
  assumes "good s" "runReset sha ops snap version c name s = (v, s')" "k \<notin> set (reset_keys c)"
  shows "good s' \<and> (alive d s' k \<longleftrightarrow> alive d s k)"
proof (cases "reset_keys c = []")
  case True
  then show ?thesis using assms(1,2) by (simp add: runReset_def Let_def)
next
  case False
  show ?thesis
  proof (cases "if se_LimitedOnly (rm_Selector c) then refusing ops (reset_keys c) c s else (Inr (reset_keys c), s)")
    case (Pair r s1)
    have s1: "good s1" "alive d s1 k = alive d s k" and sub: "\<And>ks. r = Inr ks \<Longrightarrow> set ks \<subseteq> set (reset_keys c)"
      using Pair refusing_subset [OF assms(1), of "reset_keys c" c r s1 k d] assms(1,3) by (auto split: if_splits)
    show ?thesis
    proof (cases r)
      case (Inl err)
      then show ?thesis using assms(2) False Pair s1 by (auto simp: runReset_def Let_def split: if_splits)
    next
      case (Inr ks)
      obtain a out s2 where a: "ar_Record a = name" "ar_Delete a = ks" and o: "op_Reset ops a s1 = (out, s2)" "s' = s2"
        using assms(2) False Pair Inr by (auto simp: runReset_def Let_def split: if_splits prod.splits sum.splits) force+
      show ?thesis
        using reset_runs [OF s1(1), of a] reset_replays [OF s1(1), of a out s2] a o s1 sub [OF Inr] assms(3) by (cases "bound s1 name") auto
    qed
  qed
qed

lemma runReset_runs:
  assumes "good s" "\<not> bound s name" "\<not> se_LimitedOnly (rm_Selector c)" "runReset sha ops snap version c name s = (Inr response, s')"
  shows "rr_Keys response = reset_keys c \<and> rr_DryRun response = rm_DryRun c \<and>
    (if rm_DryRun c then rr_MatchedCount response else rr_ResetCount response) = Some (int (length (filter (alive 0 s) (reset_keys c)))) \<and>
    (\<forall>d k. alive d s' k \<longleftrightarrow> alive d s k \<and> (rm_DryRun c \<or> k \<notin> set (reset_keys c)))"
proof -
  let ?answer = "\<lparr>rr_Domain = sn_Domain snap, rr_RuleID = hd (se_RuleIDs (rm_Selector c)), rr_RuleSetVersion = version,
    rr_Axes = rm_AxesByName c, rr_Keys = reset_keys c, rr_DryRun = rm_DryRun c, rr_MatchedCount = None, rr_ResetCount = None\<rparr>"
  let ?a = "\<lparr>ar_Record = name, ar_Command = reset_command sha (rm_Selector c) (rm_DryRun c) (rm_ExpectedVersion c),
    ar_Delete = reset_keys c, ar_DryRun = rm_DryRun c, ar_Answer = recorded ?answer\<rparr>"
  have "\<not> bound s (ar_Record ?a)" using assms(2) by simp
  from reset_runs [OF assms(1) this] obtain out s2 where o: "op_Reset ops ?a s = (Inr out, s2)" "\<not> ao_Replayed out"
    "ao_Count out = int (length (filter (alive 0 s) (reset_keys c)))"
    "\<And>d k. alive d s2 k \<longleftrightarrow> alive d s k \<and> (rm_DryRun c \<or> k \<notin> set (reset_keys c))" by auto
  have "runReset sha ops snap version c name s =
      (if reset_keys c = [] then (Inl (notFound (''rule '' @ logSafe (hd (se_RuleIDs (rm_Selector c))) @
         '' has no window matching the algorithm and period given'')), s) else (Inr (counted (ao_Count out) ?answer), s2))"
    using assms(3) o(1,2) by (simp add: runReset_def Let_def)
  then have "response = counted (ao_Count out) ?answer" "s' = s2" using assms(4) by (auto split: if_splits)
  then show ?thesis using o(3,4) by (simp add: counted_def)
qed

lemma runReset_keys: "runReset sha ops snap version c name s = (Inr response, s') \<Longrightarrow> rr_Keys response = reset_keys c"
  by (auto simp: runReset_def Let_def counted_def split: if_splits prod.splits sum.splits)

lemma replayReset_free:
  assumes "good s" "\<not> bound s name"
  obtains s1 where "replayReset ul sha ops q name s = (Inr None, s1)" "good s1" "\<not> bound s1 name" "\<And>d. alive d s1 = alive d s"
proof (cases "resetBinding ul sha q")
  case (Inl err)
  then show ?thesis using that [of s] assms by (simp add: replayReset_def)
next
  case (Inr binding)
  let ?keys = "\<lparr>rk_Record = name, rk_Lease = [], rk_Token = []\<rparr>"
  obtain r s1 where l: "op_Lookup ops ?keys s = (Inr r, s1)" using lookup_answers [OF assms(1), of ?keys] by blast
  then have "good s1" "bound s1 = bound s" "\<not> cd_Found r" "\<And>d. alive d s1 = alive d s"
    using lookup_answers [OF assms(1), of ?keys] assms(2) by auto
  then show ?thesis using that [of s1] l Inr assms(2) by (simp add: replayReset_def)
qed

lemma handleReset_runs:
  assumes "good s" "api_snapshot rules domain = Inr (snap, version)" "idempotencyKeyOf headers = Inr key"
    and "recordKey sha namespace (sn_Domain snap) endpointCounters (su_Name subj) key = Some name" "\<not> bound s name"
    and "handleReset ul uq sha ops namespace rules subj domain headers q s = Some (Inr response, s')"
  obtains c s1 where "parseReset ul snap q = Inr c" "good s1" "\<not> bound s1 name" "\<And>d. alive d s1 = alive d s"
    "runReset sha ops snap version c name s1 = (Inr response, s')"
proof -
  obtain s1 where s1: "replayReset ul sha ops q name s = (Inr None, s1)" "good s1" "\<not> bound s1 name" "\<And>d. alive d s1 = alive d s"
    using replayReset_free [OF assms(1,5)] by blast
  have "\<exists>c. parseReset ul snap q = Inr c \<and> runReset sha ops snap version c name s1 = (Inr response, s')"
    using assms(6) unfolding handleReset_def assms(2-4) s1(1)
    by (auto simp: assms(4) s1(1) split: option.splits sum.splits if_splits)
  then show ?thesis using that s1 by blast
qed

end

section \<open>The in-process stores\<close>

lemma evalAll_others: "gm_ok m \<Longrightarrow> gm_ok (snd (evalAll m t bs)) \<and> (k \<notin> bk_Key ` set bs \<longrightarrow> map_of (snd (evalAll m t bs)) k = map_of m k)"
proof (induction bs arbitrary: m)
  case (Cons b bs)
  let ?m = "if mem_view m t b = None then AList.delete (bk_Key b) m else m"
  have "gm_ok ?m" using Cons.prems by (simp add: gm_ok_def distinct_delete)
  from Cons.IH [OF this] show ?case
    using Cons.prems by (auto simp: evalAll_Cons Let_def delete_conv' gm_ok_def distinct_delete split: sum.splits prod.splits)
qed simp

lemma Peek_others:
  assumes "gm_ok m" "Peek m t bs = (v, m')"
  shows "gm_ok m' \<and> (k \<notin> bk_Key ` set bs \<longrightarrow> map_of m' k = map_of m k)"
  using evalAll_others [OF assms(1), of t bs k] assms by (auto simp: Peek_def split: option.splits prod.splits sum.splits)

lemma Addressed_Reset_gm_ok:
  assumes "gm_ok (rc_counters m)" "Addressed_Reset now us a m = Some (out, m')"
  shows "gm_ok (rc_counters m')"
proof -
  obtain m1 where f: "rec_find now m (ar_Record a) = (rec_at now m (ar_Record a), m1)" "rc_counters m1 = rc_counters m"
    using rec_find_cases by metis
  show ?thesis
  proof (cases "rec_at now m (ar_Record a)")
    case None
    obtain c' where "live_loop us (ar_Delete a) (rc_counters m1) = Some (Inr (filter (key_live us (rc_counters m1)) (ar_Delete a)), c')" "gm_ok c'"
      using live_loop_exact [of "rc_counters m1" us "ar_Delete a"] assms(1) f(2) by auto
    then show ?thesis using assms(2) f None by (auto simp: Addressed_Reset_def Reset_gm_ok)
  qed (use assms f in \<open>auto simp: Addressed_Reset_def\<close>)
qed

lemma Lookup_memory:
  "\<exists>r m'. Lookup now keys m = (r, m') \<and> rc_counters m' = rc_counters m \<and> rec_at now m' = rec_at now m \<and>
    (cd_Found r \<longleftrightarrow> rec_at now m (rk_Record keys) \<noteq> None)"
proof -
  obtain r m' where L: "rec_read now m keys = (r, m')" by fastforce
  obtain m1 where f: "rec_find now m (rk_Record keys) = (rec_at now m (rk_Record keys), m1)" using rec_find_cases by metis
  have "cd_Found r \<longleftrightarrow> rec_at now m (rk_Record keys) \<noteq> None"
    using L f by (auto simp: rec_read_def no_record_def Let_def split: option.splits)
  then show ?thesis
    using L rec_read_state(2) [of now m keys] rec_read_seen(1) [of now m keys] by (simp add: Lookup_def)
qed

interpretation process: reset_backend "memory_ops now now us" "\<lambda>m. gm_ok (rc_counters m)"
  "\<lambda>d m. key_live (us + int d) (rc_counters m)" "\<lambda>m k. rec_at now m k \<noteq> None" for now us
proof
  fix m :: records and keys and d :: nat
  assume "gm_ok (rc_counters m)"
  then show "\<exists>r s'. op_Lookup (memory_ops now now us) keys m = (Inr r, s') \<and> gm_ok (rc_counters s') \<and>
      key_live (us + int d) (rc_counters s') = key_live (us + int d) (rc_counters m) \<and>
      (\<lambda>k. rec_at now s' k \<noteq> None) = (\<lambda>k. rec_at now m k \<noteq> None) \<and> (cd_Found r \<longleftrightarrow> rec_at now m (rk_Record keys) \<noteq> None)"
    using Lookup_memory [of now keys m] by (auto simp: memory_ops_def)
next
  fix m m' :: records and bs v and k and d :: nat
  assume "gm_ok (rc_counters m)" "op_Peek (memory_ops now now us) bs m = (v, m')"
  then show "gm_ok (rc_counters m') \<and> (\<lambda>k. rec_at now m' k \<noteq> None) = (\<lambda>k. rec_at now m k \<noteq> None) \<and>
      (k \<notin> bk_Key ` set bs \<longrightarrow> key_live (us + int d) (rc_counters m') k = key_live (us + int d) (rc_counters m) k)"
    using Peek_others [of "rc_counters m" us bs _ _ k] by (auto simp: memory_ops_def key_live_def split: prod.splits)
next
  fix m :: records and a :: addressed
  assume m: "gm_ok (rc_counters m)" "\<not> rec_at now m (ar_Record a) \<noteq> None"
  then have none: "rec_at now m (ar_Record a) = None" by simp
  obtain m' where m': "Addressed_Reset now us a m = Some (Inr \<lparr>ao_Replayed = False,
      ao_Command = ar_Command a, ao_Count = int (length (filter (key_live us (rc_counters m)) (ar_Delete a))), ao_Answer = ar_Answer a\<rparr>, m')"
    "\<And>us' k. us \<le> us' \<Longrightarrow> key_live us' (rc_counters m') k \<longleftrightarrow> key_live us' (rc_counters m) k \<and> (ar_DryRun a \<or> k \<notin> set (ar_Delete a))"
    by (rule Addressed_Reset_fresh [OF m(1) none, of us]) auto
  then show "\<exists>out s'. op_Reset (memory_ops now now us) a m = (Inr out, s') \<and> gm_ok (rc_counters s') \<and> \<not> ao_Replayed out \<and>
      ao_Count out = int (length (filter (key_live (us + int 0) (rc_counters m)) (ar_Delete a))) \<and>
      (\<forall>d k. key_live (us + int d) (rc_counters s') k \<longleftrightarrow> key_live (us + int d) (rc_counters m) k \<and> (ar_DryRun a \<or> k \<notin> set (ar_Delete a)))"
    using Addressed_Reset_gm_ok [OF m(1) m'(1)] by (simp add: memory_ops_def)
next
  fix m m' :: records and a :: addressed and w and d :: nat
  assume m: "gm_ok (rc_counters m)" "rec_at now m (ar_Record a) \<noteq> None" "op_Reset (memory_ops now now us) a m = (w, m')"
  then obtain e where "rec_at now m (ar_Record a) = Some e" by blast
  then obtain m2 where "Addressed_Reset now us a m = Some (Inr \<lparr>ao_Replayed = True, ao_Command = re_command e,
      ao_Count = pg_Reset (re_progress e), ao_Answer = re_answer e\<rparr>, m2)" "rc_counters m2 = rc_counters m"
    by (rule Addressed_Reset_replays)
  then show "gm_ok (rc_counters m') \<and> key_live (us + int d) (rc_counters m') = key_live (us + int d) (rc_counters m)"
    using m(1,3) by (auto simp: memory_ops_def)
qed

section \<open>Properties\<close>

text \<open>C13. A reset that is answered did what it says. Under a key that is not bound yet, over the enforced rule set, the answer
  lists the keys of the command the query spells; no other counter is touched. Unless the call asked for refusing counters only,
  the count of the answer is the number of the listed counters that lived, a preview leaves them all, and an execution leaves none
  of them, at no later time.\<close>

theorem reset_drops_what_it_names:
  assumes "gm_ok (rc_counters m)" "set_Snapshot rules domain = Some snap" "idempotencyKeyOf headers = Inr key"
    and "recordKey sha namespace (sn_Domain snap) endpointCounters (su_Name subj) key = Some name" "rec_at now m name = None"
    and "handleReset ul uq sha (memory_ops now now us) namespace rules subj domain headers q m = Some (Inr response, m')"
  shows "\<exists>c. parseReset ul snap q = Inr c \<and> rr_Keys response = reset_keys c \<and>
    (\<forall>us' k. us \<le> us' \<longrightarrow> k \<notin> set (rr_Keys response) \<longrightarrow> key_live us' (rc_counters m') k = key_live us' (rc_counters m) k) \<and>
    (\<not> se_LimitedOnly (rm_Selector c) \<longrightarrow>
       (if rm_DryRun c then rr_MatchedCount response else rr_ResetCount response) =
         Some (int (length (filter (key_live us (rc_counters m)) (rr_Keys response)))) \<and>
       (\<forall>us' k. us \<le> us' \<longrightarrow> k \<in> set (rr_Keys response) \<longrightarrow>
          key_live us' (rc_counters m') k = (rm_DryRun c \<and> key_live us' (rc_counters m) k)))"
proof -
  have snap: "api_snapshot rules domain = Inr (snap, set_Version rules domain)" using assms(2) by (simp add: api_snapshot_def)
  obtain c s1 where c: "parseReset ul snap q = Inr c" and s1: "gm_ok (rc_counters s1)" "rec_at now s1 name = None"
      "\<And>d. key_live (us + int d) (rc_counters s1) = key_live (us + int d) (rc_counters m)"
    and run: "runReset sha (memory_ops now now us) snap (set_Version rules domain) c name s1 = (Inr response, m')"
    using process.handleReset_runs [OF assms(1) snap assms(3,4) _ assms(6)] assms(5) by auto
  have later: "\<exists>d. us' = us + int d" if "us \<le> us'" for us' using zle_iff_zadd that by blast
  have keys: "rr_Keys response = reset_keys c" using process.runReset_keys [OF run] .
  have others: "key_live us' (rc_counters m') k = key_live us' (rc_counters m) k" if "us \<le> us'" "k \<notin> set (rr_Keys response)" for us' k
    using process.runReset_keeps_others [OF s1(1) run, of k] s1(3) later [OF that(1)] that(2) keys by auto
  have named: "(if rm_DryRun c then rr_MatchedCount response else rr_ResetCount response) =
        Some (int (length (filter (key_live us (rc_counters m)) (rr_Keys response)))) \<and>
      (us \<le> us' \<longrightarrow> k \<in> set (rr_Keys response) \<longrightarrow>
          key_live us' (rc_counters m') k = (rm_DryRun c \<and> key_live us' (rc_counters m) k))"
    if "\<not> se_LimitedOnly (rm_Selector c)" for us' k
    using process.runReset_runs [OF s1(1) _ that run] s1(2,3) s1(3) [of 0] later [of us'] keys by auto
  show ?thesis using c keys others named by blast
qed

definition sample_reset :: query where
  "sample_reset = [(''ruleId'', [''orders/vip'']), (''axis.sub'', [''ann'']), (''axis.orderId'', [''7'']), (''period'', [''1m''])]"

definition vip_key :: string where
  "vip_key = ''rl:v1:{ns/gw}:orders/vip:gcra:60:ann:7:''"

definition sample_selector :: selector where
  "sample_selector = \<lparr>se_RuleIDs = [''orders/vip''], se_Algorithm = [], se_PeriodSeconds = 60,
     se_Axes = [(''sub'', [''ann'']), (''orderId'', [''7''])], se_LimitedOnly = False\<rparr>"

definition sample_command :: resetCommand where
  "sample_command = \<lparr>rm_Selector = sample_selector, rm_DryRun = False, rm_ExpectedVersion = [],
     rm_AxesByName = [(''sub'', ''ann''), (''orderId'', ''7'')], rm_Ordered = [''ann'', ''7''], rm_block = sample_block,
     rm_rule = cb_Rules sample_block ! 1\<rparr>"

lemma sample_command_parsed: "parseReset id sample_snapshot sample_reset = Inr sample_command"
proof -
  have "map_sum (\<lambda>_. ()) (\<lambda>c. (rm_Selector c, rm_DryRun c, rm_ExpectedVersion c, rm_AxesByName c, rm_Ordered c, cb_Name (rm_block c), cu_Name (rm_rule c)))
      (parseReset id sample_snapshot sample_reset) =
    Inr (sample_selector, False, [], [(''sub'', ''ann''), (''orderId'', ''7'')], [''ann'', ''7''], ''orders'', ''vip'')"
    by code_simp
  then obtain c where c: "parseReset id sample_snapshot sample_reset = Inr c" "rm_Selector c = sample_selector" "\<not> rm_DryRun c"
    "rm_ExpectedVersion c = []" "rm_AxesByName c = [(''sub'', ''ann''), (''orderId'', ''7'')]" "rm_Ordered c = [''ann'', ''7'']"
    "cb_Name (rm_block c) = ''orders''" "cu_Name (rm_rule c) = ''vip''"
    by (cases "parseReset id sample_snapshot sample_reset") auto
  have b: "rm_block c = sample_block" using parseReset_command(1) [OF c(1)] by (simp add: sample_snapshot_def)
  moreover have "rm_rule c = cb_Rules sample_block ! 1"
    using parseReset_command(2) [OF c(1)] c(8) unfolding b by (auto simp: sample_block_def)
  ultimately show ?thesis using c by (cases c) (simp add: sample_command_def)
qed

theorem reset_addresses_the_client_witness:
  "\<exists>mr. matchedRule sample_block (cb_Rules sample_block ! 1) sample_ctx = Some mr \<and>
     bk_Key (mr_Buckets mr ! 0) = vip_key \<and> vip_key \<in> set (reset_keys sample_command)"
proof -
  let ?rule = "cb_Rules sample_block ! 1"
  have "map_option (\<lambda>mr. map bk_Key (mr_Buckets mr)) (matchedRule sample_block ?rule sample_ctx) = Some [vip_key]" by code_simp
  then obtain mr where mr: "matchedRule sample_block ?rule sample_ctx = Some mr" "map bk_Key (mr_Buckets mr) = [vip_key]" by auto
  have "\<forall>n \<in> set (cu_Counters ?rule). axis_value sample_ctx n = map_of (rm_AxesByName sample_command) n"
    by code_simp
  moreover have "Period (ct_Window (cu_Rates ?rule ! 0)) = se_PeriodSeconds (rm_Selector sample_command) * Second"
    "se_Algorithm (rm_Selector sample_command) = []"
    by (simp_all add: sample_block_def sample_command_def sample_selector_def Second_def)
  moreover have "sample_block \<in> set (sn_Blocks sample_snapshot)" "?rule \<in> set (cb_Rules sample_block)" "0 < length (cu_Rates ?rule)"
    "se_RuleIDs (rm_Selector sample_command) = [view_ID (cb_Name sample_block) (cu_Name ?rule)]"
    by (simp_all add: sample_snapshot_def sample_block_def sample_command_def sample_selector_def view_ID_def)
  ultimately have "bk_Key (mr_Buckets mr ! 0) \<in> set (reset_keys sample_command)"
    using reset_addresses_the_client [OF sample_compiled sample_command_parsed _ _ mr(1), of 0] by blast
  moreover have "bk_Key (mr_Buckets mr ! 0) = vip_key" using mr(2) by (cases "mr_Buckets mr") auto
  ultimately show ?thesis using mr(1) by auto
qed

definition sample_held :: records where
  "sample_held = NewMemory [(vip_key, \<lparr>e_algorithm = GCRAID, e_tat = 90, e_start = 0, e_count = 0, e_deadline = 100\<rparr>),
     (''other'', \<lparr>e_algorithm = GCRAID, e_tat = 90, e_start = 0, e_count = 0, e_deadline = 100\<rparr>)]"

definition sample_operator :: subject where
  "sample_operator = \<lparr>su_Name = ''ops'', su_Roles = [RoleOperator]\<rparr>"

definition sample_header :: "string gomap" where
  "sample_header = [(''Idempotency-Key'', ''k1'')]"

lemma sum_shown: "map_sum f g r = Inr v \<Longrightarrow> (\<And>x. r = Inr x \<Longrightarrow> g x = v \<Longrightarrow> thesis) \<Longrightarrow> thesis"
  by (cases r) auto

theorem reset_drops_what_it_names_witness:
  "\<exists>response m'. handleReset id id (\<lambda>_. ''abc'') (memory_ops 7 7 50) ''ns'' sample_rules sample_operator ''gw'' sample_header sample_reset
       sample_held = Some (Inr response, m') \<and> rr_Keys response = [vip_key] \<and> rr_ResetCount response = Some 1 \<and>
     \<not> key_live 50 (rc_counters m') vip_key \<and> key_live 50 (rc_counters m') ''other''"
proof -
  have "map_option (\<lambda>(r, m). map_sum (\<lambda>_. ()) rr_Keys r)
      (handleReset id id (\<lambda>_. ''abc'') (memory_ops 7 7 50) ''ns'' sample_rules sample_operator ''gw'' sample_header sample_reset sample_held) =
    Some (Inr [vip_key])" by code_simp
  then obtain response m' where run: "handleReset id id (\<lambda>_. ''abc'') (memory_ops 7 7 50) ''ns'' sample_rules sample_operator ''gw''
      sample_header sample_reset sample_held = Some (Inr response, m')" and keys: "rr_Keys response = [vip_key]"
    by (auto elim!: sum_shown)
  obtain name where name: "recordKey (\<lambda>_. ''abc'') ''ns'' (sn_Domain sample_snapshot) endpointCounters (su_Name sample_operator) ''k1'' = Some name"
    by (simp add: recordKey_def recordTag_def DomainTag_def sample_snapshot_def)
  have key: "idempotencyKeyOf sample_header = Inr ''k1''" by code_simp
  have s: "set_Snapshot sample_rules ''gw'' = Some sample_snapshot"
    by (simp add: sample_rules_def NewRuleSet_def set_Snapshot_def set_Domain_def)
  have o: "vip_key \<noteq> ''other''" "vip_key \<noteq> []" by (simp_all add: vip_key_def)
  then have ok: "gm_ok (rc_counters sample_held)" "rec_at 7 sample_held name = None"
    by (simp_all add: sample_held_def NewMemory_def gm_ok_def rec_at_def)
  have live: "key_live 50 (rc_counters sample_held) vip_key" "key_live 50 (rc_counters sample_held) ''other''"
    using o by (simp_all add: key_live_def sample_held_def NewMemory_def)
  from reset_drops_what_it_names [OF ok(1) s key name ok(2) run]
  have "rr_ResetCount response = Some 1 \<and> \<not> key_live 50 (rc_counters m') vip_key \<and> key_live 50 (rc_counters m') ''other''"
    unfolding sample_command_parsed keys using live o by (auto simp: sample_command_def sample_selector_def)
  then show ?thesis using run keys by blast
qed

section \<open>A repeated axis\<close>

definition repeated_policy :: policy where
  "repeated_policy = sample_policy\<lparr>
     p_Blocks := [\<lparr>b_Name = ''twice'', b_Target = \<lparr>t_Routes = []\<rparr>, b_Mode = [],
        b_Rules = [\<lparr>ru_Name = ''r'', ru_Matches = [], ru_Counters = [''sub'', ''sub''],
           ru_Rates = [\<lparr>ra_Requests = 5, ra_Period = 60000000000, ra_Burst = 0, ra_Algorithm = ''FixedWindow''\<rparr>],
           ru_Behavior = [], ru_ReplacedRules = []\<rparr>]\<rparr>]\<rparr>"

lemma parseAxes_distinct: "parseAxes q axes = Inr out \<Longrightarrow> gm_ok axes \<Longrightarrow> gm_ok out"
proof (induction q axes rule: parseAxes.induct)
  case (2 parameter vs q axes)
  then show ?case by (auto simp: Let_def gm_ok_def distinct_update split: if_splits)
qed simp

lemma parseSelector_axes: "parseSelector ul q = Inr sel \<Longrightarrow> gm_ok (se_Axes sel)"
  using parseAxes_distinct [of q "[]" "se_Axes sel"]
  by (auto simp: parseSelector_def Let_def gm_ok_def split: option.splits sum.splits)

lemma parseReset_resolved:
  "parseReset ul snap q = Inr c \<Longrightarrow> \<exists>sel i. parseSelector ul q = Inr sel \<and>
     resolveAxes i (rm_rule c) (se_Axes sel) = Inr (rm_AxesByName c, rm_Ordered c)"
  by (auto simp: parseReset_def split: option.splits sum.splits list.splits prod.splits)

lemma resolved_distinct:
  assumes "resolveAxes i rule axes = Inr r" "gm_ok axes"
  shows "distinct (cu_Counters rule)"
proof -
  have n: "length axes = length (cu_Counters rule)" "set (map fst axes) \<subseteq> set (cu_Counters rule)"
    using assms(1) by (auto simp: resolveAxes_def Let_def find_None_iff split: option.splits if_splits)
  have "card (set (map fst axes)) = length (cu_Counters rule)"
    using assms(2) n(1) unfolding gm_ok_def by (metis distinct_card length_map)
  then have "length (cu_Counters rule) \<le> card (set (cu_Counters rule))" using card_mono [OF _ n(2)] by simp
  then show ?thesis using card_length [of "cu_Counters rule"] by (intro card_distinct) simp
qed

text \<open>C38. The compiler takes a rule that names an axis twice, and the engine counts by it, but no query addresses its
  counters: the axes of a query are distinct names, and the handler asks for as many as the rule lists.\<close>

theorem repeated_axis_unaddressable:
  "(parseReset ul snap q = Inr c \<longrightarrow> distinct (cu_Counters (rm_rule c))) \<and>
   map_option (\<lambda>(snap, problems). (problems, map (\<lambda>b. map cu_Counters (cb_Rules b)) (sn_Blocks snap)))
     (Compile ''ns'' ''gw'' (Some repeated_policy)) = Some ([], [[[''sub'', ''sub'']]])"
proof
  show "parseReset ul snap q = Inr c \<longrightarrow> distinct (cu_Counters (rm_rule c))"
    using parseReset_resolved [of ul snap q c] resolved_distinct parseSelector_axes [of ul q] by blast
  show "map_option (\<lambda>(snap, problems). (problems, map (\<lambda>b. map cu_Counters (cb_Rules b)) (sn_Blocks snap)))
     (Compile ''ns'' ''gw'' (Some repeated_policy)) = Some ([], [[[''sub'', ''sub'']]])" by code_simp
qed

theorem repeated_axis_unaddressable_witness:
  "parseReset id sample_snapshot sample_reset = Inr sample_command \<and> distinct (cu_Counters (rm_rule sample_command))"
  using repeated_axis_unaddressable [of id sample_snapshot sample_reset sample_command] sample_command_parsed by blast

end
