(* ===== verification/Spec2Isabelle.thy ===== *)
theory Spec2Isabelle
  imports Memory_Scan Match_Target Match_Any Redis_Run Redis_Scan Rls_Headers Service Config_Read Record_Ledger Mgmt_Reset
begin

text \<open>
  A verification library of the rate limiter: the decision engine with its policy compiler, matcher,
  identity layer and counter stores, and the parts of the service around it. The sources are Go under
  \<open>src/\<close>, and one Lua script.

  \<^bold>\<open>The program.\<close> A gateway asks the service whether a request may pass. The service finds the engine
  of the request's domain. The engine (\<open>engine/engine.go\<close>) matches the path and the method against the
  compiled policy of the domain (\<open>engine/compile\<close>, \<open>engine/match\<close>), reads the caller's identity from
  its token or from explicit keys (\<open>engine/identity\<close>, through the cache of \<open>engine/tokencache.go\<close>),
  collects one bucket per rate of every rule that applies, under a counter key (\<open>engine/key\<close>), and asks
  a counter store (\<open>engine/store\<close>) to judge and charge them together. The store counts with GCRA or
  with fixed windows (\<open>engine/algo\<close>), in memory (\<open>engine/store/memory\<close>) or in Redis through a script
  (\<open>engine/store/redis\<close>).

  \<^bold>\<open>The theories.\<close>
  \<^item> \<open>GoPrelude\<close>: 64-bit integers that wrap (\<open>add64\<close>, \<open>quo64\<close>, \<dots>), Go strings as byte lists, maps as
    association lists, errors and panics as values.
  \<^item> \<open>Algo\<close>: \<open>engine/algo\<close>. Windows, the registry, \<open>Check\<close>, and the emission interval and depth of
    GCRA; an accepted window is computed without overflow and enforced within one percent.
  \<^item> \<open>Keys\<close>: \<open>engine/key\<close>. The layout and the escaping of counter keys; keys are injective, and every
    management prefix selects exactly its own subtree.
  \<^item> \<open>Store_Contract\<close>: \<open>engine/store/store.go\<close>. Buckets, verdicts, \<open>GuardBuckets\<close>, \<open>Admitted\<close>, and the
    \<open>Store\<close> interface as the locale \<open>counter_store\<close>.
  \<^item> \<open>Memory_Eval\<close>, \<open>Memory_Store\<close>, \<open>Memory_Trace\<close>, \<open>Memory_Scan\<close>: \<open>engine/store/memory\<close>. The two formulas
    satisfy one contract (locale \<open>bucket_algorithm\<close>), the store interprets \<open>counter_store\<close>; a decision
    charges all or nothing, over any run of calls no key is charged past its limit, a retry hint is
    sufficient and tight, and a scan walk is complete.
  \<^item> \<open>Lua_Number\<close>, \<open>Redis_Store\<close>, \<open>Redis_Rows\<close>, \<open>Redis_Sim\<close>, \<open>Redis_Run\<close>: \<open>engine/store/redis\<close>. Lua
    numbers are rationals rounded to 53 bits after every operation. The script and its caller answer
    every sequence of calls as the in-memory store does. Redis itself is a parameter with the laws of
    \<open>keyspace_laws\<close>.
  \<^item> \<open>Redis_Scan\<close>: \<open>Scan\<close> of the Redis store over one server or a cluster, its cursors, its glob pattern
    and the cluster slot of a key.
  \<^item> \<open>Policy_Model\<close>: \<open>engine/model\<close>, the authored policy.
  \<^item> \<open>Compile_Env\<close>, \<open>Compile_Routes\<close>, \<open>Compile_Rules\<close>, \<open>Compile\<close>: \<open>engine/compile\<close>. The whole compiler
    with its problem reports; a policy compiles whole or not at all, never panics, and every snapshot
    satisfies the invariant the request path relies on.
  \<^item> \<open>Match\<close>, \<open>Match_Target\<close>, \<open>Match_Rules\<close>, \<open>Match_Any\<close>: \<open>engine/match\<close>. Templates, prefixes, the cost a
    query carries, the rules a block applies, and the view of a block under any method.
  \<^item> \<open>Go_Json\<close>, \<open>Identity\<close>, \<open>Identity_Shape\<close>, \<open>Identity_Values\<close>: the JSON, base64 and UTF-8 decoding of
    the standard library, and \<open>engine/identity\<close> over it.
  \<^item> \<open>Token_Cache\<close>: \<open>engine/tokencache.go\<close> under every interleaving of its readers and writers
    (locale \<open>memo_table\<close>).
  \<^item> \<open>Engine\<close>, \<open>Engine_Strictest\<close>, \<open>Engine_Pipeline\<close>: \<open>engine/engine.go\<close>. What a decision means over the
    compiler, the matcher and the store, that it is always reached, and what \<open>Peek\<close> shares with it.
  \<^item> \<open>Rule_Set\<close>: \<open>service/internal/store\<close>, the rule set the server reads and its swap.
  \<^item> \<open>Convert\<close>: \<open>api/v1\<close> and \<open>internal/convert\<close>, the custom resource and its conversion into the policy model.
  \<^item> \<open>Ruleview\<close>: \<open>service/internal/ruleview\<close>, the rendering of a snapshot and its version.
  \<^item> \<open>Config_Apply\<close>, \<open>Config_Read\<close>: \<open>service/internal/config\<close> and \<open>api/manifest\<close>. A reading is whole and genuine or
    refused, the watcher keeps the report in step with it, and an apply enforces exactly what compiles.
  \<^item> \<open>Rls_Server\<close>, \<open>Rls_Answer\<close>, \<open>Rls_Headers\<close>, \<open>Rls_Total\<close>, \<open>Rls_Log\<close>: \<open>service/internal/rls/server.go\<close>.
    \<open>ShouldRateLimit\<close> with its metrics and log lines as events: what the answer means, the bound on what a
    check can charge, the accounting of checks, the response headers, and the values it logs. Over a store
    that answers (locale \<open>answering_store\<close>, interpreted on the in-memory store with its clock) every check
    is answered.
  \<^item> \<open>Rls_Sampler\<close>: \<open>service/internal/rls/sampler.go\<close>, the atomics of the log sampler as interleaved steps.
  \<^item> \<open>Records\<close>, \<open>Record_Ledger\<close>: \<open>service/internal/records\<close>, what a reset must survive a retry with. The contract is
    the locale \<open>command_store\<close> over an abstract ledger, the in-process store an interpretation of it: over any calls of
    honest callers a recorded outcome is final, a key is accepted once, one sweep owns a domain, and an addressed
    reset deletes exactly the addressed keys that live.
  \<^item> \<open>Mgmt_Base\<close>, \<open>Applicability\<close>: \<open>service/internal/management\<close>, the API operators use. Its errors and their statuses,
    callers and roles, the parameters of a request; the listing of a domain's rules with the applicability of each rule to
    a partly known client. For every request the query leaves possible, a rule listed as always applying is applied and a
    rule listed as never applying is not.
  \<^item> \<open>Mgmt_Keys\<close>, \<open>Mgmt_Reset\<close>: counter keys read back, the grammar that selects counters, and the addressed reset over the
    record store and the counters (locale \<open>reset_backend\<close>, interpreted on the in-process stores). The decoder of keys inverts
    the encoder, a reset names exactly the counters traffic charges for the addressed client, and drops those and no other.
  \<^item> \<open>Service\<close>: applies, refusals and checks in any order, as the step relation \<open>service_run\<close>. At every moment a
    domain enforces the whole of one validated payload or nothing, and every check is answered.

  \<^bold>\<open>Conventions.\<close> An \<open>int64\<close> is an \<^typ>\<open>int\<close> with the wrap-around written out. A Go error is a value of
  \<open>goerror\<close>, a result \<open>goerror + 'a\<close>; a panic is \<open>Panic\<close> or \<^const>\<open>None\<close>. A mutex makes a method one atomic
  step; where the code goes without a lock, the steps are the atomic operations and theorems range over
  their interleavings. The clock is an argument.

  \<^bold>\<open>Bounds and fuel.\<close> Clock readings are at most \<open>4 * 10 ^ 18\<close> microseconds (\<open>clock_ok\<close>), far past any
  date and small enough that no sum wraps; for the Redis script they lie before the year 2191
  (\<open>lua_clock_ok\<close>), so that every number it computes is below \<open>2 ^ 53\<close>. The JSON decoder runs on fuel
  that the length of its input always suffices for (\<open>fuel_enough\<close>). Scan walks take fuel; the theorems
  give the amount, or show that every large enough amount gives the same pages.

  \<^bold>\<open>Parameters.\<close> Unicode lowercasing (\<open>ul\<close>), SHA-256 (\<open>sha\<close>, injective on the tokens seen), the Redis
  server (\<open>get\<close>, \<open>put\<close>, \<open>del\<close>, \<open>scan\<close>, \<open>glob\<close>), the cluster's node list, and the files and decoders behind a reading of
  the configuration (\<open>codec\<close>, with the contents behind the payload hashes, \<open>content\<close>). Each theorem that assumes
  a law of one of them has a witness with a concrete instance.

  \<^bold>\<open>Not modelled.\<close> The operator (\<open>operator\<close>), which reconciles policies against the Kubernetes API; of the
  management API the counter listing, the sweep and the simulation, and the Redis scripts of its records; token signature checks
  (\<open>m2m\<close>), by a JOSE library; process start-up, settings, Redis connections, the event loop of the file
  watcher and the registration of metrics. In the server, the request context and its correlation id carry
  nothing the answer depends on.
\<close>

end
